(* ===== verification/Coro_Prelude.thy ===== *)
theory Coro_Prelude
  imports Main "HOL-Library.Word" "HOL-Library.Multiset"
begin

text \<open>
  Shared vocabulary of the development: the types that name addresses, coroutine handles and
  machine integers, the faults a C++ operation can end in, the standard atomics, and the pointer
  chains in which the synchronisation components link their awaiters.
\<close>

section \<open>Types\<close>

text \<open>
  Objects are identified by their address; \<open>0\<close> is the null pointer. A coroutine handle is the
  address of its frame.
\<close>

type_synonym addr = nat
type_synonym handle = nat
type_synonym u64 = "64 word"
type_synonym byte = "8 word"

abbreviation (input) nullptr :: addr where
  "nullptr \<equiv> 0"

text \<open>
  How an operation can fail to return normally: a failed \<open>assert\<close>, a call that blocks for
  ever in the single-threaded reading (a spinning push into a full queue, a pop from an empty
  one), \<open>std::exit(1)\<close>, an access to a destroyed object or through a null pointer, an access
  outside an array, a division by zero, a standard-library exception, and exhausted fuel.
\<close>

datatype fault =
    Assertion
  | Would_block
  | Exit_failure
  | Dangling
  | Out_of_range
  | Div_by_zero
  | Std_exception
  | Out_of_fuel

type_synonym 'a res = "fault + 'a"

definition bindE :: "'a res \<Rightarrow> ('a \<Rightarrow> 'b res) \<Rightarrow> 'b res" where
  "bindE m f = (case m of Inl e \<Rightarrow> Inl e | Inr x \<Rightarrow> f x)"

lemma bindE_simps [simp]:
  "bindE (Inl e) f = Inl e"
  "bindE (Inr x) f = f x"
  by (simp_all add: bindE_def)

lemma bindE_Inr_iff: "bindE m f = Inr y \<longleftrightarrow> (\<exists>x. m = Inr x \<and> f x = Inr y)"
  by (cases m) auto

lemma bindE_Inl_iff: "bindE m f = Inl e \<longleftrightarrow> m = Inl e \<or> (\<exists>x. m = Inr x \<and> f x = Inl e)"
  by (cases m) auto

lemma Inr_pairD1: "Inr (a, b) = Inr (c, d) \<Longrightarrow> c = a"
  by simp

lemma Inr_pairD2: "Inr (a, b) = Inr (c, d) \<Longrightarrow> d = b"
  by simp

lemma bindE_assoc: "bindE (bindE m f) g = bindE m (\<lambda>x. bindE (f x) g)"
  by (cases m) auto

definition assertE :: "bool \<Rightarrow> unit res" where
  "assertE b = (if b then Inr () else Inl Assertion)"

lemma assertE_simps [simp]:
  "assertE True = Inr ()"
  "assertE False = Inl Assertion"
  by (simp_all add: assertE_def)

lemma assertE_Inr_iff [simp]: "assertE b = Inr u \<longleftrightarrow> b"
  by (simp add: assertE_def)

text \<open>A number that fits is what a signed 64-bit word reads back.\<close>

lemma sint_word_of_int: "- (2 ^ 63) \<le> z \<Longrightarrow> z < 2 ^ 63 \<Longrightarrow> sint (word_of_int z :: u64) = z"
  by (simp add: signed_of_int signed_take_bit_int_eq_self)

section \<open>Standard atomics\<close>

text \<open>
  The read-modify-write operations of \<open>std::atomic\<close>: each returns the old value and the
  value stored. A weak compare-exchange may fail although the values agree; whether it does is
  an argument (\<open>spurious\<close>). The last component of a compare-exchange is the value
  written back into \<open>expected\<close>.
\<close>

definition fetch_add :: "'a::plus \<Rightarrow> 'a \<Rightarrow> 'a \<times> 'a" where
  "fetch_add v d = (v, v + d)"

definition fetch_sub :: "'a::minus \<Rightarrow> 'a \<Rightarrow> 'a \<times> 'a" where
  "fetch_sub v d = (v, v - d)"

definition exchange :: "'a \<Rightarrow> 'a \<Rightarrow> 'a \<times> 'a" where
  "exchange v d = (v, d)"

definition cas_strong :: "'a \<Rightarrow> 'a \<Rightarrow> 'a \<Rightarrow> bool \<times> 'a \<times> 'a" where
  "cas_strong v expected desired =
     (if v = expected then (True, desired, expected) else (False, v, v))"

definition cas_weak :: "bool \<Rightarrow> 'a \<Rightarrow> 'a \<Rightarrow> 'a \<Rightarrow> bool \<times> 'a \<times> 'a" where
  "cas_weak spurious v expected desired =
     (if v = expected \<and> \<not> spurious then (True, desired, expected) else (False, v, v))"

named_theorems atomic_defs "definitions of the atomic read-modify-write operations"

lemmas [atomic_defs] =
  fetch_add_def fetch_sub_def exchange_def cas_strong_def cas_weak_def

section \<open>Pointer chains\<close>

text \<open>
  \<open>chain nxt p as\<close>: following \<open>nxt\<close> from \<open>p\<close> visits exactly the objects
  \<open>as\<close>, in this order, and then reaches the null pointer.
\<close>

fun chain :: "(addr \<Rightarrow> addr) \<Rightarrow> addr \<Rightarrow> addr list \<Rightarrow> bool" where
  "chain nxt p [] \<longleftrightarrow> p = nullptr"
| "chain nxt p (a # as) \<longleftrightarrow> p = a \<and> a \<noteq> nullptr \<and> chain nxt (nxt a) as"

lemma chain_null [simp]: "chain nxt nullptr as \<longleftrightarrow> as = []"
  by (cases as) auto

lemma chain_nonnull: "p \<noteq> nullptr \<Longrightarrow> chain nxt p as \<Longrightarrow> \<exists>bs. as = p # bs \<and> chain nxt (nxt p) bs"
  by (cases as) auto

lemma chain_determ: "chain nxt p as \<Longrightarrow> chain nxt p bs \<Longrightarrow> as = bs"
proof (induction as arbitrary: p bs)
  case Nil
  then show ?case by (cases bs) auto
next
  case (Cons a as)
  then show ?case by (cases bs) auto
qed

lemma chain_nonnull_set: "chain nxt p as \<Longrightarrow> nullptr \<notin> set as"
  by (induction as arbitrary: p) auto

lemma chain_upd [simp]: "a \<notin> set as \<Longrightarrow> chain (nxt(a := v)) p as \<longleftrightarrow> chain nxt p as"
  by (induction as arbitrary: p) auto

lemma chain_cong: "(\<And>a. a \<in> set as \<Longrightarrow> f a = g a) \<Longrightarrow> chain f p as \<longleftrightarrow> chain g p as"
  by (induction as arbitrary: p) auto

lemma chain_suffix: "chain nxt p (as @ bs) \<Longrightarrow> \<exists>q. chain nxt q bs"
  by (induction as arbitrary: p) auto

lemma chain_head_unique: "chain nxt p (as @ a # bs) \<Longrightarrow> chain nxt a (a # bs)"
  by (induction as arbitrary: p) auto

lemma chain_distinct: "chain nxt p as \<Longrightarrow> distinct as"
proof (induction as arbitrary: p)
  case Nil
  then show ?case by simp
next
  case (Cons a as)
  then have tl: "chain nxt (nxt a) as" and d: "distinct as" by auto
  have "a \<notin> set as"
  proof
    assume "a \<in> set as"
    then obtain us vs where "as = us @ a # vs" by (meson split_list)
    with tl have "chain nxt a (a # vs)" using chain_head_unique by metis
    then have "chain nxt (nxt a) vs" by simp
    from chain_determ [OF tl this] \<open>as = us @ a # vs\<close> have "length (us @ a # vs) = length vs"
      by metis
    then show False by simp
  qed
  with d show ?case by simp
qed

lemma chain_push:
  "chain nxt p as \<Longrightarrow> a \<notin> set as \<Longrightarrow> a \<noteq> nullptr \<Longrightarrow> chain (nxt(a := p)) a (a # as)"
  by simp

text \<open>
  The walk along a chain as a computation, with fuel for the case that the pointers are cyclic.
\<close>

fun walk :: "nat \<Rightarrow> (addr \<Rightarrow> addr) \<Rightarrow> addr \<Rightarrow> addr list option" where
  "walk 0 nxt p = None"
| "walk (Suc n) nxt p =
     (if p = nullptr then Some [] else map_option (\<lambda>as. p # as) (walk n nxt (nxt p)))"

lemma walk_chain: "chain nxt p as \<Longrightarrow> length as < n \<Longrightarrow> walk n nxt p = Some as"
proof (induction as arbitrary: p n)
  case Nil
  then show ?case by (cases n) auto
next
  case (Cons a as)
  then show ?case by (cases n) auto
qed

section \<open>Lists\<close>

lemma mset_snoc_rev: "mset (xs @ rev ys) = mset xs + mset ys"
  by simp

lemma foldl_snoc: "foldl f s (xs @ [x]) = f (foldl f s xs) x"
  by simp

end
