(* ===== verification/Utils.thy ===== *)
theory Utils
  imports Coro_Prelude
begin

unbundle bit_operations_syntax

text \<open>
  \<open>coro::utils\<close> (include/coro/utils.hpp, src/utils.cpp): the pure string helpers. A
  \<open>std::string\<close> is its list of bytes; \<open>size_t\<close> is a 64-bit word, so that
  \<open>npos\<close> and its wrap-around are the ones of the code. Of the descriptor helpers only
  \<open>set_fd_noblock\<close> has logic of its own; the others and the sleep helpers are single system calls.
\<close>

type_synonym bytes = "byte list"

section \<open>Case folding\<close>

text \<open>The literal table of \<open>to_lower\<close>, entry by entry.\<close>

definition to_lower_table :: "nat list" where
  "to_lower_table = [
        0,   1,   2,   3,   4,   5,   6,   7,   8,   9,   10,  11,  12,  13,  14,  15,  16,  17,  18,  19,  20,  21,
        22,  23,  24,  25,  26,  27,  28,  29,  30,  31,  32,  33,  34,  35,  36,  37,  38,  39,  40,  41,  42,  43,
        44,  45,  46,  47,  48,  49,  50,  51,  52,  53,  54,  55,  56,  57,  58,  59,  60,  61,  62,  63,  64,  97,
        98,  99,  100, 101, 102, 103, 104, 105, 106, 107, 108, 109, 110, 111, 112, 113, 114, 115, 116, 117, 118, 119,
        120, 121, 122, 91,  92,  93,  94,  95,  96,  97,  98,  99,  100, 101, 102, 103, 104, 105, 106, 107, 108, 109,
        110, 111, 112, 113, 114, 115, 116, 117, 118, 119, 120, 121, 122, 123, 124, 125, 126, 127, 128, 129, 130, 131,
        132, 133, 134, 135, 136, 137, 138, 139, 140, 141, 142, 143, 144, 145, 146, 147, 148, 149, 150, 151, 152, 153,
        154, 155, 156, 157, 158, 159, 160, 161, 162, 163, 164, 165, 166, 167, 168, 169, 170, 171, 172, 173, 174, 175,
        176, 177, 178, 179, 180, 181, 182, 183, 184, 185, 186, 187, 188, 189, 190, 191, 224, 225, 226, 227, 228, 229,
        230, 231, 232, 233, 234, 235, 236, 237, 238, 239, 240, 241, 242, 243, 244, 245, 246, 215, 248, 249, 250, 251,
        252, 253, 254, 223, 224, 225, 226, 227, 228, 229, 230, 231, 232, 233, 234, 235, 236, 237, 238, 239, 240, 241,
        242, 243, 244, 245, 246, 247, 248, 249, 250, 251, 252, 253, 254, 255]"

text \<open>The argument is an \<open>int\<close> that the code casts to \<open>unsigned char\<close>.\<close>

definition to_lower :: "int \<Rightarrow> byte" where
  "to_lower c = word_of_nat (to_lower_table ! unat (word_of_int c :: byte))"

text \<open>A byte of a string reaches \<open>to_lower\<close> as a (signed) \<open>char\<close>.\<close>

definition lower_byte :: "byte \<Rightarrow> byte" where
  "lower_byte b = to_lower (sint b)"

text \<open>
  The reference reading: the letters A-Z and the upper-case letters of Latin-1 (192-222 without
  the multiplication sign 215) move by 32, every other byte stays.
\<close>

definition lower_spec :: "nat \<Rightarrow> nat" where
  "lower_spec n = (if 65 \<le> n \<and> n \<le> 90 \<or> 192 \<le> n \<and> n \<le> 222 \<and> n \<noteq> 215 then n + 32 else n)"

lemma to_lower_table_spec: "n < 256 \<Longrightarrow> to_lower_table ! n = lower_spec n"
proof -
  assume n: "n < 256"
  have tab: "to_lower_table = map lower_spec [0..<256]"
    by code_simp
  have "n < 256 - 0" using n by simp
  then show "to_lower_table ! n = lower_spec n"
    unfolding tab by (simp only: nth_map_upt add_0)
qed

lemma lower_spec_bound: "n < 256 \<Longrightarrow> lower_spec n < 256"
  by (simp add: lower_spec_def)

lemma lower_spec_idem: "lower_spec (lower_spec n) = lower_spec n"
  by (simp add: lower_spec_def)

lemma unat_byte_bound: "unat (b :: byte) < 256"
  using unsigned_less [of b] by simp

lemma unat_lower_byte: "unat (lower_byte b) = lower_spec (unat b)"
proof -
  have "word_of_int (sint b) = b" by simp
  then have "lower_byte b = word_of_nat (lower_spec (unat b))"
    by (simp add: lower_byte_def to_lower_def to_lower_table_spec unat_byte_bound)
  then show ?thesis
    using lower_spec_bound [OF unat_byte_bound, of b] by (simp add: unat_of_nat take_bit_nat_eq_self_iff)
qed

lemma lower_byte_idem [simp]: "lower_byte (lower_byte b) = lower_byte b"
  by (rule word_unat_eq_iff [THEN iffD2]) (simp add: unat_lower_byte lower_spec_idem)

section \<open>Hash and equality\<close>

text \<open>
  One step of \<open>hash::hash_core\<close>: in C++ \<open>*\<close> binds tighter than \<open>&\<close>, so the
  product is masked, not the factor.
\<close>

definition hash_mask :: u64 where
  "hash_mask = drop_bit 6 (- 1)"

fun hash_core :: "bytes \<Rightarrow> u64 \<Rightarrow> u64" where
  "hash_core [] h = h"
| "hash_core (c # cs) h = hash_core cs ((hash_mask AND (h * 33)) XOR ucast (lower_byte c))"

definition hash_string :: "bytes \<Rightarrow> u64" where
  "hash_string key = hash_core key 0"

definition equal_ci :: "bytes \<Rightarrow> bytes \<Rightarrow> bool" where
  "equal_ci a b \<longleftrightarrow>
     length a = length b \<and> list_all2 (\<lambda>ca cb. lower_byte ca = lower_byte cb) a b"

text \<open>The same loop over unbounded naturals: no reduction modulo \<open>2 ^ 64\<close> anywhere.\<close>

fun hash_ideal :: "bytes \<Rightarrow> nat \<Rightarrow> nat" where
  "hash_ideal [] h = h"
| "hash_ideal (c # cs) h =
     hash_ideal cs (((h * 33) mod 2 ^ 58) XOR unat (lower_byte c))"

lemma hash_mask_eq: "hash_mask = mask 58"
  by (simp add: hash_mask_def mask_eq_exp_minus_1)

lemma hash_step_nat:
  assumes "unat h < 2 ^ 58"
  shows "unat ((hash_mask AND (h * 33)) XOR ucast (lower_byte c)) =
           ((unat h * 33) mod 2 ^ 58) XOR unat (lower_byte c)"
    and "unat ((hash_mask AND (h * 33)) XOR ucast (lower_byte c)) < 2 ^ 58"
    and "unat h * 33 < 2 ^ 64"
proof -
  show nov: "unat h * 33 < 2 ^ 64" using assms by simp
  then have prod: "unat (h * 33) = unat h * 33"
    by (simp add: unat_word_ariths)
  have masked: "unat (hash_mask AND (h * 33)) = (unat h * 33) mod 2 ^ 58"
    unfolding hash_mask_eq and.commute [of "mask 58"] take_bit_eq_mask [symmetric]
    by (simp only: unsigned_take_bit_eq prod) (simp only: take_bit_eq_mod)
  have byt: "unat (ucast (lower_byte c) :: u64) = unat (lower_byte c)"
    by (simp add: unsigned_ucast_eq take_bit_nat_eq_self_iff) (use unat_byte_bound [of "lower_byte c"] in simp)
  show eq: "unat ((hash_mask AND (h * 33)) XOR ucast (lower_byte c)) =
           ((unat h * 33) mod 2 ^ 58) XOR unat (lower_byte c)"
    by (simp add: unsigned_xor_eq masked byt)
  have "take_bit 58 (unat h * 33 mod 2 ^ 58) = unat h * 33 mod 2 ^ 58"
    and "take_bit 58 (unat (lower_byte c)) = unat (lower_byte c)"
    using unat_byte_bound [of "lower_byte c"] by (simp_all add: take_bit_eq_mod)
  then have "take_bit 58 (((unat h * 33) mod 2 ^ 58) XOR unat (lower_byte c)) =
          ((unat h * 33) mod 2 ^ 58) XOR unat (lower_byte c)"
    by (simp only: take_bit_xor)
  then show "unat ((hash_mask AND (h * 33)) XOR ucast (lower_byte c)) < 2 ^ 58"
    by (simp only: eq) (metis take_bit_nat_less_exp)
qed

lemma hash_core_ideal:
  "unat h < 2 ^ 58 \<Longrightarrow> unat (hash_core s h) = hash_ideal s (unat h) \<and> unat (hash_core s h) < 2 ^ 58"
proof (induction s arbitrary: h)
  case Nil
  then show ?case by simp
next
  case (Cons c s)
  then show ?case
    using Cons.IH [OF hash_step_nat(2) [OF Cons.prems, of c]]
    by (simp add: hash_step_nat(1) [OF Cons.prems])
qed

lemma hash_core_cong:
  "list_all2 (\<lambda>ca cb. lower_byte ca = lower_byte cb) a b \<Longrightarrow> hash_core a h = hash_core b h"
  by (induction arbitrary: h rule: list_all2_induct) auto

text \<open>
  The masking of \<open>hash_core\<close> keeps its promise ("no overflow happens"): started from
  0, the 64-bit hash of every string equals the one computed without any reduction modulo
  \<open>2 ^ 64\<close>, and it stays below \<open>2 ^ 58\<close>.
\<close>

lemma hash_never_overflows:
  "unat (hash_string s) = hash_ideal s 0 \<and> unat (hash_string s) < 2 ^ 58"
  using hash_core_ideal [of 0 s] by (simp add: hash_string_def)

text \<open>
  \<open>hash\<close> and \<open>equal_to\<close> fit together as an unordered container needs: equality is
  an equivalence, and strings that are equal up to case have the same hash.
\<close>

lemma hash_respects_equal:
  "equal_ci a a \<and> equal_ci a b = equal_ci b a \<and>
   (equal_ci a b \<and> equal_ci b c \<longrightarrow> equal_ci a c) \<and>
   (equal_ci a b \<longrightarrow> hash_string a = hash_string b)"
proof -
  have "equal_ci a a" by (simp add: equal_ci_def list_all2_refl)
  moreover have "equal_ci a b = equal_ci b a"
    by (auto simp: equal_ci_def list_all2_conv_all_nth)
  moreover have "equal_ci a b \<and> equal_ci b c \<longrightarrow> equal_ci a c"
    by (auto simp: equal_ci_def list_all2_conv_all_nth)
  moreover have "equal_ci a b \<longrightarrow> hash_string a = hash_string b"
    by (simp add: equal_ci_def hash_string_def hash_core_cong)
  ultimately show ?thesis by blast
qed

lemma hash_respects_equal_witness:
  "equal_ci [65, 98] [97, 66] \<and> hash_string [65, 98] = hash_string [97, 66]"
proof -
  have "equal_ci [65, 98] [97, 66]" by code_simp
  then show ?thesis using hash_respects_equal [of "[65, 98]" "[97, 66]" "[97, 66]"] by blast
qed

section \<open>Trimming\<close>

definition npos :: u64 where
  "npos = - 1"

text \<open>\<open>std::string::find_first_not_of\<close>, \<open>find_last_not_of\<close> and \<open>erase\<close>.\<close>

fun first_not_of :: "bytes \<Rightarrow> bytes \<Rightarrow> nat \<Rightarrow> u64" where
  "first_not_of [] t i = npos"
| "first_not_of (c # cs) t i = (if c \<in> set t then first_not_of cs t (Suc i) else word_of_nat i)"

definition find_first_not_of :: "bytes \<Rightarrow> bytes \<Rightarrow> u64" where
  "find_first_not_of s t = first_not_of s t 0"

fun last_not_of :: "bytes \<Rightarrow> bytes \<Rightarrow> nat \<Rightarrow> u64 \<Rightarrow> u64" where
  "last_not_of [] t i found = found"
| "last_not_of (c # cs) t i found =
     last_not_of cs t (Suc i) (if c \<in> set t then found else word_of_nat i)"

definition find_last_not_of :: "bytes \<Rightarrow> bytes \<Rightarrow> u64" where
  "find_last_not_of s t = last_not_of s t 0 npos"

definition erase :: "bytes \<Rightarrow> u64 \<Rightarrow> u64 \<Rightarrow> bytes res" where
  "erase s pos cnt =
     (if length s < unat pos then Inl Std_exception
      else Inr (take (unat pos) s @ drop (unat pos + unat cnt) s))"

definition trim :: "bytes \<Rightarrow> bytes \<Rightarrow> bytes res" where
  "trim s to_trim =
     (if s = [] then Inr s
      else bindE (erase s 0 (find_first_not_of s to_trim))
             (\<lambda>s1. erase s1 (find_last_not_of s1 to_trim + 1) npos))"

definition trim_spec :: "bytes \<Rightarrow> bytes \<Rightarrow> bytes" where
  "trim_spec s t = rev (dropWhile (\<lambda>c. c \<in> set t) (rev (dropWhile (\<lambda>c. c \<in> set t) s)))"

lemma unat_npos: "unat npos = 2 ^ 64 - 1"
  by (simp add: npos_def unsigned_minus_1_eq_mask mask_eq_exp_minus_1)

lemma unat_of_small_nat: "i < 2 ^ 64 \<Longrightarrow> unat (word_of_nat i :: u64) = i"
  by (simp add: unat_of_nat take_bit_nat_eq_self_iff)

lemma erase_prefix:
  assumes "i + length s < 2 ^ 64 - 1"
  shows "drop (unat (first_not_of s t i) - i) s = dropWhile (\<lambda>c. c \<in> set t) s
         \<and> i \<le> unat (first_not_of s t i)"
  using assms
proof (induction s arbitrary: i)
  case Nil
  then show ?case by (simp add: unat_npos)
next
  case (Cons c s)
  show ?case
  proof (cases "c \<in> set t")
    case True
    with Cons.IH [of "Suc i"] Cons.prems have
      ih: "drop (unat (first_not_of s t (Suc i)) - Suc i) s = dropWhile (\<lambda>c. c \<in> set t) s"
      and le: "Suc i \<le> unat (first_not_of s t (Suc i))" by auto
    from le have "unat (first_not_of s t (Suc i)) - i = Suc (unat (first_not_of s t (Suc i)) - Suc i)"
      by simp
    with True ih le show ?thesis by simp
  next
    case False
    with Cons.prems show ?thesis by (simp add: unat_of_small_nat)
  qed
qed

lemma last_not_of_append:
  "last_not_of (xs @ ys) t i f = last_not_of ys t (i + length xs) (last_not_of xs t i f)"
  by (induction xs arbitrary: i f) auto

lemma last_not_of_all_in: "set ys \<subseteq> set t \<Longrightarrow> last_not_of ys t i f = f"
  by (induction ys arbitrary: i f) auto

lemma erase_suffix:
  assumes "length s < 2 ^ 64 - 1"
  shows "unat (find_last_not_of s t + 1) =
           length (rev (dropWhile (\<lambda>c. c \<in> set t) (rev s)))"
  using assms
proof (induction s rule: rev_induct)
  case Nil
  then show ?case by (simp add: find_last_not_of_def npos_def)
next
  case (snoc c s)
  show ?case
  proof (cases "c \<in> set t")
    case True
    with snoc show ?thesis by (simp add: find_last_not_of_def last_not_of_append)
  next
    case False
    then have "find_last_not_of (s @ [c]) t + 1 = word_of_nat (Suc (length s))"
      by (simp add: find_last_not_of_def last_not_of_append add.commute)
    moreover have "Suc (length s) < 2 ^ 64" using snoc.prems by simp
    ultimately have "unat (find_last_not_of (s @ [c]) t + 1) = Suc (length s)"
      by (simp only: unat_of_small_nat)
    with False show ?thesis by simp
  qed
qed

lemma erase_from_zero:
  "length s < 2 ^ 64 - 1 \<Longrightarrow>
   erase s 0 (find_first_not_of s t) = Inr (dropWhile (\<lambda>c. c \<in> set t) s)"
  using erase_prefix [of 0 s t] by (simp add: erase_def find_first_not_of_def)

lemma take_length_rev_dropWhile:
  "take (length (rev (dropWhile P (rev s)))) s = rev (dropWhile P (rev s))"
proof -
  have "rev s = takeWhile P (rev s) @ dropWhile P (rev s)" by simp
  then have "s = rev (dropWhile P (rev s)) @ rev (takeWhile P (rev s))"
    by (metis rev_append rev_rev_ident)
  then show ?thesis by (metis append_eq_conv_conj)
qed

text \<open>
  \<open>trim\<close> never raises and removes exactly the maximal prefix and suffix of trimmed
  bytes, also when every byte is trimmed and \<open>find_last_not_of\<close> answers \<open>npos\<close>, whose
  successor wraps to 0. A string is shorter than \<open>npos\<close>.
\<close>

lemma trim_correct:
  assumes "length s < 2 ^ 64 - 1"
  shows "trim s t = Inr (trim_spec s t)"
proof -
  let ?s1 = "dropWhile (\<lambda>c. c \<in> set t) s"
  have len: "length ?s1 \<le> length s" by (rule length_dropWhile_le)
  then have l1: "length ?s1 < 2 ^ 64 - 1" using assms by (rule le_less_trans)
  let ?k = "length (rev (dropWhile (\<lambda>c. c \<in> set t) (rev ?s1)))"
  have k: "?k \<le> length ?s1" using length_dropWhile_le [of _ "rev ?s1"] by simp
  have "erase ?s1 (find_last_not_of ?s1 t + 1) npos = Inr (trim_spec s t)"
    using k l1 take_length_rev_dropWhile [of "\<lambda>c. c \<in> set t" ?s1]
    unfolding erase_def erase_suffix [OF l1] unat_npos trim_spec_def by auto
  then show ?thesis
    using assms by (auto simp: trim_def erase_from_zero trim_spec_def)
qed

lemma trim_correct_witness:
  "trim [32, 97, 32, 98, 32] [32] = Inr [97, 32, 98] \<and> trim [32, 32] [32] = Inr []"
  using trim_correct [of "[32, 97, 32, 98, 32]" "[32]"] trim_correct [of "[32, 32]" "[32]"]
  by (simp add: trim_spec_def)

section \<open>Numbers and file extensions\<close>

definition is_digit :: "byte \<Rightarrow> bool" where
  "is_digit c \<longleftrightarrow> 48 \<le> c \<and> c \<le> 57"

definition is_numeric :: "bytes \<Rightarrow> bool" where
  "is_numeric str \<longleftrightarrow> str \<noteq> [] \<and> list_all is_digit str"

definition is_alnum :: "byte \<Rightarrow> bool" where
  "is_alnum c \<longleftrightarrow> is_digit c \<or> 65 \<le> c \<and> c \<le> 90 \<or> 97 \<le> c \<and> c \<le> 122"

text \<open>
  \<open>regex_search\<close> for a dot followed by one or more alphanumeric bytes up to the end: the
  leftmost position at which the expression matches wins; the group is what follows the dot.
\<close>

fun file_extension :: "bytes \<Rightarrow> bytes" where
  "file_extension [] = []"
| "file_extension (c # cs) =
     (if c = 46 \<and> cs \<noteq> [] \<and> list_all is_alnum cs then cs else file_extension cs)"

lemma file_extension_no_dot: "46 \<notin> set s \<Longrightarrow> file_extension s = []"
  by (induction s) auto

lemma dot_not_alnum: "\<not> is_alnum 46"
  by (simp add: is_alnum_def is_digit_def)

text \<open>
  The leftmost match is the one at the last dot: \<open>file_extension\<close> returns what follows
  the last dot if that is non-empty and alphanumeric, and the empty string otherwise.
\<close>

lemma file_extension_last_dot:
  assumes "46 \<notin> set ext"
  shows "file_extension (stem @ 46 # ext) =
           (if ext \<noteq> [] \<and> list_all is_alnum ext then ext else [])"
proof (induction stem)
  case Nil
  then show ?case using assms by (simp add: file_extension_no_dot)
next
  case (Cons c stem)
  then show ?case using dot_not_alnum by simp
qed

lemma file_extension_last_dot_witness:
  "file_extension [97, 46, 98, 46, 104, 112, 112] = [104, 112, 112]"
  using file_extension_last_dot [of "[104, 112, 112]" "[97, 46, 98]"]
  by (simp add: is_alnum_def is_digit_def)

section \<open>Non-blocking descriptors\<close>

definition O_NONBLOCK :: "32 word" where
  "O_NONBLOCK = 2048"

text \<open>
  \<open>set_fd_noblock\<close>: \<open>flags0\<close> is the answer of \<open>fcntl(fd, F_GETFL, 0)\<close>, \<open>answer\<close> that of the
  call that sets the flags; the result lists the calls that set flags. That call is the argument of an
  \<open>assert\<close>, which a build with \<open>NDEBUG\<close> removes together with its argument.
\<close>

definition set_fd_noblock :: "bool \<Rightarrow> 32 word \<Rightarrow> int \<Rightarrow> int \<Rightarrow> (int \<times> 32 word) list res" where
  "set_fd_noblock ndebug flags0 answer fd =
     (if ndebug then Inr []
      else bindE (assertE (0 \<le> sint flags0)) (\<lambda>_.
        let flags = flags0 OR O_NONBLOCK in
        bindE (assertE (0 \<le> answer)) (\<lambda>_. Inr [(fd, flags)])))"

text \<open>
  A descriptor is made non-blocking in a debug build only: there one call sets the flag and keeps
  the others, while a release build never sets anything, whatever the system answers.
\<close>

lemma noblock_only_in_debug:
  "(0 \<le> sint flags0 \<and> 0 \<le> answer \<longrightarrow>
     (\<exists>flags. set_fd_noblock False flags0 answer fd = Inr [(fd, flags)] \<and>
        (\<forall>i. bit flags i \<longleftrightarrow> bit flags0 i \<or> i = 11))) \<and>
   set_fd_noblock True flags0 answer fd = Inr []"
proof -
  have e: "O_NONBLOCK = 2 ^ 11" by (simp add: O_NONBLOCK_def)
  have p: "possible_bit TYPE(32 word) 11" by simp
  have "bit O_NONBLOCK i \<longleftrightarrow> i = 11" for i
    unfolding e bit_exp_iff using p by blast
  then have "bit (flags0 OR O_NONBLOCK) i \<longleftrightarrow> bit flags0 i \<or> i = 11" for i
    by (simp only: bit_or_iff)
  moreover have "set_fd_noblock False flags0 answer fd = Inr [(fd, flags0 OR O_NONBLOCK)]"
    if "0 \<le> sint flags0" "0 \<le> answer" using that by (simp add: set_fd_noblock_def Let_def)
  moreover have "set_fd_noblock True flags0 answer fd = Inr []" by (simp add: set_fd_noblock_def)
  ultimately show ?thesis by blast
qed

lemma noblock_only_in_debug_witness:
  "\<exists>flags. set_fd_noblock False 2 0 4 = Inr [(4, flags)] \<and> bit flags 11"
  using noblock_only_in_debug [of 2 0 4, THEN conjunct1] by simp blast

section \<open>The null descriptor and sleeping\<close>

text \<open>
  \<open>get_null_fd\<close> passes on the answer of \<open>open\<close>. The functions that sleep do nothing but ask
  \<open>sleep_for\<close> for a duration, here in nanoseconds.
\<close>

definition O_RDWR :: "32 word" where
  "O_RDWR = 2"

definition get_null_fd :: "(string \<Rightarrow> 32 word \<Rightarrow> int) \<Rightarrow> int" where
  "get_null_fd open = open ''/dev/null'' O_RDWR"

definition sleep :: "int \<Rightarrow> int" where
  "sleep t = t * 1000000000"

definition msleep :: "int \<Rightarrow> int" where
  "msleep t = t * 1000000"

definition usleep :: "int \<Rightarrow> int" where
  "usleep t = t * 1000"

end
