(* ===== verification/Log.thy ===== *)
theory Log
  imports Coro_Prelude
begin

text \<open>
  \<open>coro::log\<close> (include/coro/log.hpp) with its settings (config/config.h.in): six functions that
  drop what lies below the configured level and hand the rest to spdlog, and, when the library is
  configured to log to a file too, a file logger that is made at the first use.

  spdlog is a submodule. Calls into it are recorded in a history; of its behaviour only this is
  used, where a lemma says so: a logger shows a message when the level of the message is at least
  the level of the logger, and the level of the default logger is \<open>info\<close>.
\<close>

section \<open>Levels, settings and calls\<close>

datatype level = Trace | Debug | Info | Warn | Err | Critical | Off

text \<open>The order of \<open>spdlog::level\<close>.\<close>

fun level_rank :: "level \<Rightarrow> nat" where
  "level_rank Trace = 0"
| "level_rank Debug = 1"
| "level_rank Info = 2"
| "level_rank Warn = 3"
| "level_rank Err = 4"
| "level_rank Critical = 5"
| "level_rank Off = 6"

instantiation level :: linorder
begin

definition less_eq_level :: "level \<Rightarrow> level \<Rightarrow> bool" where
  "less_eq_level a b \<longleftrightarrow> level_rank a \<le> level_rank b"

definition less_level :: "level \<Rightarrow> level \<Rightarrow> bool" where
  "less_level a b \<longleftrightarrow> level_rank a < level_rank b"

instance
proof
  fix x y z :: level
  show "x < y \<longleftrightarrow> x \<le> y \<and> \<not> y \<le> x" by (auto simp: less_level_def less_eq_level_def)
  show "x \<le> x" by (simp add: less_eq_level_def)
  show "x \<le> y \<Longrightarrow> y \<le> z \<Longrightarrow> x \<le> z" by (simp add: less_eq_level_def)
  show "x \<le> y \<Longrightarrow> y \<le> x \<Longrightarrow> x = y" by (cases x; cases y) (simp_all add: less_eq_level_def)
  show "x \<le> y \<or> y \<le> x" by (auto simp: less_eq_level_def)
qed

end

text \<open>
  \<open>LOGTOFILE\<close> is not defined and \<open>LOG_LEVEL\<close> is info unless the user edits the settings; the
  source directory comes from the build.
\<close>

record log_config =
  log_to_file :: bool
  log_level :: level
  source_dir :: string

definition kLogFileName :: string where
  "kLogFileName = ''/temp/logs/coro.log''"

definition kFlushDura :: int where
  "kFlushDura = 3"

definition default_log_config :: "string \<Rightarrow> log_config" where
  "default_log_config dir = \<lparr>log_to_file = False, log_level = Info, source_dir = dir\<rparr>"

text \<open>A message: its format and its arguments.\<close>

datatype 'a spd_call =
    Create_file_logger string string bool
  | Set_pattern string
  | Set_level level
  | Flush_every int
  | Flush_on level
  | File_message level string "'a list"
  | Default_message level string "'a list"

record 'a log_state =
  logger_made :: bool
  spd_calls :: "'a spd_call list"

definition new_log :: "'a log_state" where
  "new_log = \<lparr>logger_made = False, spd_calls = []\<rparr>"

abbreviation spd :: "'a spd_call \<Rightarrow> 'a log_state \<Rightarrow> 'a log_state" where
  "spd c s \<equiv> s\<lparr>spd_calls := spd_calls s @ [c]\<rparr>"

section \<open>The file logger\<close>

definition new_logger :: "log_config \<Rightarrow> 'a log_state \<Rightarrow> 'a log_state" where
  "new_logger cfg s =
     (if log_to_file cfg then
        let log_path = source_dir cfg @ kLogFileName in
        spd (Flush_every kFlushDura)
          (spd (Set_level (log_level cfg))
            (spd (Set_pattern ''[%n][%Y-%m-%d %H:%M:%S.%e] [%l] [%t]  %v'')
              (spd (Create_file_logger ''corolog'' log_path True) s)))
      else s)"

definition drop_logger :: "log_config \<Rightarrow> 'a log_state \<Rightarrow> 'a log_state" where
  "drop_logger cfg s = (if log_to_file cfg then spd (Flush_on (log_level cfg)) s else s)"

text \<open>\<open>get_logger\<close>: a static local is constructed at the first call and destroyed at the exit.\<close>

definition get_logger :: "log_config \<Rightarrow> 'a log_state \<Rightarrow> 'a log_state" where
  "get_logger cfg s = (if logger_made s then s else (new_logger cfg s)\<lparr>logger_made := True\<rparr>)"

definition log_exit :: "log_config \<Rightarrow> 'a log_state \<Rightarrow> 'a log_state" where
  "log_exit cfg s = (if logger_made s then drop_logger cfg s else s)"

section \<open>The functions\<close>

definition log_trace :: "log_config \<Rightarrow> string \<Rightarrow> 'a list \<Rightarrow> 'a log_state \<Rightarrow> 'a log_state" where
  "log_trace cfg fmt args s =
     (if log_level cfg \<le> Trace then
        spd (Default_message Trace fmt args)
          (if log_to_file cfg then spd (File_message Trace fmt args) (get_logger cfg s) else s)
      else s)"

definition log_debug :: "log_config \<Rightarrow> string \<Rightarrow> 'a list \<Rightarrow> 'a log_state \<Rightarrow> 'a log_state" where
  "log_debug cfg fmt args s =
     (if log_level cfg \<le> Debug then
        spd (Default_message Debug fmt args)
          (if log_to_file cfg then spd (File_message Debug fmt args) (get_logger cfg s) else s)
      else s)"

definition log_info :: "log_config \<Rightarrow> string \<Rightarrow> 'a list \<Rightarrow> 'a log_state \<Rightarrow> 'a log_state" where
  "log_info cfg fmt args s =
     (if log_level cfg \<le> Info then
        spd (Default_message Info fmt args)
          (if log_to_file cfg then spd (File_message Info fmt args) (get_logger cfg s) else s)
      else s)"

definition log_warn :: "log_config \<Rightarrow> string \<Rightarrow> 'a list \<Rightarrow> 'a log_state \<Rightarrow> 'a log_state" where
  "log_warn cfg fmt args s =
     (if log_level cfg \<le> Warn then
        spd (Default_message Warn fmt args)
          (if log_to_file cfg then spd (File_message Warn fmt args) (get_logger cfg s) else s)
      else s)"

definition log_error :: "log_config \<Rightarrow> string \<Rightarrow> 'a list \<Rightarrow> 'a log_state \<Rightarrow> 'a log_state" where
  "log_error cfg fmt args s =
     (if log_level cfg \<le> Err then
        spd (Default_message Err fmt args)
          (if log_to_file cfg then spd (File_message Err fmt args) (get_logger cfg s) else s)
      else s)"

definition log_critical :: "log_config \<Rightarrow> string \<Rightarrow> 'a list \<Rightarrow> 'a log_state \<Rightarrow> 'a log_state" where
  "log_critical cfg fmt args s =
     (if log_level cfg \<le> Critical then
        spd (Default_message Critical fmt args)
          (if log_to_file cfg then spd (File_message Critical fmt args) (get_logger cfg s) else s)
      else s)"

text \<open>The function for a level; there is none for \<open>Off\<close>.\<close>

fun log_at :: "level \<Rightarrow> log_config \<Rightarrow> string \<Rightarrow> 'a list \<Rightarrow> 'a log_state \<Rightarrow> 'a log_state" where
  "log_at Trace = log_trace"
| "log_at Debug = log_debug"
| "log_at Info = log_info"
| "log_at Warn = log_warn"
| "log_at Err = log_error"
| "log_at Critical = log_critical"
| "log_at Off = (\<lambda>cfg fmt args s. s)"

lemmas log_defs =
  log_trace_def log_debug_def log_info_def log_warn_def log_error_def log_critical_def

type_synonym 'a message = "level \<times> string \<times> 'a list"

fun log_all :: "log_config \<Rightarrow> 'a message list \<Rightarrow> 'a log_state \<Rightarrow> 'a log_state" where
  "log_all cfg [] s = s"
| "log_all cfg ((l, fmt, args) # ms) s = log_all cfg ms (log_at l cfg fmt args s)"

section \<open>What is written\<close>

fun file_messages :: "'a spd_call list \<Rightarrow> 'a message list" where
  "file_messages [] = []"
| "file_messages (File_message l fmt args # cs) = (l, fmt, args) # file_messages cs"
| "file_messages (_ # cs) = file_messages cs"

fun default_messages :: "'a spd_call list \<Rightarrow> 'a message list" where
  "default_messages [] = []"
| "default_messages (Default_message l fmt args # cs) = (l, fmt, args) # default_messages cs"
| "default_messages (_ # cs) = default_messages cs"

fun loggers_made :: "'a spd_call list \<Rightarrow> nat" where
  "loggers_made [] = 0"
| "loggers_made (Create_file_logger n p t # cs) = Suc (loggers_made cs)"
| "loggers_made (_ # cs) = loggers_made cs"

lemma messages_append [simp]:
  "file_messages (cs @ ds) = file_messages cs @ file_messages ds"
  "default_messages (cs @ ds) = default_messages cs @ default_messages ds"
  "loggers_made (cs @ ds) = loggers_made cs + loggers_made ds"
proof -
  show "file_messages (cs @ ds) = file_messages cs @ file_messages ds"
    by (induction cs rule: file_messages.induct) simp_all
  show "default_messages (cs @ ds) = default_messages cs @ default_messages ds"
    by (induction cs rule: default_messages.induct) simp_all
  show "loggers_made (cs @ ds) = loggers_made cs + loggers_made ds"
    by (induction cs rule: loggers_made.induct) simp_all
qed

text \<open>The functions differ in the level only.\<close>

lemma log_at_eq:
  assumes "l \<noteq> Off"
  shows "log_at l cfg fmt args s =
    (if log_level cfg \<le> l then
       spd (Default_message l fmt args)
         (if log_to_file cfg then spd (File_message l fmt args) (get_logger cfg s) else s)
     else s)"
  using assms by (cases l) (simp_all add: log_defs)

lemma get_logger_calls:
  "file_messages (spd_calls (get_logger cfg s)) = file_messages (spd_calls s)"
  "default_messages (spd_calls (get_logger cfg s)) = default_messages (spd_calls s)"
  "log_to_file cfg \<Longrightarrow> loggers_made (spd_calls (get_logger cfg s)) =
     loggers_made (spd_calls s) + (if logger_made s then 0 else 1)"
  "logger_made (get_logger cfg s)"
  by (simp_all add: get_logger_def new_logger_def Let_def)

lemma log_at_effect:
  assumes "l \<noteq> Off"
  shows "default_messages (spd_calls (log_at l cfg fmt args s)) =
      default_messages (spd_calls s) @ (if log_level cfg \<le> l then [(l, fmt, args)] else [])"
    and "file_messages (spd_calls (log_at l cfg fmt args s)) =
      file_messages (spd_calls s) @
        (if log_to_file cfg \<and> log_level cfg \<le> l then [(l, fmt, args)] else [])"
    and "loggers_made (spd_calls s) = of_bool (logger_made s) \<Longrightarrow>
      loggers_made (spd_calls (log_at l cfg fmt args s)) = of_bool (logger_made (log_at l cfg fmt args s))"
    and "\<not> log_to_file cfg \<Longrightarrow> logger_made (log_at l cfg fmt args s) = logger_made s"
  by (simp_all add: log_at_eq [OF assms] get_logger_calls)

text \<open>
  Of any sequence of log calls exactly the messages at or above the configured level are handed on,
  once each and in order: to the default logger, and before that to the file logger when the
  library logs to a file; the file logger is made at most once.
\<close>

lemma log_filters_by_level:
  assumes "\<forall>m\<in>set ms. fst m \<noteq> Off"
  shows "default_messages (spd_calls (log_all cfg ms new_log)) = filter (\<lambda>m. log_level cfg \<le> fst m) ms \<and>
         file_messages (spd_calls (log_all cfg ms new_log)) =
           (if log_to_file cfg then filter (\<lambda>m. log_level cfg \<le> fst m) ms else []) \<and>
         loggers_made (spd_calls (log_all cfg ms new_log)) \<le> 1"
proof -
  have g: "default_messages (spd_calls (log_all cfg ms s)) =
        default_messages (spd_calls s) @ filter (\<lambda>m. log_level cfg \<le> fst m) ms \<and>
      file_messages (spd_calls (log_all cfg ms s)) = file_messages (spd_calls s) @
        (if log_to_file cfg then filter (\<lambda>m. log_level cfg \<le> fst m) ms else []) \<and>
      loggers_made (spd_calls (log_all cfg ms s)) = of_bool (logger_made (log_all cfg ms s))"
    if "loggers_made (spd_calls s) = of_bool (logger_made s)" for s :: "'a log_state"
    using assms that
  proof (induction ms arbitrary: s)
    case (Cons m ms)
    obtain l fmt args where m: "m = (l, fmt, args)" by (cases m)
    with Cons.prems have l: "l \<noteq> Off" by simp
    let ?s = "log_at l cfg fmt args s"
    from Cons.IH [of ?s] Cons.prems log_at_effect [OF l, where cfg = cfg and fmt = fmt and args = args and s = s] m
    show ?case by simp
  qed simp
  have "loggers_made (spd_calls (new_log :: 'a log_state)) = of_bool (logger_made (new_log :: 'a log_state))"
    by (simp add: new_log_def)
  from g [OF this] show ?thesis by (simp add: new_log_def)
qed

text \<open>
  What spdlog shows of the messages handed to a logger. The library sets the level of its file
  logger but never that of the default logger, so a configured level of trace or debug takes effect
  in the file only: the default logger still shows nothing below info.
\<close>

definition shows_from :: "(level \<Rightarrow> level \<Rightarrow> bool) \<Rightarrow> bool" where
  "shows_from shown \<longleftrightarrow> (\<forall>logger msg. shown logger msg \<longleftrightarrow> logger \<le> msg)"

lemma console_ignores_low_levels:
  assumes "shows_from shown" and "\<forall>m\<in>set ms. fst m \<noteq> Off" and "log_level cfg \<le> Info"
  shows "filter (\<lambda>m. shown Info (fst m)) (default_messages (spd_calls (log_all cfg ms new_log))) =
    filter (\<lambda>m. Info \<le> fst m) ms"
  using log_filters_by_level [OF assms(2), of cfg] assms(1,3)
  by (auto simp: shows_from_def intro!: filter_cong)

end
