(* ===== verification/Concepts.thy ===== *)
theory Concepts
  imports Coro_Prelude
begin

text \<open>
  The compile-time interface of the library: the concepts of include/coro/concepts (awaitable.hpp,
  common.hpp, lock.hpp, promise.hpp, range_of.hpp), \<open>function_traits\<close> (function_traits.hpp), the
  constraints of include/coro/parallel/parallel.hpp, and the classes of the library that they are
  about, with the declarations the concepts look at. C++ types are data, a class is the list of its
  bases and public members, and a concept is a computable predicate on types.
\<close>

section \<open>Types and classes\<close>

text \<open>The classes of the library the concepts are about; \<open>User\<close> are the classes of a program.\<close>

datatype class_name =
    Std_suspend_always | Std_function | Std_vector | Std_array
  | Container_class | Event_awaiter_base | Event_awaiter
  | Mutex_class | Mutex_awaiter_class | Mutex_guard_awaiter | Lock_guard_class
  | Cv_awaiter_class | Wg_awaiter_class | Spinlock_class
  | Io_base_awaiter | Io_noop_awaiter | Io_stdin_awaiter | Io_accept_awaiter | Io_read_awaiter
  | Io_write_awaiter | Io_close_awaiter | Io_connect_awaiter
  | Timer_class | Timer_awaiter_class
  | Task_class | Task_awaitable_base | Task_awaitable_lvalue | Task_awaitable_rvalue
  | Final_awaiter_class | Promise_base_class | Promise_class
  | When_all_awaiter
  | User nat

datatype refq = No_ref | Lref | Const_lref | Rref

text \<open>What may follow the parameters of a member function: const, volatile, noexcept, a reference.\<close>

datatype fquals = Quals (q_const: bool) (q_volatile: bool) (q_noexcept: bool) (q_ref: refq)

datatype cty =
    T_void | T_bool | T_int | T_handle
  | T_class class_name "cty list"
  | T_ptr cty | T_lref cty | T_rref cty | T_const cty
  | T_fun cty "cty list" bool
  | T_memfun cty cty "cty list" fquals

datatype mname =
    Await_ready | Await_suspend | Await_resume | Op_co_await | Op_call | Next_fn
  | Lock_fn | Unlock_fn
  | Get_return_object | Initial_suspend | Final_suspend | Yield_value | Return_void | Return_value

record cmember =
  mf_name :: mname
  mf_params :: "cty list"
  mf_ret :: cty
  mf_quals :: fquals

record cclass =
  c_bases :: "cty list"
  c_members :: "cmember list"
  c_layout :: bool
  c_trivial :: bool

text \<open>
  A program: its classes and the return types of the free functions \<open>operator co_await\<close> for an
  lvalue and for an rvalue argument.
\<close>

record cxx =
  classes :: "cty \<Rightarrow> cclass option"
  free_co_await :: "bool \<Rightarrow> cty \<Rightarrow> cty option"

definition plain_quals :: fquals where
  "plain_quals = Quals False False False No_ref"

definition meth :: "mname \<Rightarrow> cty list \<Rightarrow> cty \<Rightarrow> cmember" where
  "meth n ps r = \<lparr>mf_name = n, mf_params = ps, mf_ret = r, mf_quals = plain_quals\<rparr>"

definition meth_q :: "mname \<Rightarrow> cty list \<Rightarrow> cty \<Rightarrow> bool \<Rightarrow> refq \<Rightarrow> cmember" where
  "meth_q n ps r const q =
     \<lparr>mf_name = n, mf_params = ps, mf_ret = r, mf_quals = Quals const False False q\<rparr>"

text \<open>
  A class with a constructor or members of its own, and one without either, which is standard
  layout and trivial.
\<close>

definition cls :: "cty list \<Rightarrow> cmember list \<Rightarrow> cclass" where
  "cls bs ms = \<lparr>c_bases = bs, c_members = ms, c_layout = False, c_trivial = False\<rparr>"

definition empty_cls :: "cty list \<Rightarrow> cmember list \<Rightarrow> cclass" where
  "empty_cls bs ms = \<lparr>c_bases = bs, c_members = ms, c_layout = True, c_trivial = True\<rparr>"

section \<open>Expressions\<close>

fun strip_ref :: "cty \<Rightarrow> cty" where
  "strip_ref (T_lref t) = t"
| "strip_ref (T_rref t) = t"
| "strip_ref t = t"

fun strip_const :: "cty \<Rightarrow> cty" where
  "strip_const (T_const t) = t"
| "strip_const t = t"

definition decayed :: "cty \<Rightarrow> cty" where
  "decayed t = strip_const (strip_ref t)"

fun is_const :: "cty \<Rightarrow> bool" where
  "is_const (T_const t) = True"
| "is_const t = False"

fun is_lref :: "cty \<Rightarrow> bool" where
  "is_lref (T_lref t) = True"
| "is_lref t = False"

fun is_reference :: "cty \<Rightarrow> bool" where
  "is_reference (T_lref t) = True"
| "is_reference (T_rref t) = True"
| "is_reference t = False"

text \<open>
  Member lookup: the members of that name in the class, else in the one base that has some. The
  fuel bounds the depth of the inheritance, which is 3 in the library.
\<close>

fun lookup :: "nat \<Rightarrow> (cty \<Rightarrow> cclass option) \<Rightarrow> mname \<Rightarrow> cty \<Rightarrow> cmember list" where
  "lookup 0 P f t = []"
| "lookup (Suc n) P f t =
     (case P t of
        None \<Rightarrow> []
      | Some c \<Rightarrow>
          let own = filter (\<lambda>m. mf_name m = f) (c_members c) in
          if own \<noteq> [] then own
          else (case filter (\<lambda>ms. ms \<noteq> []) (map (lookup n P f) (c_bases c)) of
                  [ms] \<Rightarrow> ms
                | _ \<Rightarrow> []))"

definition max_depth :: nat where
  "max_depth = 4"

fun ref_ok :: "bool \<Rightarrow> refq \<Rightarrow> bool" where
  "ref_ok lval No_ref = True"
| "ref_ok lval Lref = lval"
| "ref_ok lval Const_lref = True"
| "ref_ok lval Rref = (\<not> lval)"

definition viable :: "bool \<Rightarrow> cty \<Rightarrow> cty list \<Rightarrow> cmember \<Rightarrow> bool" where
  "viable lval t args m \<longleftrightarrow>
     mf_params m = args \<and> ref_ok lval (q_ref (mf_quals m)) \<and>
     (is_const (strip_ref t) \<longrightarrow> q_const (mf_quals m))"

text \<open>
  The type of the call \<open>e.f(args)\<close> for an expression \<open>e\<close> of type \<open>t\<close>, an lvalue or an rvalue; None
  when it is ill-formed. Among the viable functions one for rvalues is preferred on an rvalue.
\<close>

definition call_type :: "cxx \<Rightarrow> bool \<Rightarrow> cty \<Rightarrow> mname \<Rightarrow> cty list \<Rightarrow> cty option" where
  "call_type G lval t f args =
     (case filter (viable lval t args) (lookup max_depth (classes G) f (decayed t)) of
        [] \<Rightarrow> None
      | m # ms \<Rightarrow>
          (case filter (\<lambda>m. q_ref (mf_quals m) = Rref) (m # ms) of
             r # _ \<Rightarrow> Some (mf_ret r)
           | [] \<Rightarrow> Some (mf_ret m)))"

section \<open>common.hpp and lock.hpp\<close>

text \<open>A fold over \<open>||\<close>; for no types at all it is false.\<close>

definition in_types :: "cty \<Rightarrow> cty list \<Rightarrow> bool" where
  "in_types t ts \<longleftrightarrow> list_ex (\<lambda>u. t = u) ts"

definition list_type :: "cxx \<Rightarrow> cty \<Rightarrow> bool" where
  "list_type G t \<longleftrightarrow> call_type G True t Next_fn [] = Some (T_ptr t)"

fun is_scalar :: "cty \<Rightarrow> bool" where
  "is_scalar T_bool = True"
| "is_scalar T_int = True"
| "is_scalar (T_ptr t) = True"
| "is_scalar (T_memfun c r as q) = True"
| "is_scalar (T_const t) = is_scalar t"
| "is_scalar _ = False"

definition pod_type :: "cxx \<Rightarrow> cty \<Rightarrow> bool" where
  "pod_type G t \<longleftrightarrow>
     is_scalar t \<or> (case classes G (strip_const t) of None \<Rightarrow> False | Some c \<Rightarrow> c_layout c \<and> c_trivial c)"

definition void_pod_type :: "cxx \<Rightarrow> cty \<Rightarrow> bool" where
  "void_pod_type G t \<longleftrightarrow> pod_type G t \<or> strip_const t = T_void"

definition all_same_type :: "cty \<Rightarrow> cty list \<Rightarrow> bool" where
  "all_same_type t ts \<longleftrightarrow> list_ex (\<lambda>u. t = u) ts"

definition all_void_type :: "cty list \<Rightarrow> bool" where
  "all_void_type ts \<longleftrightarrow> list_ex (\<lambda>t. strip_const t = T_void) ts"

definition all_noref_pod :: "cxx \<Rightarrow> cty list \<Rightarrow> bool" where
  "all_noref_pod G ts \<longleftrightarrow> list_ex (pod_type G) ts"

definition conventional_type :: "cty \<Rightarrow> bool" where
  "conventional_type t \<longleftrightarrow> strip_const t \<noteq> T_void \<and> \<not> is_reference t \<and> \<not> is_const t"

definition lockype :: "cxx \<Rightarrow> cty \<Rightarrow> bool" where
  "lockype G t \<longleftrightarrow>
     call_type G True t Lock_fn [] = Some T_void \<and> call_type G True t Unlock_fn [] = Some T_void"

section \<open>awaitable.hpp\<close>

definition awaiter :: "cxx \<Rightarrow> cty \<Rightarrow> bool" where
  "awaiter G t \<longleftrightarrow>
     call_type G True t Await_ready [] = Some T_bool \<and>
     (case call_type G True t Await_suspend [T_handle] of
        None \<Rightarrow> False | Some r \<Rightarrow> in_types r [T_void, T_bool, T_handle]) \<and>
     call_type G True t Await_resume [] \<noteq> None"

definition member_co_await_awaitable :: "cxx \<Rightarrow> cty \<Rightarrow> bool" where
  "member_co_await_awaitable G t \<longleftrightarrow>
     (case call_type G True t Op_co_await [] of None \<Rightarrow> False | Some a \<Rightarrow> awaiter G a)"

definition global_co_await_awaitable :: "cxx \<Rightarrow> cty \<Rightarrow> bool" where
  "global_co_await_awaitable G t \<longleftrightarrow>
     (case free_co_await G True t of None \<Rightarrow> False | Some a \<Rightarrow> awaiter G a)"

definition awaitable :: "cxx \<Rightarrow> cty \<Rightarrow> bool" where
  "awaitable G t \<longleftrightarrow>
     member_co_await_awaitable G t \<or> global_co_await_awaitable G t \<or> awaiter G t"

definition awaiter_void :: "cxx \<Rightarrow> cty \<Rightarrow> bool" where
  "awaiter_void G t \<longleftrightarrow> awaiter G t \<and> call_type G True t Await_resume [] = Some T_void"

definition member_co_await_awaitable_void :: "cxx \<Rightarrow> cty \<Rightarrow> bool" where
  "member_co_await_awaitable_void G t \<longleftrightarrow>
     (case call_type G True t Op_co_await [] of None \<Rightarrow> False | Some a \<Rightarrow> awaiter_void G a)"

definition global_co_await_awaitable_void :: "cxx \<Rightarrow> cty \<Rightarrow> bool" where
  "global_co_await_awaitable_void G t \<longleftrightarrow>
     (case free_co_await G True t of None \<Rightarrow> False | Some a \<Rightarrow> awaiter_void G a)"

definition awaitable_void :: "cxx \<Rightarrow> cty \<Rightarrow> bool" where
  "awaitable_void G t \<longleftrightarrow>
     member_co_await_awaitable_void G t \<or> global_co_await_awaitable_void G t \<or> awaiter_void G t"

definition list_awaiter :: "cxx \<Rightarrow> cty \<Rightarrow> bool" where
  "list_awaiter G t \<longleftrightarrow> awaiter G t \<and> list_type G t"

text \<open>
  \<open>get_awaiter(awaitable&& value)\<close>: the template parameter is an lvalue reference when the
  argument is an lvalue, and the forwarded value is an rvalue otherwise. The result is returned by
  value; None when the template does not compile.
\<close>

definition get_awaiter :: "cxx \<Rightarrow> cty \<Rightarrow> cty option" where
  "get_awaiter G t =
     (if \<not> awaitable G t then None
      else if member_co_await_awaitable G t then
        map_option decayed (call_type G (is_lref t) t Op_co_await [])
      else if global_co_await_awaitable G t then
        map_option decayed (free_co_await G (is_lref t) t)
      else Some (decayed t))"

text \<open>\<open>awaitable_traits\<close>: the awaiter of \<open>declval<awaitable>()\<close> and what awaiting it yields.\<close>

definition awaitable_traits :: "cxx \<Rightarrow> cty \<Rightarrow> (cty \<times> cty) option" where
  "awaitable_traits G t =
     (case get_awaiter G t of
        None \<Rightarrow> None
      | Some a \<Rightarrow> map_option (\<lambda>r. (a, r)) (call_type G False a Await_resume []))"

section \<open>promise.hpp and range_of.hpp\<close>

definition convertible_to_handle :: "cty \<Rightarrow> bool" where
  "convertible_to_handle t \<longleftrightarrow> decayed t = T_handle"

definition call_meets :: "cxx \<Rightarrow> cty \<Rightarrow> mname \<Rightarrow> (cty \<Rightarrow> bool) \<Rightarrow> bool" where
  "call_meets G t f c \<longleftrightarrow> (case call_type G True t f [] of None \<Rightarrow> False | Some r \<Rightarrow> c r)"

definition promise_concept :: "cxx \<Rightarrow> cty \<Rightarrow> cty \<Rightarrow> bool" where
  "promise_concept G t r \<longleftrightarrow>
     call_meets G t Get_return_object convertible_to_handle \<and>
     call_meets G t Initial_suspend (awaiter G) \<and>
     call_meets G t Final_suspend (awaiter G) \<and>
     call_meets G t Yield_value (awaitable G) \<and>
     (call_type G True t Return_void [] = Some T_void \<or>
      call_type G True t Return_value [r] = Some T_void \<or>
      call_type G True t Yield_value [r] \<noteq> None)"

text \<open>
  The element type of a range; the ranges of the model are the vectors and arrays, whose elements
  are never references.
\<close>

fun range_value :: "cty \<Rightarrow> cty option" where
  "range_value (T_class n ts) =
     (if n = Std_vector \<or> n = Std_array then
        (case ts of t # _ \<Rightarrow> if is_reference t then None else Some t | [] \<Rightarrow> None)
      else None)"
| "range_value _ = None"

definition range_of :: "cty \<Rightarrow> cty \<Rightarrow> bool" where
  "range_of t v \<longleftrightarrow> range_value (decayed t) = Some v"

definition sized_range_of :: "cty \<Rightarrow> cty \<Rightarrow> bool" where
  "sized_range_of t v \<longleftrightarrow> range_value (decayed t) = Some v"

section \<open>function_traits.hpp\<close>

text \<open>
  The specialisations: a function type, a pointer to it, \<open>std::function\<close> of it, and a pointer to a
  member function with none, one or both of const and volatile. None of them covers a function type
  that is noexcept or has a reference qualifier. The result is the return type and the arguments.
\<close>

fun direct_traits :: "cty \<Rightarrow> (cty \<times> cty list) option" where
  "direct_traits (T_fun r as nx) = (if nx then None else Some (r, as))"
| "direct_traits (T_ptr (T_fun r as nx)) = (if nx then None else Some (r, as))"
| "direct_traits (T_class n ts) =
     (if n = Std_function then (case ts of [T_fun r as nx] \<Rightarrow> if nx then None else Some (r, as) | _ \<Rightarrow> None)
      else None)"
| "direct_traits (T_memfun c r as q) =
     (if q_noexcept q \<or> q_ref q \<noteq> No_ref then None else Some (r, as))"
| "direct_traits _ = None"

text \<open>The primary template: the type of \<open>&Callable::operator()\<close>, which must not be overloaded.\<close>

definition call_operator :: "cxx \<Rightarrow> cty \<Rightarrow> cty option" where
  "call_operator G t =
     (case lookup max_depth (classes G) Op_call t of
        [m] \<Rightarrow> Some (T_memfun t (mf_ret m) (mf_params m) (mf_quals m))
      | _ \<Rightarrow> None)"

definition function_traits :: "cxx \<Rightarrow> cty \<Rightarrow> (cty \<times> cty list) option" where
  "function_traits G t =
     (case direct_traits t of
        Some x \<Rightarrow> Some x
      | None \<Rightarrow> (case call_operator G t of None \<Rightarrow> None | Some p \<Rightarrow> direct_traits p))"

definition traits_arity :: "cxx \<Rightarrow> cty \<Rightarrow> nat option" where
  "traits_arity G t = map_option (\<lambda>(r, as). length as) (function_traits G t)"

text \<open>\<open>args<I>\<close>, with its static assertion.\<close>

definition traits_arg :: "cxx \<Rightarrow> cty \<Rightarrow> nat \<Rightarrow> cty option" where
  "traits_arg G t i =
     (case function_traits G t of
        None \<Rightarrow> None
      | Some (r, as) \<Rightarrow> if i < length as then Some (as ! i) else None)"

definition traits_tuple :: "cxx \<Rightarrow> cty \<Rightarrow> cty list option" where
  "traits_tuple G t = map_option (\<lambda>(r, as). map decayed as) (function_traits G t)"

text \<open>\<open>to_function\<close> and \<open>to_function_pointer\<close>: the types they convert to.\<close>

definition to_function_type :: "cxx \<Rightarrow> cty \<Rightarrow> cty option" where
  "to_function_type G t =
     map_option (\<lambda>(r, as). T_class Std_function [T_fun r as False]) (function_traits G t)"

definition to_function_pointer_type :: "cxx \<Rightarrow> cty \<Rightarrow> cty option" where
  "to_function_pointer_type G t = map_option (\<lambda>(r, as). T_ptr (T_fun r as False)) (function_traits G t)"

section \<open>The constraints of parallel.hpp\<close>

definition parallel_tasks_void_type :: "cxx \<Rightarrow> cty \<Rightarrow> bool" where
  "parallel_tasks_void_type G t \<longleftrightarrow>
     (case range_value (decayed t) of None \<Rightarrow> False | Some v \<Rightarrow> awaitable_void G v)"

definition parallel_tasks_novoid_type :: "cxx \<Rightarrow> cty \<Rightarrow> bool" where
  "parallel_tasks_novoid_type G t \<longleftrightarrow>
     (case range_value (decayed t) of None \<Rightarrow> False | Some v \<Rightarrow> awaitable G v)"

definition reduce_operator_input :: "cty \<Rightarrow> bool" where
  "reduce_operator_input t \<longleftrightarrow> range_value (decayed t) \<noteq> None"

text \<open>\<open>make_parallel_reduce_func\<close>: the type it returns; the function must have one argument.\<close>

definition reduce_func_type :: "cxx \<Rightarrow> cty \<Rightarrow> cty option" where
  "reduce_func_type G t =
     (case function_traits G t of
        Some (r, [a]) \<Rightarrow> Some (T_class Std_function [T_fun r [a] False])
      | _ \<Rightarrow> None)"

text \<open>The overload of \<open>parallel_func\<close> that reduces: whether its constraints are satisfied.\<close>

definition parallel_func_accepts :: "cxx \<Rightarrow> cty \<Rightarrow> cty \<Rightarrow> bool" where
  "parallel_func_accepts G tasks input \<longleftrightarrow>
     parallel_tasks_novoid_type G tasks \<and> reduce_operator_input input \<and>
     (case range_value (decayed tasks) of
        None \<Rightarrow> False
      | Some v \<Rightarrow>
          (case awaitable_traits G v of
             None \<Rightarrow> False
           | Some (a, r) \<Rightarrow> range_value (decayed input) = Some r))"

section \<open>The classes of the library\<close>

text \<open>Each with the public members that the concepts ask for, in the order of the declarations.\<close>

definition suspend_always_decl :: cclass where
  "suspend_always_decl = empty_cls []
     [meth Await_ready [] T_bool, meth Await_suspend [T_handle] T_void, meth Await_resume [] T_void]"

definition event_awaiter_base_decl :: cclass where
  "event_awaiter_base_decl = cls []
     [meth Next_fn [] (T_ptr (T_class Event_awaiter_base [])),
      meth Await_ready [] T_bool, meth Await_suspend [T_handle] T_bool, meth Await_resume [] T_void]"

text \<open>
  \<open>result()\<close> of the container: of the specialisation for plain old data, and the overloads of the
  general template on an lvalue and on an rvalue; a promise of a void coroutine has its own.
\<close>

definition container_result_type :: "(cty \<Rightarrow> bool) \<Rightarrow> bool \<Rightarrow> cty \<Rightarrow> cty" where
  "container_result_type pod lval t =
     (if t = T_void then T_void
      else if pod t then t
      else if is_reference t then t
      else if lval then T_lref (T_const t) else T_rref t)"

definition event_awaiter_decl :: "(cty \<Rightarrow> bool) \<Rightarrow> cty \<Rightarrow> cclass" where
  "event_awaiter_decl pod t = cls [T_class Event_awaiter_base []]
     [meth Await_resume [] (container_result_type pod True t)]"

definition event_void_awaiter_decl :: cclass where
  "event_void_awaiter_decl = cls [T_class Event_awaiter_base []] []"

definition mutex_awaiter_decl :: cclass where
  "mutex_awaiter_decl = cls []
     [meth Await_ready [] T_bool, meth Await_suspend [T_handle] T_bool, meth Await_resume [] T_void]"

definition mutex_guard_awaiter_decl :: cclass where
  "mutex_guard_awaiter_decl = cls [T_class Mutex_awaiter_class []]
     [meth Await_resume [] (T_class Lock_guard_class [T_class Mutex_class []])]"

definition mutex_decl :: cclass where
  "mutex_decl = cls []
     [meth Lock_fn [] (T_class Mutex_awaiter_class []), meth Unlock_fn [] T_void]"

definition spinlock_decl :: cclass where
  "spinlock_decl = cls [] [meth Lock_fn [] T_void, meth Unlock_fn [] T_void]"

definition cv_awaiter_decl :: cclass where
  "cv_awaiter_decl = cls [T_class Mutex_awaiter_class []]
     [meth Await_suspend [T_handle] T_bool, meth Await_resume [] T_void]"

definition wg_awaiter_decl :: cclass where
  "wg_awaiter_decl = cls []
     [meth Await_ready [] T_bool, meth Await_suspend [T_handle] T_bool, meth Await_resume [] T_void]"

definition base_io_awaiter_decl :: cclass where
  "base_io_awaiter_decl = cls []
     [meth Await_ready [] T_bool, meth Await_suspend [T_handle] T_void, meth Await_resume [] T_int]"

text \<open>
  The I/O awaiters add a constructor and a static callback only, which Io_Awaiter models; the members
  the concepts ask for are those of their base.
\<close>

definition noop_awaiter_decl :: cclass where
  "noop_awaiter_decl = cls [T_class Io_base_awaiter []] []"

definition stdin_awaiter_decl :: cclass where
  "stdin_awaiter_decl = cls [T_class Io_base_awaiter []] []"

definition accept_awaiter_decl :: cclass where
  "accept_awaiter_decl = cls [T_class Io_base_awaiter []] []"

definition read_awaiter_decl :: cclass where
  "read_awaiter_decl = cls [T_class Io_base_awaiter []] []"

definition write_awaiter_decl :: cclass where
  "write_awaiter_decl = cls [T_class Io_base_awaiter []] []"

definition close_awaiter_decl :: cclass where
  "close_awaiter_decl = cls [T_class Io_base_awaiter []] []"

definition connect_awaiter_decl :: cclass where
  "connect_awaiter_decl = cls [T_class Io_base_awaiter []] []"

definition timer_awaiter_decl :: cclass where
  "timer_awaiter_decl = cls [T_class Io_base_awaiter []] []"

definition timer_decl :: cclass where
  "timer_decl = cls [] [meth Op_co_await [] (T_class Timer_awaiter_class [])]"

definition task_awaitable_base_decl :: cclass where
  "task_awaitable_base_decl = cls []
     [meth_q Await_ready [] T_bool True No_ref, meth Await_suspend [T_handle] T_handle]"

definition task_awaitable_lvalue_decl :: "(cty \<Rightarrow> bool) \<Rightarrow> cty \<Rightarrow> cclass" where
  "task_awaitable_lvalue_decl pod t = cls [T_class Task_awaitable_base [t]]
     [meth Await_resume [] (container_result_type pod True t)]"

definition task_awaitable_rvalue_decl :: "(cty \<Rightarrow> bool) \<Rightarrow> cty \<Rightarrow> cclass" where
  "task_awaitable_rvalue_decl pod t = cls [T_class Task_awaitable_base [t]]
     [meth Await_resume [] (container_result_type pod False t)]"

definition task_decl :: "cty \<Rightarrow> cclass" where
  "task_decl t = cls []
     [meth_q Op_co_await [] (T_class Task_awaitable_lvalue [t]) True Const_lref,
      meth_q Op_co_await [] (T_class Task_awaitable_rvalue [t]) True Rref]"

text \<open>\<open>await_suspend\<close> of \<open>final_awaiter\<close> is a template over the promise; a handle of any fits.\<close>

definition final_awaiter_decl :: cclass where
  "final_awaiter_decl = empty_cls []
     [meth_q Await_ready [] T_bool True No_ref, meth Await_suspend [T_handle] T_handle,
      meth_q Await_resume [] T_void True No_ref]"

definition promise_base_decl :: cclass where
  "promise_base_decl = cls []
     [meth Initial_suspend [] (T_class Std_suspend_always []),
      meth Final_suspend [] (T_class Final_awaiter_class [])]"

definition container_decl :: "cty \<Rightarrow> cclass" where
  "container_decl t = cls [] [meth Return_value [t] T_void]"

definition promise_decl :: "cty \<Rightarrow> cclass" where
  "promise_decl t = cls [T_class Promise_base_class [], T_class Container_class [t]]
     [meth Get_return_object [] (T_class Task_class [t])]"

definition promise_void_decl :: cclass where
  "promise_void_decl = cls [T_class Promise_base_class []]
     [meth Get_return_object [] (T_class Task_class [T_void]), meth Return_void [] T_void]"

text \<open>\<open>awaiter<T>\<close> of \<open>when_all\<close> and its two specialisations.\<close>

definition when_all_awaiter_decl :: "cty \<Rightarrow> cclass" where
  "when_all_awaiter_decl t = empty_cls [T_class Std_suspend_always []]
     (if t = T_void then []
      else if t = T_class Std_vector [T_int] then [meth Await_resume [] (T_class Std_vector [T_int])]
      else [meth Await_resume [] (T_class Std_array [t])])"

text \<open>The class a name stands for; \<open>pod\<close> says which types are plain old data.\<close>

fun lib_class :: "(cty \<Rightarrow> bool) \<Rightarrow> class_name \<Rightarrow> cty list \<Rightarrow> cclass option" where
  "lib_class pod Std_suspend_always [] = Some suspend_always_decl"
| "lib_class pod Event_awaiter_base [] = Some event_awaiter_base_decl"
| "lib_class pod Event_awaiter [t] =
     Some (if t = T_void then event_void_awaiter_decl else event_awaiter_decl pod t)"
| "lib_class pod Mutex_class [] = Some mutex_decl"
| "lib_class pod Mutex_awaiter_class [] = Some mutex_awaiter_decl"
| "lib_class pod Mutex_guard_awaiter [] = Some mutex_guard_awaiter_decl"
| "lib_class pod Cv_awaiter_class [] = Some cv_awaiter_decl"
| "lib_class pod Wg_awaiter_class [] = Some wg_awaiter_decl"
| "lib_class pod Spinlock_class [] = Some spinlock_decl"
| "lib_class pod Io_base_awaiter [] = Some base_io_awaiter_decl"
| "lib_class pod Io_noop_awaiter [] = Some noop_awaiter_decl"
| "lib_class pod Io_stdin_awaiter [] = Some stdin_awaiter_decl"
| "lib_class pod Io_accept_awaiter [] = Some accept_awaiter_decl"
| "lib_class pod Io_read_awaiter [] = Some read_awaiter_decl"
| "lib_class pod Io_write_awaiter [] = Some write_awaiter_decl"
| "lib_class pod Io_close_awaiter [] = Some close_awaiter_decl"
| "lib_class pod Io_connect_awaiter [] = Some connect_awaiter_decl"
| "lib_class pod Timer_class [] = Some timer_decl"
| "lib_class pod Timer_awaiter_class [] = Some timer_awaiter_decl"
| "lib_class pod Task_class [t] = Some (task_decl t)"
| "lib_class pod Task_awaitable_base [t] = Some task_awaitable_base_decl"
| "lib_class pod Task_awaitable_lvalue [t] = Some (task_awaitable_lvalue_decl pod t)"
| "lib_class pod Task_awaitable_rvalue [t] = Some (task_awaitable_rvalue_decl pod t)"
| "lib_class pod Final_awaiter_class [] = Some final_awaiter_decl"
| "lib_class pod Promise_base_class [] = Some promise_base_decl"
| "lib_class pod Container_class [t] = Some (container_decl t)"
| "lib_class pod Promise_class [t] = Some (if t = T_void then promise_void_decl else promise_decl t)"
| "lib_class pod When_all_awaiter [t] = Some (when_all_awaiter_decl t)"
| "lib_class pod n ts = None"

text \<open>
  The library together with the classes \<open>us\<close> of its user and of the standard library. Nobody
  defines a free \<open>operator co_await\<close>.
\<close>

definition pod_in :: "(cty \<Rightarrow> cclass option) \<Rightarrow> cty \<Rightarrow> bool" where
  "pod_in us t \<longleftrightarrow>
     is_scalar t \<or>
     (case strip_const t of
        T_class n ts \<Rightarrow>
          (case lib_class (\<lambda>_. False) n ts of
             Some c \<Rightarrow> c_layout c \<and> c_trivial c
           | None \<Rightarrow> (case us (T_class n ts) of Some c \<Rightarrow> c_layout c \<and> c_trivial c | None \<Rightarrow> False))
      | _ \<Rightarrow> False)"

definition lib :: "(cty \<Rightarrow> cclass option) \<Rightarrow> cxx" where
  "lib us = \<lparr>
     classes = (\<lambda>t. case t of
         T_class n ts \<Rightarrow> (case lib_class (pod_in us) n ts of Some c \<Rightarrow> Some c | None \<Rightarrow> us (T_class n ts))
       | _ \<Rightarrow> None),
     free_co_await = (\<lambda>lval t. None)\<rparr>"

lemmas decl_defs =
  suspend_always_decl_def event_awaiter_base_decl_def event_awaiter_decl_def event_void_awaiter_decl_def
  mutex_awaiter_decl_def mutex_guard_awaiter_decl_def mutex_decl_def spinlock_decl_def
  cv_awaiter_decl_def wg_awaiter_decl_def base_io_awaiter_decl_def
  noop_awaiter_decl_def stdin_awaiter_decl_def accept_awaiter_decl_def read_awaiter_decl_def
  write_awaiter_decl_def close_awaiter_decl_def connect_awaiter_decl_def
  timer_awaiter_decl_def timer_decl_def task_awaitable_base_decl_def task_awaitable_lvalue_decl_def
  task_awaitable_rvalue_decl_def task_decl_def final_awaiter_decl_def promise_base_decl_def
  container_decl_def promise_decl_def promise_void_decl_def when_all_awaiter_decl_def
  cls_def empty_cls_def meth_def meth_q_def plain_quals_def

lemmas concept_defs =
  awaitable_traits_def get_awaiter_def awaitable_def member_co_await_awaitable_def
  global_co_await_awaitable_def awaiter_def call_type_def viable_def decayed_def in_types_def
  max_depth_def

lemma lib_simps [simp]:
  "classes (lib us) (T_class n ts) =
     (case lib_class (pod_in us) n ts of Some c \<Rightarrow> Some c | None \<Rightarrow> us (T_class n ts))"
  "free_co_await (lib us) lval t = None"
  by (simp_all add: lib_def)

lemma lookup_member:
  assumes "P t = Some c" and "filter (\<lambda>m. mf_name m = f) (c_members c) = ms" and "ms \<noteq> []"
  shows "lookup (Suc n) P f t = ms"
  using assms by simp

section \<open>What the library's types are\<close>

text \<open>The awaiters that synchronisation and I/O give, and what awaiting each yields.\<close>

definition fixed_awaiters :: "(cty \<times> cty) list" where
  "fixed_awaiters =
     [(T_class Event_awaiter [T_void], T_void), (T_class Mutex_awaiter_class [], T_void),
      (T_class Mutex_guard_awaiter [], T_class Lock_guard_class [T_class Mutex_class []]),
      (T_class Cv_awaiter_class [], T_void), (T_class Wg_awaiter_class [], T_void),
      (T_class Io_noop_awaiter [], T_int), (T_class Io_stdin_awaiter [], T_int),
      (T_class Io_accept_awaiter [], T_int), (T_class Io_read_awaiter [], T_int),
      (T_class Io_write_awaiter [], T_int), (T_class Io_close_awaiter [], T_int),
      (T_class Io_connect_awaiter [], T_int), (T_class Timer_awaiter_class [], T_int),
      (T_class When_all_awaiter [T_void], T_void),
      (T_class When_all_awaiter [T_class Std_vector [T_int]], T_class Std_vector [T_int])]"

lemma fixed_traits:
  "map (\<lambda>(t, r). awaitable_traits (lib us) t) fixed_awaiters = map Some fixed_awaiters"
  by (simp add: fixed_awaiters_def concept_defs decl_defs numeral_eq_Suc)

text \<open>The container of the library treats a type as plain old data exactly when the concept holds.\<close>

lemma pod_in_concept: "pod_type (lib us) t = pod_in us t"
proof -
  have l: "map_option (\<lambda>c. c_layout c \<and> c_trivial c) (lib_class p n ts) =
      map_option (\<lambda>c. c_layout c \<and> c_trivial c) (lib_class (\<lambda>_. False) n ts)" for p n ts
    by (cases "(p, n, ts)" rule: lib_class.cases) (simp_all add: decl_defs)
  have o: "classes (lib us) t = None" if "\<And>n ts. t \<noteq> T_class n ts" for t
    using that by (auto simp: lib_def split: cty.splits)
  show ?thesis
  proof (cases "\<exists>n ts. strip_const t = T_class n ts")
    case True
    then obtain n ts where "strip_const t = T_class n ts" by blast
    then show ?thesis using l [of "pod_in us" n ts]
      by (cases "lib_class (pod_in us) n ts"; cases "lib_class (\<lambda>_. False) n ts")
        (simp_all add: pod_type_def pod_in_def)
  next
    case False
    then have "classes (lib us) (strip_const t) = None" by (intro o) blast
    then show ?thesis using False by (auto simp: pod_type_def pod_in_def split: cty.splits)
  qed
qed

lemma task_traits:
  "awaitable_traits (lib us) (T_class Task_class [t]) =
     Some (T_class Task_awaitable_rvalue [t], container_result_type (pod_in us) False t)"
  "awaitable_traits (lib us) (T_lref (T_class Task_class [t])) =
     Some (T_class Task_awaitable_lvalue [t], container_result_type (pod_in us) True t)"
  by (simp_all add: concept_defs decl_defs numeral_eq_Suc)

lemma event_traits:
  "awaitable_traits (lib us) (T_class Event_awaiter [t]) =
     Some (T_class Event_awaiter [t], container_result_type (pod_in us) True t)"
  by (simp add: concept_defs decl_defs numeral_eq_Suc container_result_type_def)


text \<open>
  C40. The reducing \<open>parallel_func\<close> takes tasks of plain old data only: what awaiting another task
  yields is an rvalue reference, which no range has as its elements, so there is no reduce function
  that its constraint accepts.
\<close>

theorem parallel_func_plain_data_only:
  assumes "conventional_type t"
  shows "parallel_func_accepts (lib us) (T_class Std_vector [T_class Task_class [t]]) input \<longleftrightarrow>
    pod_type (lib us) t \<and> range_value (decayed input) = Some t"
proof -
  have r: "range_value u = Some v \<Longrightarrow> \<not> is_reference v" for u v
    by (cases u) (auto split: if_splits list.splits)
  have v: "t \<noteq> T_void" "\<not> is_reference t" using assms by (auto simp: conventional_type_def)
  have a: "awaitable (lib us) (T_class Task_class [t])"
    by (simp add: concept_defs decl_defs numeral_eq_Suc)
  show ?thesis
    using r [of "decayed input"] v a
    by (auto simp: parallel_func_accepts_def parallel_tasks_novoid_type_def reduce_operator_input_def
        decayed_def task_traits container_result_type_def pod_in_concept)
qed

definition no_classes :: "cty \<Rightarrow> cclass option" where
  "no_classes t = None"

theorem parallel_func_plain_data_only_witness:
  "parallel_func_accepts (lib no_classes) (T_class Std_vector [T_class Task_class [T_int]])
     (T_class Std_vector [T_int]) \<and>
   \<not> parallel_func_accepts (lib no_classes) (T_class Std_vector [T_class Task_class [T_class (User 0) []]])
     (T_class Std_vector [T_class (User 0) []])"
proof -
  have "conventional_type T_int" "conventional_type (T_class (User 0) [])"
    by (simp_all add: conventional_type_def)
  then show ?thesis
    by (simp add: parallel_func_plain_data_only) (simp add: pod_type_def no_classes_def decayed_def)
qed

text \<open>The spinlock is a lock in the sense of the concept, the mutex is not: its \<open>lock\<close> must be awaited.\<close>

lemma library_locks:
  "lockype (lib us) (T_class Spinlock_class []) \<and> \<not> lockype (lib us) (T_class Mutex_class [])"
  by (simp add: lockype_def call_type_def viable_def decayed_def max_depth_def decl_defs numeral_eq_Suc)

text \<open>No promise of the library meets the concept of a promise, which asks for \<open>yield_value\<close>.\<close>

lemma library_promises: "\<not> promise_concept (lib us) (T_class Promise_class [t]) r"
  by (simp add: promise_concept_def call_meets_def call_type_def viable_def decayed_def max_depth_def
      decl_defs numeral_eq_Suc convertible_to_handle_def)

text \<open>What is awaitable without a result is awaitable.\<close>

lemma awaitable_void_awaitable: "awaitable_void G t \<Longrightarrow> awaitable G t"
  by (auto simp: awaitable_void_def awaitable_def member_co_await_awaitable_void_def
      member_co_await_awaitable_def global_co_await_awaitable_void_def global_co_await_awaitable_def
      awaiter_void_def split: option.splits)

text \<open>
  A type whose \<open>operator co_await\<close> needs an lvalue meets the concept, which asks about an lvalue,
  but has no traits, which are about an rvalue.
\<close>

lemma lvalue_only_awaitable:
  assumes "classes G t = Some (cls [] [meth_q Op_co_await [] a False Lref])" and "awaiter G a"
    and "decayed t = t" "\<not> is_reference t" "\<not> is_const t"
  shows "awaitable G t \<and> awaitable_traits G t = None"
proof -
  have "\<not> is_lref t" "strip_ref t = t" using assms(4) by (cases t; simp)+
  then show ?thesis using assms
    by (simp add: awaitable_def member_co_await_awaitable_def awaitable_traits_def get_awaiter_def
        call_type_def viable_def max_depth_def numeral_eq_Suc cls_def meth_q_def)
qed

text \<open>
  The concepts that speak of all types ask for one: two types of which one is void are
  "all void". For no types at all they are false.
\<close>

lemma all_means_any:
  "all_void_type [T_int, T_void] \<and> all_same_type T_int [T_void, T_int] \<and>
   all_noref_pod G [T_void, T_int] \<and> \<not> all_void_type [] \<and> \<not> all_same_type t [] \<and> \<not> all_noref_pod G []"
  by (simp add: all_void_type_def all_same_type_def all_noref_pod_def pod_type_def)

text \<open>
  \<open>function_traits\<close> of a function object with one call operator: its return type and arguments,
  unless it is noexcept, which the specialisations do not cover.
\<close>

lemma function_object_traits:
  assumes "classes G (T_class (User n) ts) =
    Some (cls [] [\<lparr>mf_name = Op_call, mf_params = as, mf_ret = r, mf_quals = Quals c v nx No_ref\<rparr>])"
  shows "function_traits G (T_class (User n) ts) = (if nx then None else Some (r, as)) \<and>
         traits_arity G (T_class (User n) ts) = (if nx then None else Some (length as)) \<and>
         (traits_arg G (T_class (User n) ts) i = (if nx \<or> length as \<le> i then None else Some (as ! i)))"
  using assms
  by (simp add: function_traits_def traits_arity_def traits_arg_def call_operator_def max_depth_def
      numeral_eq_Suc cls_def)

text \<open>Converting a function object to \<open>std::function\<close> keeps its traits.\<close>

lemma to_function_traits:
  "to_function_type G t = Some u \<Longrightarrow> function_traits G u = function_traits G t"
  by (auto simp: to_function_type_def function_traits_def split: option.splits)

end
