(* ===== verification/Marked_Buffer.thy ===== *)
theory Marked_Buffer
  imports Coro_Prelude
begin

text \<open>
  \<open>coro::detail::marked_buffer\<close> (include/coro/marked_buffer.hpp): a fixed array whose slots
  are lent out and taken back. The contract a client relies on is the locale
  \<open>lending_pool\<close>.
\<close>

section \<open>Items and the buffer\<close>

text \<open>An item carries its index and a pointer to the slot (here: which slot it points to).\<close>

record item =
  idx :: int
  ptr :: "nat option"

definition item_valid :: "item \<Rightarrow> bool" where
  "item_valid it \<longleftrightarrow> 0 \<le> idx it"

definition set_invalid :: "item \<Rightarrow> item" where
  "set_invalid it = it\<lparr>idx := -1, ptr := None\<rparr>"

record 'a marked_buffer =
  buf_data :: "'a list"
  que :: "nat list"

definition buffer_init :: "'a marked_buffer \<Rightarrow> 'a marked_buffer" where
  "buffer_init b = b\<lparr>que := []\<rparr>"

text \<open>The constructor: the array is uninitialised (\<open>raw\<close>), the queue is empty.\<close>

definition new_buffer :: "'a list \<Rightarrow> 'a marked_buffer" where
  "new_buffer raw = buffer_init \<lparr>buf_data = raw, que = []\<rparr>"

text \<open>
  \<open>set_data\<close> pushes every index, then copies the values; it reads \<open>values[i]\<close> for every
  index of the array.
\<close>

definition set_data :: "'a list \<Rightarrow> 'a marked_buffer \<Rightarrow> 'a marked_buffer res" where
  "set_data values b =
     (if length values < length (buf_data b) then Inl Out_of_range
      else Inr (b\<lparr>que := que b @ [0..<length (buf_data b)],
                  buf_data := take (length (buf_data b)) values\<rparr>))"

definition borrow :: "'a marked_buffer \<Rightarrow> item \<times> 'a marked_buffer" where
  "borrow b =
     (case que b of
        [] \<Rightarrow> (\<lparr>idx = -1, ptr = None\<rparr>, b)
      | i # is \<Rightarrow> (\<lparr>idx = int i, ptr = Some i\<rparr>, b\<lparr>que := is\<rparr>))"

definition return_back :: "item \<Rightarrow> 'a marked_buffer \<Rightarrow> 'a marked_buffer" where
  "return_back it b =
     (if \<not> item_valid it then b else b\<lparr>que := que b @ [nat (idx it)]\<rparr>)"

lemmas buffer_defs =
  item_valid_def set_invalid_def buffer_init_def new_buffer_def set_data_def borrow_def
  return_back_def

section \<open>The contract of a lending pool\<close>

text \<open>
  A client sees a pool that lends an index or answers that it has none, and takes an index
  back; \<open>free\<close> lists what it can still lend, in the order in which it will.
\<close>

locale lending_pool =
  fixes lend :: "'p \<Rightarrow> (nat \<times> 'p) option"
    and give :: "nat \<Rightarrow> 'p \<Rightarrow> 'p"
    and free :: "'p \<Rightarrow> nat list"
  assumes lend_none: "lend p = None \<longleftrightarrow> free p = []"
    and lend_some: "lend p = Some (i, p') \<Longrightarrow> free p = i # free p'"
    and free_give: "free (give i p) = free p @ [i]"
begin

text \<open>Nothing is lost and nothing is invented: lent and free indices together are constant.\<close>

lemma lend_conserves:
  "lend p = Some (i, p') \<Longrightarrow> mset (free p') + add_mset i lent = mset (free p) + lent"
  by (drule lend_some) simp

lemma give_conserves:
  "i \<in># lent \<Longrightarrow> mset (free (give i p)) + (lent - {#i#}) = mset (free p) + lent"
  by (simp add: free_give)

lemma lend_fresh:
  assumes "lend p = Some (i, p')" and "\<forall>x. count (mset (free p) + lent) x \<le> 1"
  shows "i \<notin># lent" and "\<forall>x. count (mset (free p') + add_mset i lent) x \<le> 1"
proof -
  have eq: "mset (free p') + add_mset i lent = mset (free p) + lent"
    by (rule lend_conserves [OF assms(1)])
  show "\<forall>x. count (mset (free p') + add_mset i lent) x \<le> 1"
    unfolding eq by (rule assms(2))
  then have "count (mset (free p') + add_mset i lent) i \<le> 1" by blast
  then show "i \<notin># lent" by (simp add: not_in_iff)
qed

end

definition lend_index :: "'a marked_buffer \<Rightarrow> (nat \<times> 'a marked_buffer) option" where
  "lend_index b = (case borrow b of (it, b') \<Rightarrow> if item_valid it then Some (nat (idx it), b') else None)"

definition give_index :: "nat \<Rightarrow> 'a marked_buffer \<Rightarrow> 'a marked_buffer" where
  "give_index i b = return_back \<lparr>idx = int i, ptr = None\<rparr> b"

interpretation pool: lending_pool lend_index give_index que
  by unfold_locales (auto simp: lend_index_def give_index_def buffer_defs split: list.splits)

section \<open>A session with the buffer\<close>

text \<open>
  A client borrows and returns the items it holds, each once. \<open>session\<close> runs a sequence of
  such calls and records the items held; returning position \<open>k\<close> of the held items that does
  not exist is no call at all.
\<close>

datatype call = Borrow | Return_back nat

fun session :: "call list \<Rightarrow> item list \<Rightarrow> 'a marked_buffer \<Rightarrow> item list \<times> 'a marked_buffer" where
  "session [] held b = (held, b)"
| "session (Borrow # cs) held b =
     (case borrow b of (it, b') \<Rightarrow> session cs (if item_valid it then held @ [it] else held) b')"
| "session (Return_back k # cs) held b =
     (if k < length held
      then session cs (take k held @ drop (Suc k) held) (return_back (held ! k) b)
      else session cs held b)"

definition held_indices :: "item list \<Rightarrow> nat list" where
  "held_indices held = map (\<lambda>it. nat (idx it)) held"

lemma mset_remove_nth: "k < length xs \<Longrightarrow> add_mset (xs ! k) (mset (take k xs @ drop (Suc k) xs)) = mset xs"
proof -
  assume "k < length xs"
  then have "xs = take k xs @ xs ! k # drop (Suc k) xs" by (rule id_take_nth_drop)
  then have "mset xs = mset (take k xs @ xs ! k # drop (Suc k) xs)" by (rule arg_cong)
  then show ?thesis by simp
qed

lemma session_conserves:
  assumes "list_all item_valid held" and "session cs held b = (held', b')"
  shows "mset (que b') + mset (held_indices held') = mset (que b) + mset (held_indices held)
         \<and> list_all item_valid held'"
  using assms
proof (induction cs held b arbitrary: held' b' rule: session.induct)
  case (1 held b)
  then show ?case by simp
next
  case (2 cs held b)
  then show ?case
    by (auto simp: borrow_def item_valid_def held_indices_def split: list.splits)
next
  case (3 k cs held b)
  show ?case
  proof (cases "k < length held")
    case True
    let ?rest = "take k held @ drop (Suc k) held"
    have v: "item_valid (held ! k)" using True "3.prems"(1) by (simp add: list_all_length)
    have r: "list_all item_valid ?rest"
      using "3.prems"(1) True by (auto simp: list_all_iff dest: in_set_takeD in_set_dropD)
    have m: "mset (held_indices held) = add_mset (nat (idx (held ! k))) (mset (held_indices ?rest))"
    proof -
      have "mset held = add_mset (held ! k) (mset ?rest)" using mset_remove_nth [OF True] by simp
      then have "image_mset (\<lambda>it. nat (idx it)) (mset held) =
          image_mset (\<lambda>it. nat (idx it)) (add_mset (held ! k) (mset ?rest))" by (rule arg_cong)
      then show ?thesis unfolding held_indices_def mset_map by simp
    qed
    have "session cs ?rest (return_back (held ! k) b) = (held', b')" using True "3.prems"(2) by simp
    from "3.IH"(1) [OF True r this] m v show ?thesis by (simp add: return_back_def)
  next
    case False
    then show ?thesis using "3.IH"(2) [OF False "3.prems"(1)] "3.prems"(2) by simp
  qed
qed

section \<open>Properties\<close>

text \<open>
  A buffer filled by \<open>set_data\<close> never lends a slot twice and never loses one: after any
  sequence of borrowing and returning, the indices held by clients and those in the queue are
  together exactly the indices of the array, each once; so every held index is in bounds.
\<close>

lemma marked_buffer_conserves:
  assumes "set_data values (new_buffer raw) = Inr b"
    and "session cs [] b = (held, b')"
  shows "mset (que b') + mset (held_indices held) = mset [0..<length raw] \<and>
         distinct (que b' @ held_indices held) \<and>
         list_all (\<lambda>it. 0 \<le> idx it \<and> nat (idx it) < length raw) held"
proof -
  have "que b = [0..<length raw]"
    using assms(1) by (auto simp: buffer_defs split: if_splits)
  then have total: "mset (que b') + mset (held_indices held) = mset [0..<length raw]"
    using session_conserves [of "[]" cs b held b'] assms(2) by (simp add: held_indices_def)
  then have "mset (que b' @ held_indices held) = mset [0..<length raw]" by simp
  then have same: "set (que b' @ held_indices held) = {0..<length raw}"
    and "distinct (que b' @ held_indices held)"
    by (metis set_mset_mset set_upt, metis distinct_upt mset_eq_imp_distinct_iff)
  have "list_all item_valid held"
    using session_conserves [of "[]" cs b held b'] assms(2) by simp
  with same have "list_all (\<lambda>it. 0 \<le> idx it \<and> nat (idx it) < length raw) held"
    by (auto simp: held_indices_def list_all_iff item_valid_def)
  with total \<open>distinct (que b' @ held_indices held)\<close> show ?thesis by blast
qed

definition demo_buffer :: "nat marked_buffer" where
  "demo_buffer = \<lparr>buf_data = [7, 8], que = [0, 1]\<rparr>"

lemma marked_buffer_conserves_witness:
  "set_data [7, 8] (new_buffer [0, 0 :: nat]) = Inr demo_buffer \<and>
   (case session [Borrow, Borrow, Return_back 0] [] demo_buffer of
      (held, b') \<Rightarrow> distinct (que b' @ held_indices held))"
proof -
  have s: "set_data [7, 8] (new_buffer [0, 0 :: nat]) = Inr demo_buffer"
    by (simp add: buffer_defs demo_buffer_def upt_rec)
  obtain held b' where h: "session [Borrow, Borrow, Return_back 0] [] demo_buffer = (held, b')"
    by fastforce
  from marked_buffer_conserves [OF s h] s h show ?thesis by simp
qed

text \<open>
  Giving back the same item twice breaks the pool: the index is queued twice and the next
  two borrowers get the same slot. The caller must invalidate its copy, as
  \<open>fixed_fds::return_back\<close> does.
\<close>

lemma double_return_lends_twice:
  assumes "item_valid it" and "que b = []"
  shows "idx (fst (borrow (return_back it (return_back it b)))) = idx it \<and>
         idx (fst (borrow (snd (borrow (return_back it (return_back it b)))))) = idx it \<and>
         return_back (set_invalid it) b = b"
  using assms by (auto simp: buffer_defs)

lemma double_return_lends_twice_witness:
  "idx (fst (borrow (return_back \<lparr>idx = 1, ptr = Some 1\<rparr>
     (return_back \<lparr>idx = 1, ptr = Some 1\<rparr> (demo_buffer\<lparr>que := []\<rparr>))))) = 1"
  using double_return_lends_twice [of "\<lparr>idx = 1, ptr = Some 1\<rparr>" "demo_buffer\<lparr>que := []\<rparr>"]
  by (simp add: item_valid_def)

end
