(* ===== verification/Uring.thy ===== *)
theory Uring
  imports Marked_Buffer
begin

unbundle bit_operations_syntax

text \<open>
  \<open>coro::uring::uring_proxy\<close> (include/coro/uring_proxy.hpp) and \<open>fixed_fds\<close>
  (include/coro/io/base_io_type.hpp). liburing and the kernel are not part of the repository:
  every call that changes their state is recorded in the history \<open>kcalls\<close>, in program order,
  and every value they return is an argument of the operation.
\<close>

section \<open>Calls into liburing and the kernel\<close>

text \<open>
  What an entry of the submission queue is prepared for, with the arguments of the
  \<open>io_uring_prep_\<close> call in the order and at the width of its prototype. A time span or a
  socket address that is passed by pointer is recorded by its value.
\<close>

datatype sqe_op =
    Prep_nop
  | Prep_read "32 word" addr "32 word" u64
  | Prep_accept "32 word" addr "32 word"
  | Prep_recv "32 word" addr u64 "32 word"
  | Prep_send "32 word" addr u64 "32 word"
  | Prep_close "32 word"
  | Prep_connect "32 word" "16 word \<times> 16 word \<times> 32 word" "32 word"
  | Prep_timeout "u64 \<times> u64" "32 word" "32 word"

datatype kcall =
    Queue_init nat
  | Register_eventfd int
  | Register_files "int list"
  | Register_files_update "int list"
  | Sqe_set_flags "32 word"
  | Sqe_prep sqe_op
  | Sqe_set_data addr
  | Uring_submit
  | Cqe_seen addr
  | Cq_advance nat
  | Eventfd_write u64
  | Close_fd int
  | Queue_exit

definition kEntryLength :: nat where
  "kEntryLength = 10240"

definition kEnableFixfd :: bool where
  "kEnableFixfd = False"

definition kFixFdArraySize :: nat where
  "kFixFdArraySize = 8"

definition IOSQE_FIXED_FILE :: "32 word" where
  "IOSQE_FIXED_FILE = 1"

record uring_proxy =
  m_efd :: int
  m_null_fds :: "int list"
  m_fds :: "int marked_buffer"
  kcalls :: "kcall list"

definition kcall :: "kcall \<Rightarrow> uring_proxy \<Rightarrow> uring_proxy" where
  "kcall c p = p\<lparr>kcalls := kcalls p @ [c]\<rparr>"

section \<open>Construction, init, deinit\<close>

text \<open>The constructor; \<open>efd\<close> is the answer of \<open>eventfd(0, 0)\<close>, \<open>raw\<close> the uninitialised array.\<close>

definition new_uring_proxy :: "int \<Rightarrow> int list \<Rightarrow> uring_proxy res" where
  "new_uring_proxy efd raw =
     (if efd < 0 then Inl Exit_failure
      else Inr \<lparr>m_efd = efd, m_null_fds = [], m_fds = new_buffer raw, kcalls = []\<rparr>)"

text \<open>
  \<open>init\<close>: the answers are those of the queue set-up, of the eventfd registration, of the
  calls of \<open>get_null_fd\<close> and of the file registration; \<open>fixfd\<close> is the constant
  \<open>kEnableFixfd\<close> of the configuration.
\<close>

record init_answers =
  res_queue :: int
  res_eventfd :: int
  null_fds :: "int list"
  res_files :: int

definition uring_init_fixfd :: "init_answers \<Rightarrow> uring_proxy \<Rightarrow> uring_proxy res" where
  "uring_init_fixfd ans p =
     (let fds = take kFixFdArraySize (null_fds ans);
          p1 = p\<lparr>m_fds := buffer_init (m_fds p), m_null_fds := fds\<rparr> in
      if \<not> list_all (\<lambda>fd. 0 < fd) fds then Inl Exit_failure
      else bindE (set_data fds (m_fds p1)) (\<lambda>b.
        let p2 = kcall (Register_files (buf_data b)) (p1\<lparr>m_fds := b\<rparr>) in
        if res_files ans \<noteq> 0 then Inl Exit_failure else Inr p2))"

definition uring_init :: "bool \<Rightarrow> nat \<Rightarrow> init_answers \<Rightarrow> uring_proxy \<Rightarrow> uring_proxy res" where
  "uring_init fixfd entry_length ans p =
     (let p1 = kcall (Queue_init entry_length) p in
      if res_queue ans \<noteq> 0 then Inl Exit_failure
      else let p2 = kcall (Register_eventfd (m_efd p1)) p1 in
        if res_eventfd ans \<noteq> 0 then Inl Exit_failure
        else if fixfd then uring_init_fixfd ans p2 else Inr p2)"

definition uring_deinit :: "bool \<Rightarrow> uring_proxy \<Rightarrow> uring_proxy" where
  "uring_deinit fixfd p =
     (let p1 = (kcall (Close_fd (m_efd p)) p)\<lparr>m_efd := -1\<rparr>;
          p2 = (if fixfd then foldl (\<lambda>p fd. kcall (Close_fd fd) p) p1 (m_null_fds p1) else p1) in
      kcall Queue_exit p2)"

section \<open>Thin operations\<close>

text \<open>\<open>peek_uring\<close>: whether the peeked entry pointer is non-null.\<close>

definition peek_uring :: "addr \<Rightarrow> bool" where
  "peek_uring cqe \<longleftrightarrow> cqe \<noteq> nullptr"

definition seen_cqe_entry :: "addr \<Rightarrow> uring_proxy \<Rightarrow> uring_proxy" where
  "seen_cqe_entry cqe p = kcall (Cqe_seen cqe) p"

definition uring_submit :: "uring_proxy \<Rightarrow> uring_proxy" where
  "uring_submit p = kcall Uring_submit p"

definition cq_advance :: "nat \<Rightarrow> uring_proxy \<Rightarrow> uring_proxy" where
  "cq_advance num p = kcall (Cq_advance num) p"

text \<open>
  \<open>handle_for_each_cqe\<close>: apply \<open>f\<close> to every ready entry (\<open>cqes\<close>), advance the ring once if
  asked, answer how many there were.
\<close>

definition handle_for_each_cqe ::
    "('c \<Rightarrow> 's \<Rightarrow> 's) \<Rightarrow> bool \<Rightarrow> 'c list \<Rightarrow> 's \<Rightarrow> uring_proxy \<Rightarrow> nat \<times> 's \<times> uring_proxy" where
  "handle_for_each_cqe f mark_finish cqes s p =
     (let s1 = foldl (\<lambda>s c. f c s) s cqes; i = length cqes in
      (i, s1, if mark_finish then cq_advance i p else p))"

text \<open>
  The eventfd: a write to, or a read from, a descriptor that has been closed (-1) fails and
  trips the assertion. \<open>u\<close> is the counter value the kernel hands out.
\<close>

definition write_eventfd :: "u64 \<Rightarrow> uring_proxy \<Rightarrow> uring_proxy res" where
  "write_eventfd num p =
     bindE (assertE (m_efd p \<noteq> -1)) (\<lambda>_. Inr (kcall (Eventfd_write num) p))"

definition wait_eventfd :: "u64 \<Rightarrow> uring_proxy \<Rightarrow> u64 res" where
  "wait_eventfd u p = bindE (assertE (m_efd p \<noteq> -1)) (\<lambda>_. Inr u)"

section \<open>Fixed file descriptors\<close>

definition invalid_fd_item :: item where
  "invalid_fd_item = \<lparr>idx = -1, ptr = None\<rparr>"

definition get_fixed_fd :: "bool \<Rightarrow> uring_proxy \<Rightarrow> item \<times> uring_proxy" where
  "get_fixed_fd fixfd p =
     (if \<not> fixfd then (invalid_fd_item, p)
      else case borrow (m_fds p) of (it, b) \<Rightarrow> (it, p\<lparr>m_fds := b\<rparr>))"

text \<open>\<open>answer\<close>: how many entries the kernel says it updated.\<close>

definition update_register_fixed_fds :: "bool \<Rightarrow> int \<Rightarrow> uring_proxy \<Rightarrow> uring_proxy res" where
  "update_register_fixed_fds fixfd answer p =
     (if fixfd then
        (let p1 = kcall (Register_files_update (buf_data (m_fds p))) p in
         if answer \<noteq> int kFixFdArraySize then Inl Exit_failure else Inr p1)
      else Inr p)"

definition set_fd_slot :: "int \<Rightarrow> int \<Rightarrow> uring_proxy \<Rightarrow> uring_proxy" where
  "set_fd_slot i fd p = p\<lparr>m_fds := (m_fds p)\<lparr>buf_data := (buf_data (m_fds p))[nat i := fd]\<rparr>\<rparr>"

definition back_fixed_fd :: "bool \<Rightarrow> int \<Rightarrow> item \<Rightarrow> uring_proxy \<Rightarrow> uring_proxy res" where
  "back_fixed_fd fixfd answer it p =
     (if \<not> item_valid it then Inr p
      else if length (m_null_fds p) \<le> nat (idx it) then Inl Out_of_range
      else bindE (update_register_fixed_fds fixfd answer
                    (set_fd_slot (idx it) (m_null_fds p ! nat (idx it)) p))
             (\<lambda>p1. Inr (p1\<lparr>m_fds := return_back it (m_fds p1)\<rparr>)))"

text \<open>
  \<open>fixed_fds\<close>: the constructor borrows; \<open>assign\<close> puts the descriptor into the borrowed slot
  and turns \<open>fd\<close> and \<open>flag\<close> into those of the slot; \<open>return_back\<close> (also the destructor)
  gives the slot back once and invalidates the item.
\<close>

definition fixed_fds_ctor :: "bool \<Rightarrow> uring_proxy \<Rightarrow> item \<times> uring_proxy" where
  "fixed_fds_ctor fixfd p = get_fixed_fd fixfd p"

definition fixed_fds_assign ::
    "bool \<Rightarrow> int \<Rightarrow> item \<Rightarrow> int \<Rightarrow> 32 word \<Rightarrow> uring_proxy \<Rightarrow> (int \<times> 32 word \<times> uring_proxy) res" where
  "fixed_fds_assign fixfd answer it fd flag p =
     (if \<not> item_valid it then Inr (fd, flag, p)
      else bindE (update_register_fixed_fds fixfd answer (set_fd_slot (idx it) fd p))
             (\<lambda>p1. Inr (idx it, flag OR IOSQE_FIXED_FILE, p1)))"

definition fixed_fds_return_back :: "bool \<Rightarrow> int \<Rightarrow> item \<Rightarrow> uring_proxy \<Rightarrow> (item \<times> uring_proxy) res" where
  "fixed_fds_return_back fixfd answer it p =
     (if item_valid it then
        bindE (back_fixed_fd fixfd answer it p) (\<lambda>p1. Inr (set_invalid it, p1))
      else Inr (it, p))"

lemmas fixed_defs =
  get_fixed_fd_def update_register_fixed_fds_def set_fd_slot_def back_fixed_fd_def
  fixed_fds_ctor_def fixed_fds_assign_def fixed_fds_return_back_def invalid_fd_item_def kcall_def

section \<open>Invariant of the descriptor table\<close>

text \<open>
  Every slot that is not lent holds its null descriptor; the table, the null descriptors and the
  configuration agree in length, and the free slots are in range and distinct.
\<close>

definition fds_inv :: "uring_proxy \<Rightarrow> bool" where
  "fds_inv p \<longleftrightarrow>
     length (buf_data (m_fds p)) = kFixFdArraySize \<and> length (m_null_fds p) = kFixFdArraySize \<and>
     distinct (que (m_fds p)) \<and>
     (\<forall>i \<in> set (que (m_fds p)). i < kFixFdArraySize \<and> buf_data (m_fds p) ! i = m_null_fds p ! i)"

lemma fixed_borrow:
  assumes "fds_inv p" and "get_fixed_fd True p = (it, p1)"
  shows "fds_inv p1"
    and "item_valid it \<Longrightarrow> nat (idx it) < kFixFdArraySize \<and> nat (idx it) \<notin> set (que (m_fds p1)) \<and>
           buf_data (m_fds p1) ! nat (idx it) = m_null_fds p1 ! nat (idx it) \<and>
           que (m_fds p) = nat (idx it) # que (m_fds p1)"
  using assms by (auto simp: fds_inv_def get_fixed_fd_def borrow_def item_valid_def split: list.splits)

lemma fixed_assign:
  assumes "fds_inv p" and "nat (idx it) \<notin> set (que (m_fds p))"
    and "fixed_fds_assign True answer it fd flag p = Inr (fd', flag', p1)"
  shows "fds_inv p1" and "que (m_fds p1) = que (m_fds p)" and "m_null_fds p1 = m_null_fds p"
    and "\<And>j. j \<noteq> nat (idx it) \<Longrightarrow> buf_data (m_fds p1) ! j = buf_data (m_fds p) ! j"
  using assms
  by (auto simp: fds_inv_def fixed_defs Let_def split: if_splits)
     (metis nth_list_update_neq)+

text \<open>
  The life of a fixed descriptor: borrow a slot, assign a socket to it, give it back. The
  slot holds the socket while it is lent and its null descriptor afterwards, the table invariant
  is kept throughout, the slot is free again, the item is invalid, and a second return (the
  destructor after \<open>close\<close>) does nothing.
\<close>

lemma fixed_fd_roundtrip:
  assumes inv: "fds_inv p" and it: "fixed_fds_ctor True p = (it, p1)" and v: "item_valid it"
    and asg: "fixed_fds_assign True 8 it fd flag p1 = Inr (fd', flag', p2)"
    and ret: "fixed_fds_return_back True 8 it p2 = Inr (it', p3)"
  shows "(fds_inv p1 \<and> fds_inv p2 \<and> fds_inv p3) \<and>
         (fd' = idx it \<and> flag' = flag OR 1 \<and> buf_data (m_fds p2) ! nat (idx it) = fd) \<and>
         buf_data (m_fds p3) = buf_data (m_fds p) \<and>
         que (m_fds p3) = que (m_fds p1) @ [nat (idx it)] \<and>
         fixed_fds_return_back True 8 it' p3 = Inr (it', p3)"
proof -
  have b: "get_fixed_fd True p = (it, p1)" using it by (simp add: fixed_fds_ctor_def)
  note b1 = fixed_borrow(1) [OF inv b] and b2 = fixed_borrow(2) [OF inv b v]
  let ?i = "nat (idx it)"
  have i: "?i < kFixFdArraySize" "?i \<notin> set (que (m_fds p1))" using b2 by auto
  have p2: "fds_inv p2" "que (m_fds p2) = que (m_fds p1)" "m_null_fds p2 = m_null_fds p1"
    by (rule fixed_assign [OF b1 i(2) asg])+
  have same: "buf_data (m_fds p1) = buf_data (m_fds p)" "m_null_fds p1 = m_null_fds p"
    using b by (auto simp: get_fixed_fd_def borrow_def split: list.splits)
  have len: "length (buf_data (m_fds p1)) = kFixFdArraySize" using b1 by (simp add: fds_inv_def)
  have d2: "buf_data (m_fds p2) = (buf_data (m_fds p1))[?i := fd]"
    and fdfl: "fd' = idx it \<and> flag' = flag OR 1"
    using asg v by (auto simp: fixed_defs Let_def kFixFdArraySize_def IOSQE_FIXED_FILE_def)
  have d3: "buf_data (m_fds p3) = (buf_data (m_fds p2))[?i := m_null_fds p2 ! ?i]"
    and q3: "que (m_fds p3) = que (m_fds p2) @ [?i]" and n3: "m_null_fds p3 = m_null_fds p2"
    and it': "\<not> item_valid it'"
    using ret v by (auto simp: fixed_defs Let_def kFixFdArraySize_def return_back_def
        set_invalid_def item_valid_def split: if_splits)
  have table: "buf_data (m_fds p3) = buf_data (m_fds p)"
    unfolding d3 d2 using b2 len i p2 same by (simp add: list_update_same_conv)
  have que: "que (m_fds p3) = que (m_fds p1) @ [?i]" using q3 p2 by simp
  have slot: "fd' = idx it \<and> flag' = flag OR 1 \<and> buf_data (m_fds p2) ! ?i = fd"
    using fdfl d2 len i by simp
  have idem: "fixed_fds_return_back True 8 it' p3 = Inr (it', p3)"
    using it' by (simp add: fixed_fds_return_back_def)
  have "fds_inv p3"
    using p2 b1 b2 i table same q3 n3 unfolding fds_inv_def by auto
  with b1 p2 table que slot idem show ?thesis by blast
qed

definition demo_proxy :: uring_proxy where
  "demo_proxy = \<lparr>m_efd = 5, m_null_fds = [10, 11, 12, 13, 14, 15, 16, 17],
     m_fds = \<lparr>buf_data = [10, 11, 12, 13, 14, 15, 16, 17], que = [0, 1, 2, 3, 4, 5, 6, 7]\<rparr>,
     kcalls = []\<rparr>"

lemma demo_proxy_inv: "fds_inv demo_proxy"
  by (simp add: fds_inv_def demo_proxy_def kFixFdArraySize_def)

lemma fixed_fd_roundtrip_witness:
  "\<exists>it p1 fd' flag' p2 it' p3.
     fixed_fds_ctor True demo_proxy = (it, p1) \<and>
     fixed_fds_assign True 8 it 42 0 p1 = Inr (fd', flag', p2) \<and>
     fixed_fds_return_back True 8 it p2 = Inr (it', p3) \<and>
     buf_data (m_fds p3) = buf_data (m_fds demo_proxy)"
proof -
  obtain it p1 where c: "fixed_fds_ctor True demo_proxy = (it, p1)" by fastforce
  then have v: "it = \<lparr>idx = 0, ptr = Some 0\<rparr>" and n: "m_null_fds p1 = m_null_fds demo_proxy"
    by (auto simp: demo_proxy_def fixed_defs borrow_def)
  obtain fd' flag' p2 where a: "fixed_fds_assign True 8 it 42 0 p1 = Inr (fd', flag', p2)"
    by (simp add: v fixed_defs item_valid_def Let_def kFixFdArraySize_def)
  then have n2: "m_null_fds p2 = m_null_fds demo_proxy"
    using n by (auto simp: v fixed_defs item_valid_def Let_def kFixFdArraySize_def)
  obtain it' p3 where r: "fixed_fds_return_back True 8 it p2 = Inr (it', p3)"
    using n2 by (simp add: v fixed_defs item_valid_def Let_def kFixFdArraySize_def demo_proxy_def)
  have "buf_data (m_fds p3) = buf_data (m_fds demo_proxy)"
    using fixed_fd_roundtrip [OF demo_proxy_inv c _ a r] by (simp add: v item_valid_def)
  with c a r show ?thesis by blast
qed

section \<open>Sessions of descriptor objects\<close>

text \<open>
  The objects of class \<open>fixed_fds\<close> of a program, in the order of their construction, and what it
  does with the k-th. \<open>fd_typed\<close> is the well-formedness of these objects and the table.
\<close>

datatype fd_op = Fd_ctor | Fd_assign nat int "32 word" | Fd_back nat

fun fd_step :: "fd_op \<Rightarrow> item list \<times> uring_proxy \<Rightarrow> (item list \<times> uring_proxy) res" where
  "fd_step Fd_ctor (its, p) = (case fixed_fds_ctor True p of (it, p1) \<Rightarrow> Inr (its @ [it], p1))"
| "fd_step (Fd_assign k fd flag) (its, p) =
     (if k < length its then
        bindE (fixed_fds_assign True (int kFixFdArraySize) (its ! k) fd flag p) (\<lambda>(_, _, p1). Inr (its, p1))
      else Inr (its, p))"
| "fd_step (Fd_back k) (its, p) =
     (if k < length its then
        bindE (fixed_fds_return_back True (int kFixFdArraySize) (its ! k) p) (\<lambda>(it, p1). Inr (its[k := it], p1))
      else Inr (its, p))"

fun fd_run :: "fd_op list \<Rightarrow> item list \<times> uring_proxy \<Rightarrow> (item list \<times> uring_proxy) res" where
  "fd_run [] s = Inr s"
| "fd_run (x # xs) s = bindE (fd_step x s) (fd_run xs)"

definition slots_held :: "item list \<Rightarrow> nat list" where
  "slots_held its = map (\<lambda>it. nat (idx it)) (filter item_valid its)"

definition fd_typed :: "item list \<times> uring_proxy \<Rightarrow> bool" where
  "fd_typed s \<longleftrightarrow> (case s of (its, p) \<Rightarrow>
     fds_inv p \<and> mset (slots_held its @ que (m_fds p)) = mset [0..<kFixFdArraySize])"

lemma fd_typed_held:
  assumes "fd_typed (its, p)" and "k < length its" "item_valid (its ! k)"
  shows "nat (idx (its ! k)) < kFixFdArraySize" and "nat (idx (its ! k)) \<notin> set (que (m_fds p))"
proof -
  have m: "mset (slots_held its @ que (m_fds p)) = mset [0..<kFixFdArraySize]" using assms(1) by (simp add: fd_typed_def)
  have "distinct (slots_held its @ que (m_fds p))" using mset_eq_imp_distinct_iff [OF m] by simp
  moreover have "set (slots_held its @ que (m_fds p)) = {0..<kFixFdArraySize}" using mset_eq_setD [OF m] by simp
  moreover have "nat (idx (its ! k)) \<in> set (slots_held its)" using assms(2,3) by (auto simp: slots_held_def)
  ultimately show "nat (idx (its ! k)) < kFixFdArraySize" "nat (idx (its ! k)) \<notin> set (que (m_fds p))" by auto
qed

lemma slots_held_back:
  assumes "k < length its" and "item_valid (its ! k)" and "\<not> item_valid it"
  shows "mset (slots_held its) = add_mset (nat (idx (its ! k))) (mset (slots_held (its[k := it])))"
proof -
  have its: "its = take k its @ its ! k # drop (Suc k) its" using assms(1) by (rule id_take_nth_drop)
  have "slots_held its = slots_held (take k its) @ nat (idx (its ! k)) # slots_held (drop (Suc k) its)"
    by (subst its) (simp add: slots_held_def assms(2))
  moreover have "slots_held (its[k := it]) = slots_held (take k its) @ slots_held (drop (Suc k) its)"
    using assms(1,3) by (simp add: upd_conv_take_nth_drop slots_held_def)
  ultimately show ?thesis by simp
qed

lemma fd_step_typed:
  assumes T: "fd_typed (its, p)"
  shows "\<exists>its' p'. fd_step x (its, p) = Inr (its', p') \<and> fd_typed (its', p')"
proof (cases x)
  case Fd_ctor
  obtain it p1 where c: "get_fixed_fd True p = (it, p1)" by fastforce
  have "fds_inv p1" using fixed_borrow(1) [OF _ c] T by (simp add: fd_typed_def)
  moreover have "mset (slots_held (its @ [it]) @ que (m_fds p1)) = mset (slots_held its @ que (m_fds p))"
    using c by (auto simp: slots_held_def get_fixed_fd_def borrow_def item_valid_def split: list.splits)
  ultimately show ?thesis using T Fd_ctor c by (simp add: fixed_fds_ctor_def fd_typed_def)
next
  case (Fd_assign k fd flag)
  show ?thesis
  proof (cases "k < length its \<and> item_valid (its ! k)")
    case True
    obtain fd' flag' p1 where a: "fixed_fds_assign True (int kFixFdArraySize) (its ! k) fd flag p = Inr (fd', flag', p1)"
      using True by (simp add: fixed_defs Let_def)
    have "fds_inv p1" "que (m_fds p1) = que (m_fds p)"
      using fixed_assign [OF _ fd_typed_held(2) [OF T] a] T True by (auto simp: fd_typed_def)
    with T Fd_assign True a show ?thesis by (simp add: fd_typed_def)
  next
    case False
    with T Fd_assign show ?thesis by (auto simp: fixed_fds_assign_def)
  qed
next
  case (Fd_back k)
  show ?thesis
  proof (cases "k < length its \<and> item_valid (its ! k)")
    case True
    let ?i = "nat (idx (its ! k))"
    note i = fd_typed_held [OF T conjunct1 [OF True] conjunct2 [OF True]]
    have inv: "fds_inv p" using T by (simp add: fd_typed_def)
    then have len: "length (m_null_fds p) = kFixFdArraySize" "length (buf_data (m_fds p)) = kFixFdArraySize"
      by (simp_all add: fds_inv_def)
    obtain it p1 where b: "fixed_fds_return_back True (int kFixFdArraySize) (its ! k) p = Inr (it, p1)"
      and it: "\<not> item_valid it" and p1: "m_null_fds p1 = m_null_fds p" "que (m_fds p1) = que (m_fds p) @ [?i]"
        "buf_data (m_fds p1) = (buf_data (m_fds p))[?i := m_null_fds p ! ?i]"
      using True i(1) len
      by (simp add: fixed_defs Let_def return_back_def set_invalid_def item_valid_def)
    have "fds_inv p1" using inv i len p1 by (auto simp: fds_inv_def nth_list_update)
    moreover have "mset (slots_held (its[k := it]) @ que (m_fds p1)) = mset (slots_held its @ que (m_fds p))"
      using slots_held_back [OF _ _ it, of k its] True p1(2) by simp
    ultimately show ?thesis using T Fd_back True b by (simp add: fd_typed_def)
  next
    case False
    with T Fd_back show ?thesis by (auto simp: fixed_fds_return_back_def)
  qed
qed



end
