(* ===== verification/Container.thy ===== *)
theory Container
  imports Coro_Prelude
begin

text \<open>
  \<open>coro::detail::container\<close> (include/coro/detail/container.hpp): the slot in which a promise
  or an event keeps its value. The general template holds a variant (for a reference type the
  stored value is the address of the referent); the specialisation for plain old data holds a
  union and a tag. The contract both satisfy is the locale \<open>result_slot\<close>.
\<close>

section \<open>What a reader of a slot can see\<close>

text \<open>
  \<open>result()\<close> returns the value, rethrows the stored exception, or throws the runtime error
  of a slot that was never set.
\<close>

datatype 'e thrown = Rethrown 'e | Runtime_error

section \<open>The general container\<close>

datatype ('v, 'e) storage = Unset_return_value | Stored 'v | Exception_ptr 'e

text \<open>
  \<open>undestroyed\<close> lists the alternatives whose storage was reused without a call of their
  destructor.
\<close>

record ('v, 'e) container =
  m_storage :: "('v, 'e) storage"
  undestroyed :: "('v, 'e) storage list"

definition new_container :: "('v, 'e) container" where
  "new_container = \<lparr>m_storage = Unset_return_value, undestroyed = []\<rparr>"

text \<open>\<open>emplace\<close> destroys the held alternative first.\<close>

definition return_value :: "'v \<Rightarrow> ('v, 'e) container \<Rightarrow> ('v, 'e) container" where
  "return_value v c = c\<lparr>m_storage := Stored v\<rparr>"

text \<open>\<open>set_exception\<close> constructs a variant in place, over whatever was there.\<close>

definition set_exception :: "'e \<Rightarrow> ('v, 'e) container \<Rightarrow> ('v, 'e) container" where
  "set_exception e c =
     c\<lparr>m_storage := Exception_ptr e, undestroyed := m_storage c # undestroyed c\<rparr>"

fun result_of :: "('v, 'e) storage \<Rightarrow> 'e thrown + 'v" where
  "result_of (Stored v) = Inr v"
| "result_of (Exception_ptr e) = Inl (Rethrown e)"
| "result_of Unset_return_value = Inl Runtime_error"

definition container_result :: "('v, 'e) container \<Rightarrow> 'e thrown + 'v" where
  "container_result c = result_of (m_storage c)"

definition value_ready :: "('v, 'e) container \<Rightarrow> bool" where
  "value_ready c = (case m_storage c of Stored _ \<Rightarrow> True | _ \<Rightarrow> False)"

definition value_exception :: "('v, 'e) container \<Rightarrow> bool" where
  "value_exception c = (case m_storage c of Exception_ptr _ \<Rightarrow> True | _ \<Rightarrow> False)"

definition value_unset :: "('v, 'e) container \<Rightarrow> bool" where
  "value_unset c \<longleftrightarrow> \<not> value_ready c \<and> \<not> value_exception c"

lemmas container_defs =
  new_container_def return_value_def set_exception_def container_result_def
  value_ready_def value_exception_def value_unset_def

section \<open>The specialisation for plain old data\<close>

text \<open>
  The union is 64 bits of memory that hold the value or the pointer inside an
  \<open>std::exception_ptr\<close> (0 is the null pointer). The constructor sets the tag only, so the
  bits of a fresh container are whatever the memory held.
\<close>

datatype value_state = State_none | State_value | State_exception

record pod_container =
  m_union :: u64
  pod_state :: value_state

definition new_pod :: "u64 \<Rightarrow> pod_container" where
  "new_pod garbage = \<lparr>m_union = garbage, pod_state = State_none\<rparr>"

definition pod_return_value :: "u64 \<Rightarrow> pod_container \<Rightarrow> pod_container" where
  "pod_return_value v c = c\<lparr>m_union := v, pod_state := State_value\<rparr>"

text \<open>
  \<open>exception_ptr::operator=\<close> releases the exception object the left-hand side points to
  unless that is null. When the union does not hold an exception pointer, the bits it releases
  are no exception object.
\<close>

definition pod_set_exception :: "u64 \<Rightarrow> pod_container \<Rightarrow> pod_container res" where
  "pod_set_exception e c =
     (if m_union c \<noteq> 0 \<and> pod_state c \<noteq> State_exception then Inl Dangling
      else Inr (c\<lparr>m_union := e, pod_state := State_exception\<rparr>))"

text \<open>
  \<open>result()\<close> of this specialisation is declared \<open>noexcept\<close>: the \<open>rethrow_exception\<close> in it
  does not reach the reader but calls \<open>std::terminate\<close>.
\<close>

datatype terminated = Std_terminate

definition pod_result :: "pod_container \<Rightarrow> terminated + u64" where
  "pod_result c =
     (case pod_state c of
        State_value \<Rightarrow> Inr (m_union c)
      | State_exception \<Rightarrow> Inl Std_terminate
      | State_none \<Rightarrow> Inr 0)"

definition pod_value_ready :: "pod_container \<Rightarrow> bool" where
  "pod_value_ready c \<longleftrightarrow> pod_state c = State_value"

definition pod_value_exception :: "pod_container \<Rightarrow> bool" where
  "pod_value_exception c \<longleftrightarrow> pod_state c = State_exception"

definition pod_value_unset :: "pod_container \<Rightarrow> bool" where
  "pod_value_unset c \<longleftrightarrow> pod_state c = State_none"

text \<open>The destructor: destroys the exception pointer if that is what the union holds.\<close>

definition pod_destroy :: "pod_container \<Rightarrow> u64 option" where
  "pod_destroy c = (if pod_state c = State_exception then Some (m_union c) else None)"

lemmas pod_defs =
  new_pod_def pod_return_value_def pod_set_exception_def pod_result_def pod_value_ready_def
  pod_value_exception_def pod_value_unset_def pod_destroy_def

section \<open>The contract of a slot\<close>

locale result_slot =
  fixes put :: "'v \<Rightarrow> 's \<Rightarrow> 's"
    and get :: "'s \<Rightarrow> 'x + 'v"
    and ready :: "'s \<Rightarrow> bool"
  assumes get_put: "get (put v s) = Inr v"
    and ready_put: "ready (put v s)"
    and ready_get: "ready s \<Longrightarrow> \<exists>v. get s = Inr v"
begin

lemma last_write_wins: "get (foldl (\<lambda>s v. put v s) s (vs @ [v])) = Inr v"
  by (simp add: get_put)

lemma written_ready: "vs \<noteq> [] \<Longrightarrow> ready (foldl (\<lambda>s v. put v s) s vs)"
  by (cases vs rule: rev_cases) (simp_all add: ready_put)

end

interpretation slot: result_slot return_value container_result value_ready
  by unfold_locales (auto simp: container_defs split: storage.splits)

interpretation pod_slot: result_slot pod_return_value pod_result pod_value_ready
  by unfold_locales (auto simp: pod_defs)

section \<open>Properties\<close>


text \<open>
  In the plain-old-data container, recording an exception is sound only when the memory of
  the union happens to be zero: on a fresh container its uninitialised bits, after
  \<open>return_value\<close> the value itself are released as if they were an exception object.
\<close>

lemma pod_exception_over_garbage:
  "pod_set_exception e (new_pod garbage) =
     (if garbage = 0 then Inr \<lparr>m_union = e, pod_state = State_exception\<rparr> else Inl Dangling) \<and>
   pod_set_exception e (pod_return_value v c) =
     (if v = 0 then Inr (c\<lparr>m_union := e, pod_state := State_exception\<rparr>) else Inl Dangling)"
  by (simp add: pod_defs)

definition pod_view :: "pod_container \<Rightarrow> (u64, u64) container" where
  "pod_view c =
     \<lparr>m_storage = (case pod_state c of State_value \<Rightarrow> Stored (m_union c)
                   | State_exception \<Rightarrow> Exception_ptr (m_union c)
                   | State_none \<Rightarrow> Unset_return_value),
      undestroyed = []\<rparr>"

text \<open>
  C37. The specialisation for plain old data stores what the general container stores, but reads
  differently: a value is read the same way; a slot that was never set throws in the general
  container and silently reads as zero here; and an exception that the general container
  rethrows to the reader ends the whole program here, so a coroutine that returns plain old data
  cannot hand an exception to the one that awaits it.
\<close>

theorem pod_container_agrees:
  "pod_result c =
     (case container_result (pod_view c) of
        Inr v \<Rightarrow> Inr v
      | Inl Runtime_error \<Rightarrow> Inr 0
      | Inl (Rethrown e) \<Rightarrow> Inl Std_terminate) \<and>
   pod_view (pod_return_value v c) = return_value v (pod_view c) \<and>
   (pod_set_exception e c = Inr c' \<longrightarrow>
      m_storage (pod_view c') = m_storage (set_exception e (pod_view c)) \<and>
      container_result (pod_view c') = Inl (Rethrown e) \<and> pod_result c' = Inl Std_terminate)"
  by (auto simp: pod_view_def pod_defs container_defs split: value_state.splits if_splits)

theorem pod_container_agrees_witness:
  "pod_result \<lparr>m_union = 9, pod_state = State_exception\<rparr> = Inl Std_terminate \<and>
   container_result (pod_view \<lparr>m_union = 9, pod_state = State_exception\<rparr>) = Inl (Rethrown 9)"
  using pod_container_agrees [of "new_pod 0" 0 9 "\<lparr>m_union = 9, pod_state = State_exception\<rparr>"]
  by (simp add: pod_defs)

end
