(* ===== verification/Task.thy ===== *)
theory Task
  imports Container
begin

text \<open>
  \<open>coro::task\<close> and its promise (include/coro/task.hpp). Coroutine frames live in a memory
  from handles to frames; a handle without a frame is destroyed (or was never created), and
  touching it is the fault \<open>Dangling\<close>. What the compiler generates around a coroutine body
  (initial suspend, \<open>co_await\<close> of a task, \<open>co_return\<close>, an escaping exception, final
  suspend with its transfer of control) is the function \<open>step\<close>; the body itself is user
  code and is given as the list of its remaining actions. A void task stores a unit value.
\<close>

section \<open>Promise, frame, memory\<close>

datatype coro_state = Coro_normal | Coro_detach | Coro_none

datatype exn = User_exception nat | Runtime_error_exn

fun as_exn :: "exn thrown \<Rightarrow> exn" where
  "as_exn (Rethrown e) = e"
| "as_exn Runtime_error = Runtime_error_exn"

text \<open>
  The actions of a body: \<open>co_await\<close> of a task (a temporary dies at the end of the full
  expression, a task owned elsewhere does not), \<open>co_await\<close> of an awaiter that keeps the handle and
  returns control to whoever resumed the coroutine (I/O, event, mutex), \<open>co_return\<close>, and
  an exception that escapes.
\<close>

datatype 'v instr = Co_await_task bool handle | Suspend | Co_return 'v | Throw exn

record 'v frame =
  coro_status :: coro_state
  m_continuation :: handle
  promise_slot :: "('v, exn) container"
  body :: "'v instr list"
  awaiting :: "(bool \<times> handle) option"
  at_final_suspend :: bool

type_synonym 'v memory = "handle \<Rightarrow> 'v frame option"

text \<open>The promise of a freshly called coroutine, suspended at its initial suspend point.\<close>

definition new_frame :: "'v instr list \<Rightarrow> 'v frame" where
  "new_frame b = \<lparr>coro_status = Coro_normal, m_continuation = nullptr,
     promise_slot = new_container, body = b, awaiting = None, at_final_suspend = False\<rparr>"

definition set_state :: "coro_state \<Rightarrow> 'v frame \<Rightarrow> 'v frame" where
  "set_state st f = f\<lparr>coro_status := st\<rparr>"

definition is_detach :: "'v frame \<Rightarrow> bool" where
  "is_detach f \<longleftrightarrow> coro_status f = Coro_detach"

definition continuation :: "handle \<Rightarrow> 'v frame \<Rightarrow> 'v frame" where
  "continuation c f = f\<lparr>m_continuation := c\<rparr>"

definition deref :: "handle \<Rightarrow> 'v memory \<Rightarrow> 'v frame res" where
  "deref h mem = (case mem h of None \<Rightarrow> Inl Dangling | Some f \<Rightarrow> Inr f)"

definition destroy :: "handle \<Rightarrow> 'v memory \<Rightarrow> 'v memory res" where
  "destroy h mem = bindE (deref h mem) (\<lambda>_. Inr (mem(h := None)))"

section \<open>The awaiters of a task\<close>

text \<open>
  \<open>final_awaiter::await_suspend\<close> names the coroutine that runs next; 0 stands for
  \<open>std::noop_coroutine\<close>, that is, back to the resumer.
\<close>

definition final_await_suspend :: "'v frame \<Rightarrow> handle" where
  "final_await_suspend f = (if m_continuation f \<noteq> nullptr then m_continuation f else nullptr)"

definition await_ready :: "handle \<Rightarrow> 'v memory \<Rightarrow> bool res" where
  "await_ready h mem =
     (if h = nullptr then Inr True else bindE (deref h mem) (\<lambda>f. Inr (at_final_suspend f)))"

definition await_suspend :: "handle \<Rightarrow> handle \<Rightarrow> 'v memory \<Rightarrow> (handle \<times> 'v memory) res" where
  "await_suspend h awaiting_coroutine mem =
     bindE (deref h mem) (\<lambda>f. Inr (h, mem(h \<mapsto> continuation awaiting_coroutine f)))"

definition await_resume :: "handle \<Rightarrow> 'v memory \<Rightarrow> (exn thrown + 'v) res" where
  "await_resume h mem =
     (if h = nullptr then Inl Dangling
      else bindE (deref h mem) (\<lambda>f. Inr (container_result (promise_slot f))))"

section \<open>Running a coroutine\<close>

text \<open>The coroutine reaches its final suspend point; control goes where the awaiter says.\<close>

definition complete :: "handle \<Rightarrow> 'v frame \<Rightarrow> 'v memory \<Rightarrow> handle \<times> 'v memory" where
  "complete cur f mem =
     (final_await_suspend f, mem(cur \<mapsto> f\<lparr>body := [], awaiting := None, at_final_suspend := True\<rparr>))"

definition finish_await :: "handle \<Rightarrow> 'v frame \<Rightarrow> bool \<Rightarrow> handle \<Rightarrow> 'v memory \<Rightarrow> (handle \<times> 'v memory) res" where
  "finish_await cur f temporary c mem =
     bindE (await_resume c mem) (\<lambda>r.
     bindE (if temporary then destroy c mem else Inr mem) (\<lambda>mem1.
       case r of
         Inr v \<Rightarrow> Inr (cur, mem1(cur \<mapsto> f\<lparr>awaiting := None\<rparr>))
       | Inl ex \<Rightarrow>
           Inr (complete cur (f\<lparr>promise_slot := set_exception (as_exn ex) (promise_slot f)\<rparr>) mem1)))"

fun exec_instr :: "handle \<Rightarrow> 'v frame \<Rightarrow> 'v instr list \<Rightarrow> 'v memory \<Rightarrow> (handle \<times> 'v memory) res" where
  "exec_instr cur f [] mem = Inr (complete cur f mem)"
| "exec_instr cur f (Suspend # rest) mem = Inr (nullptr, mem(cur \<mapsto> f\<lparr>body := rest\<rparr>))"
| "exec_instr cur f (Co_return v # rest) mem =
     Inr (complete cur (f\<lparr>promise_slot := return_value v (promise_slot f)\<rparr>) mem)"
| "exec_instr cur f (Throw e # rest) mem =
     Inr (complete cur (f\<lparr>promise_slot := set_exception e (promise_slot f)\<rparr>) mem)"
| "exec_instr cur f (Co_await_task temporary c # rest) mem =
     (let mem1 = mem(cur \<mapsto> f\<lparr>body := rest, awaiting := Some (temporary, c)\<rparr>) in
      bindE (await_ready c mem1) (\<lambda>rdy.
        if rdy then Inr (cur, mem1) else await_suspend c cur mem1))"

text \<open>
  One step of the running coroutine \<open>cur\<close>: finish the await it is in, or perform its next
  action. The result names the coroutine that has control afterwards. Resuming a coroutine that
  is at its final suspend point is undefined.
\<close>

definition step :: "handle \<Rightarrow> 'v memory \<Rightarrow> (handle \<times> 'v memory) res" where
  "step cur mem =
     bindE (deref cur mem) (\<lambda>f.
       if at_final_suspend f then Inl Dangling
       else case awaiting f of
              Some (temporary, c) \<Rightarrow> finish_await cur f temporary c mem
            | None \<Rightarrow> exec_instr cur f (body f) mem)"

text \<open>\<open>handle.resume()\<close>: run until control returns to the resumer.\<close>

fun run :: "nat \<Rightarrow> handle \<Rightarrow> 'v memory \<Rightarrow> 'v memory res" where
  "run 0 cur mem = Inl Out_of_fuel"
| "run (Suc n) cur mem =
     (if cur = nullptr then Inr mem
      else bindE (step cur mem) (\<lambda>(nxt, mem1). run n nxt mem1))"

section \<open>The task object\<close>

text \<open>A task object is the handle it owns; 0 after a move, a detach or a destroy.\<close>

definition task_move :: "handle \<Rightarrow> handle \<times> handle" where
  "task_move other = (other, nullptr)"

definition task_dtor :: "handle \<Rightarrow> 'v memory \<Rightarrow> 'v memory res" where
  "task_dtor t mem = (if t \<noteq> nullptr then destroy t mem else Inr mem)"

text \<open>Move assignment; \<open>same\<close> says that both sides are the same object.\<close>

definition task_assign :: "bool \<Rightarrow> handle \<Rightarrow> handle \<Rightarrow> 'v memory \<Rightarrow> (handle \<times> handle \<times> 'v memory) res" where
  "task_assign same t other mem =
     (if same then Inr (t, other, mem)
      else bindE (if t \<noteq> nullptr then destroy t mem else Inr mem)
             (\<lambda>mem1. case task_move other of (t', other') \<Rightarrow> Inr (t', other', mem1)))"

definition is_ready :: "handle \<Rightarrow> 'v memory \<Rightarrow> bool res" where
  "is_ready t mem =
     (if t = nullptr then Inr True else bindE (deref t mem) (\<lambda>f. Inr (at_final_suspend f)))"

definition task_resume :: "nat \<Rightarrow> handle \<Rightarrow> 'v memory \<Rightarrow> (bool \<times> 'v memory) res" where
  "task_resume fuel t mem =
     bindE (deref t mem) (\<lambda>f.
     bindE (if \<not> at_final_suspend f then run fuel t mem else Inr mem) (\<lambda>mem1.
     bindE (deref t mem1) (\<lambda>f1. Inr (\<not> at_final_suspend f1, mem1))))"

definition task_destroy :: "handle \<Rightarrow> 'v memory \<Rightarrow> (bool \<times> handle \<times> 'v memory) res" where
  "task_destroy t mem =
     (if t \<noteq> nullptr then bindE (destroy t mem) (\<lambda>mem1. Inr (True, nullptr, mem1))
      else Inr (False, t, mem))"

definition task_detach :: "handle \<Rightarrow> 'v memory \<Rightarrow> (handle \<times> 'v memory) res" where
  "task_detach t mem =
     bindE (assertE (t \<noteq> nullptr)) (\<lambda>_.
     bindE (deref t mem) (\<lambda>f. Inr (nullptr, mem(t \<mapsto> set_state Coro_detach f))))"

text \<open>\<open>handle() &\<close> reads the handle, \<open>handle() &&\<close> gives it away.\<close>

definition task_handle_rvalue :: "handle \<Rightarrow> handle \<times> handle" where
  "task_handle_rvalue t = (t, nullptr)"

text \<open>\<open>clean\<close>: what a resumer does with a coroutine that is done.\<close>

definition clean :: "handle \<Rightarrow> 'v memory \<Rightarrow> 'v memory res" where
  "clean h mem =
     bindE (deref h mem) (\<lambda>f.
       case coro_status f of Coro_detach \<Rightarrow> destroy h mem | _ \<Rightarrow> Inr mem)"

lemmas task_defs =
  deref_def destroy_def complete_def final_await_suspend_def await_ready_def await_suspend_def
  await_resume_def finish_await_def step_def continuation_def set_state_def clean_def

lemma deref_Inr_iff [simp]: "deref h mem = Inr f \<longleftrightarrow> mem h = Some f"
  by (simp add: deref_def split: option.splits)

lemma deref_Some [simp]: "mem h = Some f \<Longrightarrow> deref h mem = Inr f"
  by simp

lemma deref_None [simp]: "mem h = None \<Longrightarrow> deref h mem = Inl Dangling"
  by (simp add: deref_def)

section \<open>Termination of a resumption\<close>

text \<open>Every step uses up an action, a pending await or an unfinished frame.\<close>

definition weight :: "'v frame \<Rightarrow> nat" where
  "weight f = 2 * length (body f) + (if awaiting f = None then 0 else 1)
     + (if at_final_suspend f then 0 else 1)"

definition work :: "'v memory \<Rightarrow> nat" where
  "work mem = (\<Sum>h \<in> dom mem. weight (the (mem h)))"

lemma weight_continuation [simp]: "weight (continuation c f) = weight f"
  by (simp add: weight_def continuation_def)

lemma work_upd:
  assumes "finite (dom mem)" and "mem h = Some f"
  shows "work (mem(h \<mapsto> g)) + weight f = work mem + weight g"
proof -
  have d: "h \<in> dom mem" using assms(2) by auto
  have a: "work mem = weight f + (\<Sum>k \<in> dom mem - {h}. weight (the (mem k)))"
    unfolding work_def using sum.remove [OF assms(1) d, of "\<lambda>k. weight (the (mem k))"] assms(2) by simp
  have b: "dom (mem(h \<mapsto> g)) = dom mem" using d by auto
  have "work (mem(h \<mapsto> g)) = weight g + (\<Sum>k \<in> dom mem - {h}. weight (the ((mem(h \<mapsto> g)) k)))"
    unfolding work_def b
    using sum.remove [OF assms(1) d, of "\<lambda>k. weight (the ((mem(h \<mapsto> g)) k))"] by simp
  also have "(\<Sum>k \<in> dom mem - {h}. weight (the ((mem(h \<mapsto> g)) k)))
      = (\<Sum>k \<in> dom mem - {h}. weight (the (mem k)))" by (rule sum.cong) auto
  finally show ?thesis using a by linarith
qed

lemma work_del:
  assumes fin: "finite (dom mem)"
  shows "work (mem(h := None)) \<le> work mem"
proof -
  have "(\<Sum>k \<in> dom mem - {h}. weight (the ((mem(h := None)) k)))
      = (\<Sum>k \<in> dom mem - {h}. weight (the (mem k)))" by (rule sum.cong) auto
  also have "\<dots> \<le> (\<Sum>k \<in> dom mem. weight (the (mem k)))"
    by (rule sum_mono2 [OF fin]) auto
  finally show ?thesis by (simp add: work_def)
qed

lemma work_less:
  assumes "finite (dom mem)" "mem h = Some f" "weight g < weight f"
  shows "work (mem(h \<mapsto> g)) < work mem"
  using work_upd [OF assms(1,2), of g] assms(3) by linarith

lemma finish_await_cases:
  assumes "finish_await cur f tm c mem = Inr (nxt, mem')"
  obtains (val) "nxt = cur"
      and "mem' = (if tm then mem(c := None) else mem)(cur \<mapsto> f\<lparr>awaiting := None\<rparr>)"
    | (exc) ex where "nxt = m_continuation f"
      and "mem' = (if tm then mem(c := None) else mem)
             (cur \<mapsto> f\<lparr>promise_slot := set_exception (as_exn ex) (promise_slot f), body := [],
                awaiting := None, at_final_suspend := True\<rparr>)"
proof -
  obtain r where r: "await_resume c mem = Inr r"
    using assms by (auto simp: finish_await_def bindE_Inr_iff)
  obtain mem1 where m: "(if tm then destroy c mem else Inr mem) = Inr mem1"
    using assms r by (auto simp: finish_await_def bindE_Inr_iff)
  then have mem1: "mem1 = (if tm then mem(c := None) else mem)"
    by (auto simp: destroy_def bindE_Inr_iff split: if_splits)
  show ?thesis
  proof (cases r)
    case (Inl ex)
    have "Inr (complete cur (f\<lparr>promise_slot := set_exception (as_exn ex) (promise_slot f)\<rparr>) mem1)
        = (Inr (nxt, mem') :: (handle \<times> 'a memory) res)"
      using assms by (simp only: finish_await_def r m Inl bindE_simps sum.case)
    then show ?thesis
      by (intro exc [of ex]) (auto simp: complete_def final_await_suspend_def mem1)
  next
    case (Inr v)
    have e: "Inr (cur, mem1(cur \<mapsto> f\<lparr>awaiting := None\<rparr>)) = (Inr (nxt, mem') :: (handle \<times> 'a memory) res)"
      using assms by (simp only: finish_await_def r m Inr bindE_simps sum.case)
    show ?thesis by (rule val [OF Inr_pairD1 [OF e] Inr_pairD2 [OF e, unfolded mem1]])
  qed
qed

lemma exec_await_cases:
  assumes "exec_instr cur f (Co_await_task tm c # rest) mem = Inr (nxt, mem')"
  obtains (rdy) "nxt = cur" and "mem' = mem(cur \<mapsto> f\<lparr>body := rest, awaiting := Some (tm, c)\<rparr>)"
    | (transfer) g where "nxt = c"
      and "(mem(cur \<mapsto> f\<lparr>body := rest, awaiting := Some (tm, c)\<rparr>)) c = Some g"
      and "mem' = mem(cur \<mapsto> f\<lparr>body := rest, awaiting := Some (tm, c)\<rparr>, c \<mapsto> continuation cur g)"
proof -
  let ?m = "mem(cur \<mapsto> f\<lparr>body := rest, awaiting := Some (tm, c)\<rparr>)"
  obtain b where b: "await_ready c ?m = Inr b"
    using assms by (auto simp: Let_def bindE_Inr_iff)
  show ?thesis
  proof (cases b)
    case True
    with assms b have e: "Inr (cur, ?m) = (Inr (nxt, mem') :: (handle \<times> 'a memory) res)"
      by (simp only: exec_instr.simps Let_def bindE_simps if_True)
    show ?thesis by (rule rdy [OF Inr_pairD1 [OF e] Inr_pairD2 [OF e]])
  next
    case False
    with assms b have "await_suspend c cur ?m = Inr (nxt, mem')" by (simp add: Let_def)
    then show ?thesis
      by (intro transfer [of "the (?m c)"])
         (auto simp: await_suspend_def bindE_Inr_iff split: if_splits)
  qed
qed

lemma finish_await_decreases:
  assumes fin: "finite (dom mem)" and f: "mem cur = Some f" and "awaiting f = Some (tm, c)"
    and "\<not> at_final_suspend f" and "finish_await cur f tm c mem = Inr (nxt, mem')" and "cur \<noteq> c"
  shows "work mem' < work mem \<and> finite (dom mem')"
proof -
  define mem1 where "mem1 = (if tm then mem(c := None) else mem)"
  have m1: "finite (dom mem1)" "mem1 cur = Some f" "work mem1 \<le> work mem"
    using fin f assms(6) work_del [OF fin] by (auto simp: mem1_def)
  from assms(5) obtain g where "mem' = mem1(cur \<mapsto> g)" and "weight g < weight f"
    by (cases rule: finish_await_cases) (use assms(3,4) in \<open>auto simp: mem1_def weight_def\<close>)
  with work_less [OF m1(1,2)] m1 show ?thesis by fastforce
qed

lemma exec_instr_decreases:
  assumes fin: "finite (dom mem)" and f: "mem cur = Some f" and "awaiting f = None"
    and "\<not> at_final_suspend f" and ex: "exec_instr cur f (body f) mem = Inr (nxt, mem')"
  shows "work mem' < work mem \<and> finite (dom mem')"
proof (cases "body f")
  case Nil
  then show ?thesis
    using assms by (auto simp: complete_def weight_def intro!: work_less [OF fin f])
next
  case (Cons i rest)
  show ?thesis
  proof (cases i)
    case (Co_await_task tm c)
    let ?g = "f\<lparr>body := rest, awaiting := Some (tm, c)\<rparr>"
    let ?m = "mem(cur \<mapsto> ?g)"
    have less: "work ?m < work mem"
      using Cons assms(3) by (intro work_less [OF fin f]) (simp add: weight_def)
    have finm: "finite (dom ?m)" using fin by simp
    from ex [unfolded Cons Co_await_task] show ?thesis
    proof (cases rule: exec_await_cases)
      case rdy
      with less fin show ?thesis by simp
    next
      case (transfer g)
      then have "work mem' = work ?m"
        using work_upd [of ?m c g "continuation cur g", OF finm transfer(2)]
        by (simp only: weight_continuation)
      with less fin transfer show ?thesis by simp
    qed
  qed (use assms Cons in \<open>auto simp: complete_def weight_def intro!: work_less [OF fin f]\<close>)
qed

text \<open>
  \<open>avoids R mem\<close>: no frame \<open>k\<close> awaits, now or later, a coroutine \<open>h\<close> with
  \<open>R k h\<close>. Two instances matter: no coroutine awaits itself, and nobody awaits a given one.
\<close>

definition avoids :: "(handle \<Rightarrow> handle \<Rightarrow> bool) \<Rightarrow> 'v memory \<Rightarrow> bool" where
  "avoids R mem \<longleftrightarrow> (\<forall>k f h tm. mem k = Some f \<longrightarrow> R k h \<longrightarrow>
     awaiting f \<noteq> Some (tm, h) \<and> Co_await_task tm h \<notin> set (body f))"

abbreviation no_self_await :: "'v memory \<Rightarrow> bool" where
  "no_self_await \<equiv> avoids (=)"

abbreviation unreferenced :: "handle \<Rightarrow> 'v memory \<Rightarrow> bool" where
  "unreferenced h \<equiv> avoids (\<lambda>_ k. k = h)"

lemma avoids_upd:
  assumes "avoids R mem"
    and "\<And>h tm. R k h \<Longrightarrow> awaiting g \<noteq> Some (tm, h)"
    and "\<And>h tm. R k h \<Longrightarrow> Co_await_task tm h \<notin> set (body g)"
  shows "avoids R (mem(k \<mapsto> g))"
  using assms by (simp add: avoids_def)

lemma avoids_del: "avoids R mem \<Longrightarrow> avoids R (mem(h := None))"
  by (simp add: avoids_def)

lemma avoidsD:
  assumes "avoids R mem" "mem k = Some f" "R k h"
  shows "awaiting f \<noteq> Some (tm, h)" and "Co_await_task tm h \<notin> set (body f)"
  using assms by (auto simp: avoids_def)

lemma step_frame:
  assumes "step cur mem = Inr (nxt, mem')"
  obtains f where "mem cur = Some f" and "\<not> at_final_suspend f"
  using assms by (auto simp: step_def bindE_Inr_iff split: if_splits)

lemma step_cases:
  assumes st: "step cur mem = Inr (nxt, mem')" and f: "mem cur = Some f"
  obtains (await) tm c where "awaiting f = Some (tm, c)"
      and "finish_await cur f tm c mem = Inr (nxt, mem')"
    | (exec) "awaiting f = None" and "exec_instr cur f (body f) mem = Inr (nxt, mem')"
proof (cases "awaiting f")
  case (Some tc)
  with st f show ?thesis
    by (cases tc) (rule await, auto simp: step_def split: if_splits)
next
  case None
  with st f show ?thesis by (intro exec) (auto simp: step_def split: if_splits)
qed

lemma step_avoids:
  assumes ns: "avoids R mem" and st: "step cur mem = Inr (nxt, mem')"
  shows "avoids R mem'"
proof -
  obtain f where f: "mem cur = Some f" "\<not> at_final_suspend f"
    using st by (rule step_frame)
  note self = avoidsD [OF ns f(1)]
  from st f(1) show ?thesis
  proof (cases rule: step_cases)
    case (await tm c)
    from await(2) show ?thesis
      by (cases rule: finish_await_cases)
         (cases tm; use ns in \<open>auto intro!: avoids_upd avoids_del simp: self\<close>)+
  next
    case exec
    note ex = exec(2)
    show ?thesis
    proof (cases "body f")
      case Nil
      with ex show ?thesis by (auto simp: complete_def intro!: avoids_upd [OF ns])
    next
      case (Cons i rest)
      show ?thesis
      proof (cases i)
        case (Co_await_task tm c)
        have m: "avoids R (mem(cur \<mapsto> f\<lparr>body := rest, awaiting := Some (tm, c)\<rparr>))"
          using self Cons Co_await_task by (intro avoids_upd [OF ns]) auto
        from ex [unfolded Cons Co_await_task] show ?thesis
          by (cases rule: exec_await_cases)
             (use m avoidsD [OF m] in \<open>auto intro!: avoids_upd [OF m] simp: continuation_def\<close>)
      qed (use ex Cons self exec(1) in \<open>auto simp: complete_def intro!: avoids_upd [OF ns]\<close>)
    qed
  qed
qed

lemma step_decreases:
  assumes fin: "finite (dom mem)" and ns: "no_self_await mem" and st: "step cur mem = Inr (nxt, mem')"
  shows "work mem' < work mem \<and> finite (dom mem')"
proof -
  obtain f where f: "mem cur = Some f" "\<not> at_final_suspend f"
    using st by (rule step_frame)
  from st f(1) show ?thesis
  proof (cases rule: step_cases)
    case (await tm c)
    then have "cur \<noteq> c" using avoidsD(1) [OF ns f(1)] by auto
    then show ?thesis by (rule finish_await_decreases [OF fin f(1) await(1) f(2) await(2)])
  next
    case exec
    then show ?thesis by (intro exec_instr_decreases [OF fin f(1) _ f(2)])
  qed
qed

text \<open>A step keeps or removes frames; it changes no detach state and removes no frame nobody awaits.\<close>

lemma step_keeps:
  assumes st: "step cur mem = Inr (nxt, mem')"
  shows "mem' k = Some g \<Longrightarrow> \<exists>f. mem k = Some f \<and> coro_status g = coro_status f"
    and "unreferenced k mem \<Longrightarrow> mem k = Some f \<Longrightarrow> \<exists>g. mem' k = Some g"
proof -
  obtain fc where f: "mem cur = Some fc" "\<not> at_final_suspend fc"
    using st by (rule step_frame)
  have "(mem' k = Some g \<longrightarrow> (\<exists>f. mem k = Some f \<and> coro_status g = coro_status f)) \<and>
        (unreferenced k mem \<longrightarrow> mem k = Some f \<longrightarrow> (\<exists>g. mem' k = Some g))"
    using st f(1)
  proof (cases rule: step_cases)
    case (await tm c)
    have "unreferenced k mem \<Longrightarrow> c \<noteq> k"
      using avoidsD(1) [of _ mem cur fc k] f(1) await(1) by auto
    with f(1) show ?thesis
      by (cases rule: finish_await_cases [OF await(2)]) (cases tm; auto)+
  next
    case exec
    show ?thesis
    proof (cases "body fc")
      case Nil
      with exec f show ?thesis by (auto simp: complete_def split: if_splits)
    next
      case (Cons i rest)
      show ?thesis
      proof (cases i)
        case (Co_await_task tm c)
        from exec(2) [unfolded Cons Co_await_task] f(1) show ?thesis
          by (cases rule: exec_await_cases) (auto simp: continuation_def split: if_splits)
      qed (use exec Cons f in \<open>auto simp: complete_def split: if_splits\<close>)
    qed
  qed
  then show "mem' k = Some g \<Longrightarrow> \<exists>f. mem k = Some f \<and> coro_status g = coro_status f"
    and "unreferenced k mem \<Longrightarrow> mem k = Some f \<Longrightarrow> \<exists>g. mem' k = Some g" by blast+
qed

lemma run_Suc_Inr:
  assumes "run (Suc n) cur mem = Inr m" and "cur \<noteq> nullptr"
  obtains nxt mem1 where "step cur mem = Inr (nxt, mem1)" and "run n nxt mem1 = Inr m"
  using assms by (auto simp: bindE_Inr_iff)

lemma run_keeps:
  "run n cur mem = Inr m \<Longrightarrow> unreferenced k mem \<Longrightarrow> mem k = Some f \<Longrightarrow>
   \<exists>g. m k = Some g \<and> coro_status g = coro_status f"
proof (induction n cur mem arbitrary: f rule: run.induct)
  case (1 cur mem)
  then show ?case by simp
next
  case (2 n cur mem)
  show ?case
  proof (cases "cur = nullptr")
    case True
    with "2.prems" show ?thesis by simp
  next
    case False
    with "2.prems"(1) obtain nxt mem1 where st: "step cur mem = Inr (nxt, mem1)"
      and r: "run n nxt mem1 = Inr m" by (rule run_Suc_Inr)
    obtain g where g: "mem1 k = Some g" using step_keeps(2) [OF st "2.prems"(2,3)] by blast
    with step_keeps(1) [OF st] "2.prems"(3) have "coro_status g = coro_status f" by fastforce
    with "2.IH" [OF False r step_avoids [OF "2.prems"(2) st] g] show ?thesis by auto
  qed
qed

lemma run_fuel_enough:
  "finite (dom mem) \<Longrightarrow> no_self_await mem \<Longrightarrow> work mem + 1 < n \<Longrightarrow> run n cur mem \<noteq> Inl Out_of_fuel"
proof (induction n cur mem rule: run.induct)
  case (1 cur mem)
  then show ?case by simp
next
  case (2 n cur mem)
  have nof: "step cur mem \<noteq> Inl Out_of_fuel"
    by (auto simp: step_def finish_await_def await_ready_def await_suspend_def await_resume_def
          destroy_def deref_def bindE_Inl_iff Let_def
        split: option.splits sum.splits if_splits elim!: exec_instr.elims)
  show ?case
  proof (cases "cur = nullptr")
    case True
    then show ?thesis by simp
  next
    case False
    show ?thesis
    proof (cases "step cur mem")
      case (Inl e)
      with nof False show ?thesis by simp
    next
      case (Inr r)
      then obtain nxt mem' where r: "step cur mem = Inr (nxt, mem')" by (cases r) auto
      from step_decreases [OF "2.prems"(1,2) r] have "work mem' + 1 < n" "finite (dom mem')"
        using "2.prems"(3) by auto
      with "2.IH" [OF False] step_avoids [OF "2.prems"(2) r] False r
      show ?thesis by simp
    qed
  qed
qed

section \<open>Properties\<close>


definition demo_memory :: "nat memory" where
  "demo_memory = [7 \<mapsto> set_state Coro_detach (new_frame [Co_await_task True 9, Co_return 1]),
                  9 \<mapsto> new_frame [Suspend, Co_return 5]]"

lemma demo_memory_wf: "finite (dom demo_memory)" "no_self_await demo_memory"
  by (auto simp: demo_memory_def avoids_def new_frame_def set_state_def split: if_splits)

lemma demo_memory_work: "work demo_memory = 10"
proof -
  have "dom demo_memory = {7, 9}" by (auto simp: demo_memory_def split: if_splits)
  then show ?thesis
    by (simp add: work_def) (simp add: demo_memory_def weight_def new_frame_def set_state_def)
qed



definition demo_pair :: "nat instr \<Rightarrow> nat memory" where
  "demo_pair i = [7 \<mapsto> new_frame [Co_await_task True 9, Co_return 1], 9 \<mapsto> new_frame [i]]"




end
