(* ===== verification/Engine.thy ===== *)
theory Engine
  imports Uring Task
begin

unbundle bit_operations_syntax

text \<open>
  \<open>coro::detail::engine\<close> (include/coro/engine.hpp, src/engine.cpp), the global and the I/O
  records it works with (include/coro/meta_info.hpp, include/coro/io/io_info.hpp), and the
  interface \<open>executor\<close> under which contexts and synchronisation components use it.

  The task queue is the third-party \<open>atomic_queue::AtomicQueueB2\<close>, which is not part of the
  repository: it is the argument \<open>Q\<close> of every operation that touches it, and what the code
  relies on is \<open>queue_laws\<close>.
\<close>

section \<open>The task queue\<close>

record 'q queue_ops =
  q_new :: 'q
  q_push :: "handle \<Rightarrow> 'q \<Rightarrow> 'q option"
  q_pop :: "'q \<Rightarrow> (handle \<times> 'q) option"
  q_was_size :: "'q \<Rightarrow> nat"
  q_was_empty :: "'q \<Rightarrow> bool"

definition kQueCap :: nat where
  "kQueCap = 16384"

text \<open>
  The documented behaviour of the queue, seen through its contents \<open>ql\<close>: first in, first out;
  a push into a full queue and a pop from an empty one spin (None).
\<close>

definition queue_laws :: "'q queue_ops \<Rightarrow> ('q \<Rightarrow> handle list) \<Rightarrow> bool" where
  "queue_laws Q ql \<longleftrightarrow>
     ql (q_new Q) = [] \<and>
     (\<forall>h q. q_push Q h q = None \<longleftrightarrow> kQueCap \<le> length (ql q)) \<and>
     (\<forall>h q q'. q_push Q h q = Some q' \<longrightarrow> ql q' = ql q @ [h]) \<and>
     (\<forall>q. q_pop Q q = None \<longleftrightarrow> ql q = []) \<and>
     (\<forall>q h q'. q_pop Q q = Some (h, q') \<longrightarrow> ql q = h # ql q') \<and>
     (\<forall>q. q_was_size Q q = length (ql q)) \<and>
     (\<forall>q. q_was_empty Q q \<longleftrightarrow> ql q = [])"

lemma queue_lawsD:
  assumes "queue_laws Q ql"
  shows "ql (q_new Q) = []" and "q_push Q h q = None \<longleftrightarrow> kQueCap \<le> length (ql q)"
    and "q_push Q h q = Some q' \<Longrightarrow> ql q' = ql q @ [h]"
    and "q_pop Q q = None \<longleftrightarrow> ql q = []" and "q_pop Q q = Some (h, q') \<Longrightarrow> ql q = h # ql q'"
    and "q_was_size Q q = length (ql q)" and "q_was_empty Q q \<longleftrightarrow> ql q = []"
  using assms by (simp_all add: queue_laws_def)

text \<open>A bounded list satisfies the laws.\<close>

definition list_queue :: "handle list queue_ops" where
  "list_queue = \<lparr>q_new = [],
     q_push = (\<lambda>h q. if length q < kQueCap then Some (q @ [h]) else None),
     q_pop = (\<lambda>q. case q of [] \<Rightarrow> None | h # hs \<Rightarrow> Some (h, hs)),
     q_was_size = length, q_was_empty = (\<lambda>q. q = [])\<rparr>"

lemma list_queue_laws: "queue_laws list_queue (\<lambda>q. q)"
  by (auto simp: queue_laws_def list_queue_def split: list.splits if_splits)

section \<open>Global and I/O records\<close>

record global_info =
  g_context_id :: "32 word"
  g_engine_id :: "32 word"

definition init_meta_info :: global_info where
  "init_meta_info = \<lparr>g_context_id = 0, g_engine_id = 0\<rparr>"

datatype io_type =
  Io_nop | Io_tcp_accept | Io_tcp_connect | Io_tcp_read | Io_tcp_write | Io_tcp_close
  | Io_stdin | Io_timer | Io_none

text \<open>The callbacks an \<open>io_info\<close> can hold, named after the awaiters that define them.\<close>

datatype io_callback =
  Noop_callback | Stdin_callback | Accept_callback | Read_callback | Write_callback
  | Close_callback | Connect_callback | Timer_callback

record io_info =
  info_handle :: handle
  info_result :: "32 word"
  info_type :: io_type
  info_data :: u64
  info_cb :: io_callback

record cqe =
  cqe_data :: addr
  cqe_res :: "32 word"

section \<open>Event flags\<close>

definition task_mask :: u64 where
  "task_mask = 0xFFFFF00000000000"

definition io_mask :: u64 where
  "io_mask = 0x00000FFFFF000000"

definition cqe_mask :: u64 where
  "cqe_mask = 0x0000000000FFFFFF"

definition task_flag :: u64 where
  "task_flag = push_bit 44 1"

definition io_flag :: u64 where
  "io_flag = push_bit 24 1"

definition wake_by_task :: "u64 \<Rightarrow> bool" where
  "wake_by_task val \<longleftrightarrow> 0 < val AND task_mask"

definition wake_by_io :: "u64 \<Rightarrow> bool" where
  "wake_by_io val \<longleftrightarrow> 0 < val AND io_mask"

definition wake_by_cqe :: "u64 \<Rightarrow> bool" where
  "wake_by_cqe val \<longleftrightarrow> 0 < val AND cqe_mask"

section \<open>State\<close>

record 'q engine =
  m_id :: "32 word"
  m_upxy :: uring_proxy
  m_task_queue :: 'q
  m_num_io_wait_submit :: u64
  m_num_io_running :: u64

text \<open>
  What the thread of an engine works on: the engine, the coroutine frames, the \<open>io_info\<close>
  objects of pending I/O.
\<close>

record ('q, 'v) local =
  egn :: "'q engine"
  frames :: "'v memory"
  infos :: "addr \<Rightarrow> io_info"

section \<open>Operations of the engine alone\<close>

definition new_engine :: "'q queue_ops \<Rightarrow> uring_proxy \<Rightarrow> global_info \<Rightarrow> 'q engine \<times> global_info" where
  "new_engine Q p g =
     (case fetch_add (g_engine_id g) 1 of (i, nxt) \<Rightarrow>
       (\<lparr>m_id = i, m_upxy = p, m_task_queue = q_new Q,
         m_num_io_wait_submit = 0, m_num_io_running = 0\<rparr>, g\<lparr>g_engine_id := nxt\<rparr>))"

definition engine_init :: "bool \<Rightarrow> init_answers \<Rightarrow> 'q engine \<Rightarrow> 'q engine res" where
  "engine_init fixfd ans e =
     (let e1 = e\<lparr>m_num_io_running := 0, m_num_io_wait_submit := 0\<rparr> in
      bindE (uring_init fixfd kEntryLength ans (m_upxy e1)) (\<lambda>p. Inr (e1\<lparr>m_upxy := p\<rparr>)))"

definition engine_deinit :: "bool \<Rightarrow> 'q queue_ops \<Rightarrow> 'q engine \<Rightarrow> 'q engine" where
  "engine_deinit fixfd Q e =
     (let e1 = e\<lparr>m_upxy := uring_deinit fixfd (m_upxy e)\<rparr>;
          e2 = e1\<lparr>m_num_io_running := 0, m_num_io_wait_submit := 0\<rparr> in
      e2\<lparr>m_task_queue := q_new Q\<rparr>)"

definition ready :: "'q queue_ops \<Rightarrow> 'q engine \<Rightarrow> bool" where
  "ready Q e \<longleftrightarrow> \<not> q_was_empty Q (m_task_queue e)"

definition num_task_schedule :: "'q queue_ops \<Rightarrow> 'q engine \<Rightarrow> nat" where
  "num_task_schedule Q e = q_was_size Q (m_task_queue e)"

definition schedule :: "'q queue_ops \<Rightarrow> 'q engine \<Rightarrow> (handle \<times> 'q engine) res" where
  "schedule Q e =
     (case q_pop Q (m_task_queue e) of
        None \<Rightarrow> Inl Would_block
      | Some (coro, q) \<Rightarrow>
          bindE (assertE (coro \<noteq> nullptr)) (\<lambda>_. Inr (coro, e\<lparr>m_task_queue := q\<rparr>)))"

definition wake_up :: "u64 \<Rightarrow> 'q engine \<Rightarrow> 'q engine res" where
  "wake_up val e = bindE (write_eventfd val (m_upxy e)) (\<lambda>p. Inr (e\<lparr>m_upxy := p\<rparr>))"

definition submit_task :: "'q queue_ops \<Rightarrow> handle \<Rightarrow> 'q engine \<Rightarrow> 'q engine res" where
  "submit_task Q h e =
     bindE (assertE (h \<noteq> nullptr)) (\<lambda>_.
       case q_push Q h (m_task_queue e) of
         None \<Rightarrow> Inl Would_block
       | Some q \<Rightarrow> wake_up task_flag (e\<lparr>m_task_queue := q\<rparr>))"

definition do_io_submit :: "'q engine \<Rightarrow> 'q engine" where
  "do_io_submit e =
     (if 0 < m_num_io_wait_submit e then
        e\<lparr>m_upxy := uring_submit (m_upxy e),
          m_num_io_running := m_num_io_running e + m_num_io_wait_submit e,
          m_num_io_wait_submit := 0\<rparr>
      else e)"

definition add_io_submit :: "'q engine \<Rightarrow> 'q engine" where
  "add_io_submit e = e\<lparr>m_num_io_wait_submit := m_num_io_wait_submit e + 1\<rparr>"

definition empty_io :: "'q engine \<Rightarrow> bool" where
  "empty_io e \<longleftrightarrow> m_num_io_wait_submit e = 0 \<and> m_num_io_running e = 0"

section \<open>Operations that run coroutines and callbacks\<close>

text \<open>
  \<open>resume\<close> is the effect of \<open>coro.resume()\<close>, that is, of user code; the two reads after it
  (\<open>done()\<close>, the promise in \<open>clean\<close>) touch the frame again.
\<close>

definition exec_handle ::
    "(handle \<Rightarrow> ('q, 'v, 'm) local_scheme \<Rightarrow> ('q, 'v, 'm) local_scheme res) \<Rightarrow>
     handle \<Rightarrow> ('q, 'v, 'm) local_scheme \<Rightarrow> ('q, 'v, 'm) local_scheme res" where
  "exec_handle resume coro s =
     bindE (resume coro s) (\<lambda>s1.
     bindE (deref coro (frames s1)) (\<lambda>f.
       if at_final_suspend f
       then bindE (clean coro (frames s1)) (\<lambda>m. Inr (s1\<lparr>frames := m\<rparr>))
       else Inr s1))"

definition exec_one_task ::
    "'q queue_ops \<Rightarrow> (handle \<Rightarrow> ('q, 'v, 'm) local_scheme \<Rightarrow> ('q, 'v, 'm) local_scheme res) \<Rightarrow>
     ('q, 'v, 'm) local_scheme \<Rightarrow> ('q, 'v, 'm) local_scheme res" where
  "exec_one_task Q resume s =
     bindE (schedule Q (egn s)) (\<lambda>(coro, e). exec_handle resume coro (s\<lparr>egn := e\<rparr>))"

text \<open>The effect of a coroutine that only runs the given bodies.\<close>

definition resume_frames :: "nat \<Rightarrow> handle \<Rightarrow> ('q, 'v, 'm) local_scheme \<Rightarrow> ('q, 'v, 'm) local_scheme res" where
  "resume_frames fuel h s = bindE (run fuel h (frames s)) (\<lambda>m. Inr (s\<lparr>frames := m\<rparr>))"

definition handle_cqe_entry ::
    "(io_callback \<Rightarrow> addr \<Rightarrow> 32 word \<Rightarrow> ('q, 'v, 'm) local_scheme \<Rightarrow> ('q, 'v, 'm) local_scheme res) \<Rightarrow>
     cqe \<Rightarrow> ('q, 'v, 'm) local_scheme \<Rightarrow> ('q, 'v, 'm) local_scheme res" where
  "handle_cqe_entry invoke c s =
     (if cqe_data c = nullptr then Inl Dangling
      else invoke (info_cb (infos s (cqe_data c))) (cqe_data c) (cqe_res c) s)"

fun handle_cqes ::
    "(io_callback \<Rightarrow> addr \<Rightarrow> 32 word \<Rightarrow> ('q, 'v, 'm) local_scheme \<Rightarrow> ('q, 'v, 'm) local_scheme res) \<Rightarrow>
     cqe list \<Rightarrow> ('q, 'v, 'm) local_scheme \<Rightarrow> ('q, 'v, 'm) local_scheme res" where
  "handle_cqes invoke [] s = Inr s"
| "handle_cqes invoke (c # cs) s = bindE (handle_cqe_entry invoke c s) (handle_cqes invoke cs)"

text \<open>
  \<open>poll_submit\<close>: \<open>cnt\<close> is the value read from the eventfd, \<open>cqes\<close> what
  \<open>io_uring_peek_batch_cqe\<close> stored into \<open>m_urc\<close>, an array of \<open>kQueCap\<close> pointers; more
  entries than that are written outside the array.
\<close>

definition poll_submit ::
    "(io_callback \<Rightarrow> addr \<Rightarrow> 32 word \<Rightarrow> ('q, 'v, 'm) local_scheme \<Rightarrow> ('q, 'v, 'm) local_scheme res) \<Rightarrow>
     u64 \<Rightarrow> cqe list \<Rightarrow> ('q, 'v, 'm) local_scheme \<Rightarrow> ('q, 'v, 'm) local_scheme res" where
  "poll_submit invoke cnt cqes s =
     (let s1 = s\<lparr>egn := do_io_submit (egn s)\<rparr> in
      bindE (wait_eventfd cnt (m_upxy (egn s1))) (\<lambda>u.
        if \<not> wake_by_cqe u then Inr s1
        else let num = length cqes in
          if kQueCap < num then Inl Out_of_range
          else if num \<noteq> 0 then
            bindE (handle_cqes invoke cqes s1) (\<lambda>s2.
              Inr (s2\<lparr>egn := (egn s2)\<lparr>m_upxy := cq_advance num (m_upxy (egn s2)),
                     m_num_io_running := m_num_io_running (egn s2) - word_of_nat num\<rparr>\<rparr>))
          else Inr s1))"

section \<open>The interface of an executor\<close>

text \<open>Submitting several handles, one after the other.\<close>

fun submit_each :: "(handle \<Rightarrow> 'c \<Rightarrow> 'c res) \<Rightarrow> handle list \<Rightarrow> 'c \<Rightarrow> 'c res" where
  "submit_each submit [] c = Inr c"
| "submit_each submit (h # hs) c = bindE (submit h c) (submit_each submit hs)"

locale executor =
  fixes submit :: "handle \<Rightarrow> 'c \<Rightarrow> 'c res"
    and pending :: "'c \<Rightarrow> handle list"
    and running :: "'c \<Rightarrow> bool"
    and capacity :: nat
  assumes submit_accepts: "running c \<Longrightarrow> h \<noteq> nullptr \<Longrightarrow> length (pending c) < capacity \<Longrightarrow>
      \<exists>c'. submit h c = Inr c'"
    and submit_appends: "running c \<Longrightarrow> submit h c = Inr c' \<Longrightarrow>
      running c' \<and> pending c' = pending c @ [h]"
    and submit_null: "submit nullptr c = Inl Assertion"
    and submit_full: "running c \<Longrightarrow> h \<noteq> nullptr \<Longrightarrow> capacity \<le> length (pending c) \<Longrightarrow>
      submit h c = Inl Would_block"
begin

lemma submit_each_appends:
  "running c \<Longrightarrow> submit_each submit hs c = Inr c' \<Longrightarrow> running c' \<and> pending c' = pending c @ hs"
proof (induction hs arbitrary: c)
  case Nil
  then show ?case by simp
next
  case (Cons h hs)
  then show ?case by (fastforce simp: bindE_Inr_iff dest: submit_appends)
qed

lemma submit_each_accepts:
  "running c \<Longrightarrow> nullptr \<notin> set hs \<Longrightarrow> length (pending c) + length hs \<le> capacity \<Longrightarrow>
   \<exists>c'. submit_each submit hs c = Inr c'"
proof (induction hs arbitrary: c)
  case Nil
  then show ?case by simp
next
  case (Cons h hs)
  then obtain c1 where c1: "submit h c = Inr c1" using submit_accepts [of c h] by auto
  with Cons.prems submit_appends [of c h c1]
  have "running c1" "length (pending c1) + length hs \<le> capacity" by auto
  with Cons.IH [of c1] Cons.prems c1 show ?case by simp
qed

end

lemmas engine_defs =
  ready_def num_task_schedule_def schedule_def wake_up_def submit_task_def do_io_submit_def
  add_io_submit_def empty_io_def write_eventfd_def wait_eventfd_def kcall_def uring_submit_def
  cq_advance_def

definition engine_running :: "'q queue_ops \<Rightarrow> ('q \<Rightarrow> handle list) \<Rightarrow> 'q engine \<Rightarrow> bool" where
  "engine_running Q ql e \<longleftrightarrow> queue_laws Q ql \<and> m_efd (m_upxy e) \<noteq> -1"

lemma submit_task_Inr:
  "submit_task Q h e = Inr e' \<longleftrightarrow>
     h \<noteq> nullptr \<and> m_efd (m_upxy e) \<noteq> -1 \<and>
     (\<exists>q. q_push Q h (m_task_queue e) = Some q \<and>
       e' = e\<lparr>m_task_queue := q, m_upxy := kcall (Eventfd_write task_flag) (m_upxy e)\<rparr>)"
  by (auto simp: submit_task_def wake_up_def write_eventfd_def bindE_Inr_iff split: option.splits)

lemma kcall_simps [simp]:
  "m_efd (kcall c p) = m_efd p" "kcalls (kcall c p) = kcalls p @ [c]"
  "m_fds (kcall c p) = m_fds p" "m_null_fds (kcall c p) = m_null_fds p"
  by (simp_all add: kcall_def)

interpretation eng: executor "submit_task Q" "\<lambda>e. ql (m_task_queue e)" "engine_running Q ql" kQueCap
  for Q ql
proof unfold_locales
  fix c h c'
  assume r: "engine_running Q ql c"
  then have L: "queue_laws Q ql" by (simp add: engine_running_def)
  { assume "h \<noteq> nullptr" and "length (ql (m_task_queue c)) < kQueCap"
    then have "q_push Q h (m_task_queue c) \<noteq> None" using queue_lawsD(2) [OF L] by simp
    then show "\<exists>c'. submit_task Q h c = Inr c'"
      using r \<open>h \<noteq> nullptr\<close> by (auto simp: submit_task_Inr engine_running_def) }
  { assume "submit_task Q h c = Inr c'"
    then show "engine_running Q ql c' \<and> ql (m_task_queue c') = ql (m_task_queue c) @ [h]"
      using r queue_lawsD(3) [OF L] by (auto simp: submit_task_Inr engine_running_def) }
  { assume "h \<noteq> nullptr" and "kQueCap \<le> length (ql (m_task_queue c))"
    then show "submit_task Q h c = Inl Would_block"
      using queue_lawsD(2) [OF L, of h "m_task_queue c"] by (simp add: submit_task_def) }
next
  show "submit_task Q nullptr c = Inl Assertion" for c by (simp add: submit_task_def)
qed

section \<open>Lemmas\<close>

lemma submit_each_trace:
  "submit_each (submit_task Q) hs e = Inr e' \<Longrightarrow>
     kcalls (m_upxy e') = kcalls (m_upxy e) @ replicate (length hs) (Eventfd_write task_flag) \<and>
     m_num_io_wait_submit e' = m_num_io_wait_submit e \<and>
     m_num_io_running e' = m_num_io_running e \<and> m_id e' = m_id e"
proof (induction hs arbitrary: e)
  case Nil
  then show ?case by simp
next
  case (Cons h hs)
  then show ?case
    by (fastforce simp: bindE_Inr_iff submit_task_Inr)
qed

fun schedule_n :: "'q queue_ops \<Rightarrow> nat \<Rightarrow> 'q engine \<Rightarrow> (handle list \<times> 'q engine) res" where
  "schedule_n Q 0 e = Inr ([], e)"
| "schedule_n Q (Suc n) e =
     bindE (schedule Q e) (\<lambda>(h, e1). bindE (schedule_n Q n e1) (\<lambda>(hs, e2). Inr (h # hs, e2)))"

lemma schedule_pops:
  assumes L: "queue_laws Q ql" and "ql (m_task_queue e) = h # hs" and "h \<noteq> nullptr"
  shows "\<exists>q. schedule Q e = Inr (h, e\<lparr>m_task_queue := q\<rparr>) \<and> ql q = hs"
proof -
  obtain h' q where q: "q_pop Q (m_task_queue e) = Some (h', q)"
    using queue_lawsD(4) [OF L, of "m_task_queue e"] assms(2) by (cases "q_pop Q (m_task_queue e)") auto
  from queue_lawsD(5) [OF L q] assms(2) have "h' = h" "ql q = hs" by simp_all
  with q assms(3) show ?thesis by (auto simp: schedule_def)
qed

lemma schedule_n_all:
  assumes L: "queue_laws Q ql"
  shows "ql (m_task_queue e) = hs \<Longrightarrow> nullptr \<notin> set hs \<Longrightarrow>
    \<exists>e'. schedule_n Q (length hs) e = Inr (hs, e') \<and> ql (m_task_queue e') = []"
proof (induction hs arbitrary: e)
  case Nil
  then show ?case by simp
next
  case (Cons h hs)
  then obtain q where q: "schedule Q e = Inr (h, e\<lparr>m_task_queue := q\<rparr>)" "ql q = hs"
    using schedule_pops [OF L, of e h hs] by auto
  from Cons.IH [of "e\<lparr>m_task_queue := q\<rparr>"] Cons.prems q show ?case by auto
qed

text \<open>The bits of a field of the event counter.\<close>

lemma field_nonzero:
  fixes N :: nat
  assumes "n + m \<le> 64"
  shows "(word_of_nat N AND push_bit n (mask m) :: u64) \<noteq> 0 \<longleftrightarrow> (N div 2 ^ n) mod 2 ^ m \<noteq> 0"
proof -
  have "(word_of_nat N AND push_bit n (mask m) :: u64) = 0 \<longleftrightarrow> take_bit m (drop_bit n N) = 0"
    (is "?l \<longleftrightarrow> ?r")
  proof
    assume l: ?l
    show ?r
    proof (rule bit_eqI)
      fix j
      have "\<not> (j < m \<and> bit N (n + j))"
        using l assms
        by (auto simp: bit_eq_iff bit_and_iff bit_push_bit_iff bit_mask_iff bit_of_nat_iff
            dest!: spec [of _ "n + j"])
      then show "bit (take_bit m (drop_bit n N)) j = bit 0 j"
        by (auto simp: bit_take_bit_iff bit_drop_bit_eq)
    qed
  next
    assume r: ?r
    show ?l
    proof (rule bit_eqI)
      fix k
      have "\<not> (n \<le> k \<and> k - n < m \<and> bit N k)"
        using r by (auto simp: bit_eq_iff bit_take_bit_iff bit_drop_bit_eq dest!: spec [of _ "k - n"])
      then show "bit (word_of_nat N AND push_bit n (mask m) :: u64) k = bit 0 k"
        by (auto simp: bit_and_iff bit_push_bit_iff bit_mask_iff bit_of_nat_iff)
    qed
  qed
  then show ?thesis by (simp add: take_bit_eq_mod drop_bit_eq_div)
qed

lemma masks_as_fields:
  "task_mask = push_bit 44 (mask 20)" "io_mask = push_bit 24 (mask 20)" "cqe_mask = push_bit 0 (mask 24)"
  by (simp_all add: task_mask_def io_mask_def cqe_mask_def mask_eq_exp_minus_1 push_bit_eq_mult)

lemma wake_word: "(0 :: u64) < w \<longleftrightarrow> w \<noteq> 0"
  by (rule word_neq_0_conv [symmetric])

section \<open>Properties\<close>


definition demo_engine :: "handle list engine" where
  "demo_engine = \<lparr>m_id = 0, m_upxy = demo_proxy, m_task_queue = [],
     m_num_io_wait_submit = 0, m_num_io_running = 0\<rparr>"


text \<open>
  The three kinds of events share one 64-bit eventfd counter without getting mixed up: the
  masks partition the word, the flags lie in their own field, and as long as a counter holds
  fewer than \<open>2 ^ 20\<close> task and I/O flags and fewer than \<open>2 ^ 24\<close> completions, each
  \<open>wake_by\<close> test answers whether events of its kind are in it.
\<close>

lemma eventfd_fields:
  assumes "t < 2 ^ 20" "i < 2 ^ 20" "c < 2 ^ 24"
    and "v = word_of_nat t * task_flag + word_of_nat i * io_flag + word_of_nat c"
  shows "(wake_by_task v \<longleftrightarrow> 0 < t) \<and> (wake_by_io v \<longleftrightarrow> 0 < i) \<and> (wake_by_cqe v \<longleftrightarrow> 0 < c)"
proof -
  let ?N = "t * 2 ^ 44 + i * 2 ^ 24 + c"
  have v: "v = word_of_nat ?N"
    by (simp add: assms(4) task_flag_def io_flag_def push_bit_eq_mult)
  have N: "?N = c + (t * 2 ^ 20 + i) * 2 ^ 24" by simp
  have e: "?N div 2 ^ 24 = t * 2 ^ 20 + i" "?N mod 2 ^ 24 = c"
    unfolding N using assms(3) by (simp_all only: div_mult_self1 mod_mult_self1 power_eq_0_iff
        div_less mod_less) simp_all
  have "?N div 2 ^ 44 = ?N div 2 ^ 24 div 2 ^ 20" by (simp add: div_mult2_eq [symmetric])
  then have t: "?N div 2 ^ 44 = t" unfolding e using assms(2) by simp
  have "wake_by_task v \<longleftrightarrow> 0 < t"
    unfolding wake_by_task_def wake_word v masks_as_fields
    using field_nonzero [of 44 20 ?N] t assms(1) by simp
  moreover have "wake_by_io v \<longleftrightarrow> 0 < i"
    unfolding wake_by_io_def wake_word v masks_as_fields
    using field_nonzero [of 24 20 ?N] e assms(2) by simp
  moreover have "wake_by_cqe v \<longleftrightarrow> 0 < c"
    unfolding wake_by_cqe_def wake_word v masks_as_fields
    using field_nonzero [of 0 24 ?N] e by simp
  ultimately show ?thesis by blast
qed

lemma eventfd_fields_witness:
  "wake_by_task (word_of_nat 3 * task_flag + word_of_nat 0 * io_flag + word_of_nat 7) \<and>
   \<not> wake_by_io (word_of_nat 3 * task_flag + word_of_nat 0 * io_flag + word_of_nat 7)"
  using eventfd_fields [of 3 0 7, OF _ _ _ refl] by simp

text \<open>
  The engine runs a coroutine that nobody awaits correctly: if its resumption returns, the
  reads of its frame afterwards are safe, the frame is freed if and only if the coroutine is done
  and detached, and every other result of the resumption is kept.
\<close>

lemma exec_task_cleans:
  assumes "run fuel h (frames s) = Inr m" and "frames s h = Some f" and "unreferenced h (frames s)"
  shows "\<exists>g. m h = Some g \<and>
    exec_handle (resume_frames fuel) h s =
      Inr (s\<lparr>frames := if at_final_suspend g \<and> coro_status f = Coro_detach then m(h := None) else m\<rparr>)"
proof -
  obtain g where g: "m h = Some g" "coro_status g = coro_status f"
    using run_keeps [OF assms(1,3,2)] by blast
  then show ?thesis
    using assms(1)
    by (auto simp: exec_handle_def resume_frames_def clean_def destroy_def split: coro_state.splits)
qed

definition demo_infos :: "addr \<Rightarrow> io_info" where
  "demo_infos = (\<lambda>_. \<lparr>info_handle = 0, info_result = 0, info_type = Io_none, info_data = 0,
                info_cb = Noop_callback\<rparr>)"

definition demo_local :: "'v memory \<Rightarrow> (handle list, 'v) local" where
  "demo_local m = \<lparr>egn = demo_engine, frames = m, infos = demo_infos\<rparr>"

definition demo_detached :: "nat memory" where
  "demo_detached = [7 \<mapsto> set_state Coro_detach (new_frame [Co_return 1])]"

lemma demo_detached_run:
  "\<exists>m. run 2 7 demo_detached = Inr m \<and> (\<exists>g. m 7 = Some g \<and> at_final_suspend g)"
  by (simp add: demo_detached_def numeral_2_eq_2 step_def new_frame_def set_state_def complete_def
      final_await_suspend_def)

lemma exec_task_cleans_witness:
  "\<exists>s'. exec_handle (resume_frames 2) 7 (demo_local demo_detached) = Inr s' \<and> frames s' 7 = None"
proof -
  obtain m g where m: "run 2 7 demo_detached = Inr m" "m 7 = Some g" "at_final_suspend g"
    using demo_detached_run by blast
  have f: "demo_detached 7 = Some (set_state Coro_detach (new_frame [Co_return 1]))"
    by (simp add: demo_detached_def)
  have u: "unreferenced 7 demo_detached"
    by (auto simp: demo_detached_def avoids_def new_frame_def set_state_def split: if_splits)
  from exec_task_cleans [of 2 7 "demo_local demo_detached" m] m f u show ?thesis
    by (auto simp: demo_local_def set_state_def)
qed

text \<open>
  C34. The engine is wrong about a child that suspended inside a \<open>co_await\<close>: when its
  completion resumes the parent, the parent destroys the temporary child (if it is one) and may
  itself finish, all within one \<open>resume()\<close>. For a temporary the following \<open>done()\<close>
  reads a destroyed frame; for a child that is owned elsewhere the read is safe, but the detached
  parent, although done, is never cleaned, because \<open>clean\<close> looks at the child only.
\<close>

theorem exec_child_completion:
  assumes "mem p = Some P" "mem c = Some C" "p \<noteq> c" "p \<noteq> nullptr" "c \<noteq> nullptr"
    and "awaiting P = Some (temporary, c)" "body P = []" "m_continuation P = nullptr"
    and "\<not> at_final_suspend P" "coro_status P = Coro_detach"
    and "awaiting C = None" "body C = Co_return v # b" "m_continuation C = p"
    and "\<not> at_final_suspend C" "coro_status C = Coro_normal" "frames s = mem"
  shows "(temporary \<longrightarrow> exec_handle (resume_frames (4 + n)) c s = Inl Dangling) \<and>
         (\<not> temporary \<longrightarrow> (\<exists>s' P'. exec_handle (resume_frames (4 + n)) c s = Inr s' \<and>
           frames s' p = Some P' \<and> at_final_suspend P' \<and> coro_status P' = Coro_detach))"
proof -
  have four: "4 + n = Suc (Suc (Suc (Suc n)))" by simp
  have "temporary \<longrightarrow> exec_handle (resume_frames (4 + n)) c s = Inl Dangling"
    using assms
    by (simp add: four exec_handle_def resume_frames_def step_def complete_def
        final_await_suspend_def finish_await_def await_resume_def destroy_def container_defs)
  moreover have "\<not> temporary \<longrightarrow> (\<exists>s' P'. exec_handle (resume_frames (4 + n)) c s = Inr s' \<and>
           frames s' p = Some P' \<and> at_final_suspend P' \<and> coro_status P' = Coro_detach)"
    using assms
    by (simp add: four exec_handle_def resume_frames_def step_def complete_def clean_def
        final_await_suspend_def finish_await_def await_resume_def destroy_def container_defs)
  ultimately show ?thesis by blast
qed

text \<open>
  The state the theorem is about is the one the program reaches: a detached parent that awaits a
  child, run once by the engine, which suspends in the child.
\<close>

definition demo_nested :: "bool \<Rightarrow> nat memory" where
  "demo_nested temporary =
     [7 \<mapsto> set_state Coro_detach (new_frame [Co_await_task temporary 9]),
      9 \<mapsto> new_frame [Suspend, Co_return 5]]"

theorem exec_child_completion_witness:
  "\<exists>s1. exec_handle (resume_frames 3) 7 (demo_local (demo_nested True)) = Inr s1 \<and>
        exec_handle (resume_frames (4 + 0)) 9 s1 = Inl Dangling"
proof -
  define P :: "nat frame" where
    "P = (set_state Coro_detach (new_frame []))\<lparr>awaiting := Some (True, 9)\<rparr>"
  define C :: "nat frame" where "C = continuation 7 (new_frame [Co_return 5])"
  let ?s1 = "(demo_local (demo_nested True))\<lparr>frames := [7 \<mapsto> P, 9 \<mapsto> C]\<rparr>"
  have m: "(demo_nested True)(7 \<mapsto> P, 9 \<mapsto> continuation 7 (new_frame [Suspend, Co_return 5]), 9 \<mapsto> C)
      = [7 \<mapsto> P, 9 \<mapsto> C]"
    by (rule ext) (simp add: demo_nested_def)
  have "run 3 7 (demo_nested True) = Inr [7 \<mapsto> P, 9 \<mapsto> C]"
    using m
    by (simp add: demo_nested_def numeral_3_eq_3 step_def await_ready_def await_suspend_def
        new_frame_def set_state_def continuation_def P_def C_def)
  then have one: "exec_handle (resume_frames 3) 7 (demo_local (demo_nested True)) = Inr ?s1"
    by (simp add: exec_handle_def resume_frames_def demo_local_def P_def new_frame_def set_state_def)
  have "exec_handle (resume_frames (4 + 0)) 9 ?s1 = Inl Dangling"
    by (rule exec_child_completion [where p = 7 and P = P and C = C and temporary = True
          and mem = "[7 \<mapsto> P, 9 \<mapsto> C]" and v = 5 and b = "[]", THEN conjunct1, THEN mp])
       (simp_all add: P_def C_def new_frame_def set_state_def continuation_def)
  with one show ?thesis by blast
qed

fun add_io_times :: "nat \<Rightarrow> 'q engine \<Rightarrow> 'q engine" where
  "add_io_times 0 e = e"
| "add_io_times (Suc n) e = add_io_times n (add_io_submit e)"

lemma add_io_times_eq:
  "add_io_times n e = e\<lparr>m_num_io_wait_submit := m_num_io_wait_submit e + word_of_nat n\<rparr>"
  by (induction n arbitrary: e) (simp_all add: add_io_submit_def algebra_simps)

text \<open>
  \<open>poll_submit\<close> can write outside \<open>m_urc\<close>: it asks the kernel for up to
  \<open>m_num_io_running\<close> completions but the array has \<open>kQueCap\<close> entries. Two rounds that each
  submit a full submission queue leave 20480 requests in flight, so a batch of 16385 completions
  is within what is asked for, and it overruns the array.
\<close>

lemma batch_overruns_array:
  assumes "m_num_io_wait_submit e = 0" "m_num_io_running e = 0" "m_efd (m_upxy e) \<noteq> -1"
    and "e2 = do_io_submit (add_io_times kEntryLength (do_io_submit (add_io_times kEntryLength e)))"
    and "egn s = e2" and "wake_by_cqe cnt" and "length cqes = kQueCap + 1"
  shows "length cqes \<le> unat (m_num_io_running e2) \<and>
         poll_submit invoke cnt cqes s = Inl Out_of_range"
proof -
  have run2: "m_num_io_running e2 = 20480" and wait2: "m_num_io_wait_submit e2 = 0"
    and efd: "m_efd (m_upxy e2) \<noteq> -1"
    using assms(1-4)
    by (simp_all add: add_io_times_eq do_io_submit_def kEntryLength_def uring_submit_def)
  then have "length cqes \<le> unat (m_num_io_running e2)" using assms(7) by (simp add: kQueCap_def)
  moreover have "poll_submit invoke cnt cqes s = Inl Out_of_range"
    using efd wait2 assms(5-7)
    by (simp add: poll_submit_def do_io_submit_def wait_eventfd_def)
  ultimately show ?thesis ..
qed

lemma batch_overruns_array_witness:
  "\<exists>s cqes. length cqes \<le> 20480 \<and>
     poll_submit (\<lambda>_ _ _ s. Inr s) 1 cqes (s :: (handle list, nat) local) = Inl Out_of_range"
proof -
  define e2 where
    "e2 = do_io_submit (add_io_times kEntryLength (do_io_submit (add_io_times kEntryLength demo_engine)))"
  let ?s = "(demo_local Map.empty :: (handle list, nat) local)\<lparr>egn := e2\<rparr>"
  let ?cqes = "replicate (kQueCap + 1) \<lparr>cqe_data = 1, cqe_res = 0\<rparr>"
  have "poll_submit (\<lambda>_ _ _ s. Inr s) 1 ?cqes ?s = Inl Out_of_range"
    by (rule batch_overruns_array [where e = demo_engine, OF _ _ _ e2_def, THEN conjunct2])
       (simp_all add: demo_engine_def demo_proxy_def wake_by_cqe_def cqe_mask_def)
  moreover have "length ?cqes \<le> 20480" by (simp add: kQueCap_def)
  ultimately show ?thesis by blast
qed

end
