(* ===== verification/Context.thy ===== *)
theory Context
  imports Engine
begin

text \<open>
  \<open>coro::context\<close> (include/coro/context.hpp, src/context.cpp): a worker thread around an
  engine. A context extends the thread state of its engine by the count of waiting coroutines,
  the stop callback and the stop state of its \<open>jthread\<close>.
\<close>

section \<open>State\<close>

text \<open>
  What \<open>m_stop_cb\<close> holds: nothing, the closure installed by \<open>start\<close> (request a stop of
  the own thread), or the closure the scheduler installs for context \<open>i\<close>.
\<close>

datatype stop_cb = No_callback | Request_stop | Scheduler_callback nat

record ('q, 'v) coro_context = "('q, 'v) local" +
  m_ctx_id :: "32 word"
  m_num_wait_task :: u64
  m_stop_cb :: stop_cb
  m_job_started :: bool
  stop_requested :: bool
  linfo_ctx :: bool

section \<open>Operations\<close>

definition new_context ::
    "'q queue_ops \<Rightarrow> uring_proxy \<Rightarrow> (addr \<Rightarrow> io_info) \<Rightarrow> global_info \<Rightarrow> ('q, 'v) coro_context \<times> global_info" where
  "new_context Q p io g =
     (case new_engine Q p g of (e, g1) \<Rightarrow>
      case fetch_add (g_context_id g1) 1 of (i, nxt) \<Rightarrow>
        (\<lparr>egn = e, frames = Map.empty, infos = io, m_ctx_id = i, m_num_wait_task = 0,
          m_stop_cb = No_callback, m_job_started = False, stop_requested = False,
          linfo_ctx = False\<rparr>, g1\<lparr>g_context_id := nxt\<rparr>))"

text \<open>\<open>linfo_ctx\<close>: whether the thread-local pointer of the worker thread names this context.\<close>

definition context_init :: "bool \<Rightarrow> init_answers \<Rightarrow> ('q, 'v) coro_context \<Rightarrow> ('q, 'v) coro_context res" where
  "context_init fixfd ans c =
     bindE (engine_init fixfd ans (egn c)) (\<lambda>e. Inr (c\<lparr>linfo_ctx := True, egn := e\<rparr>))"

definition context_deinit :: "bool \<Rightarrow> 'q queue_ops \<Rightarrow> ('q, 'v) coro_context \<Rightarrow> ('q, 'v) coro_context" where
  "context_deinit fixfd Q c = c\<lparr>linfo_ctx := False, egn := engine_deinit fixfd Q (egn c)\<rparr>"

definition context_submit :: "'q queue_ops \<Rightarrow> handle \<Rightarrow> ('q, 'v) coro_context \<Rightarrow> ('q, 'v) coro_context res" where
  "context_submit Q h c = bindE (submit_task Q h (egn c)) (\<lambda>e. Inr (c\<lparr>egn := e\<rparr>))"

text \<open>\<open>submit_task(task<void>&&)\<close>: the task object lets go of its frame, which is then submitted.\<close>

definition context_submit_task_rvalue ::
    "'q queue_ops \<Rightarrow> handle \<Rightarrow> ('q, 'v) coro_context \<Rightarrow> (handle \<times> ('q, 'v) coro_context) res" where
  "context_submit_task_rvalue Q t c =
     bindE (task_detach t (frames c)) (\<lambda>(t', m).
     bindE (context_submit Q t (c\<lparr>frames := m\<rparr>)) (\<lambda>c1. Inr (t', c1)))"

text \<open>The counter is unsigned, the argument an \<open>int\<close>: it is converted modulo \<open>2 ^ 64\<close>.\<close>

definition register_wait :: "int \<Rightarrow> ('q, 'v) coro_context \<Rightarrow> ('q, 'v) coro_context" where
  "register_wait register_cnt c =
     c\<lparr>m_num_wait_task := snd (fetch_add (m_num_wait_task c) (word_of_int register_cnt))\<rparr>"

definition unregister_wait :: "int \<Rightarrow> ('q, 'v) coro_context \<Rightarrow> ('q, 'v) coro_context" where
  "unregister_wait register_cnt c =
     c\<lparr>m_num_wait_task := snd (fetch_sub (m_num_wait_task c) (word_of_int register_cnt))\<rparr>"

definition set_stop_cb :: "stop_cb \<Rightarrow> ('q, 'v) coro_context \<Rightarrow> ('q, 'v) coro_context" where
  "set_stop_cb cb c = c\<lparr>m_stop_cb := cb\<rparr>"

definition request_stop :: "('q, 'v) coro_context \<Rightarrow> ('q, 'v) coro_context res" where
  "request_stop c = (if m_job_started c then Inr (c\<lparr>stop_requested := True\<rparr>) else Inl Dangling)"

definition notify_stop :: "('q, 'v) coro_context \<Rightarrow> ('q, 'v) coro_context res" where
  "notify_stop c =
     bindE (request_stop c) (\<lambda>c1.
     bindE (wake_up 1 (egn c1)) (\<lambda>e. Inr (c1\<lparr>egn := e\<rparr>)))"

fun exec_times ::
    "'q queue_ops \<Rightarrow> (handle \<Rightarrow> ('q, 'v, 'm) local_scheme \<Rightarrow> ('q, 'v, 'm) local_scheme res) \<Rightarrow>
     nat \<Rightarrow> ('q, 'v, 'm) local_scheme \<Rightarrow> ('q, 'v, 'm) local_scheme res" where
  "exec_times Q resume 0 s = Inr s"
| "exec_times Q resume (Suc n) s = bindE (exec_one_task Q resume s) (exec_times Q resume n)"

definition process_work ::
    "'q queue_ops \<Rightarrow> (handle \<Rightarrow> ('q, 'v, 'm) local_scheme \<Rightarrow> ('q, 'v, 'm) local_scheme res) \<Rightarrow>
     ('q, 'v, 'm) local_scheme \<Rightarrow> ('q, 'v, 'm) local_scheme res" where
  "process_work Q resume s = exec_times Q resume (num_task_schedule Q (egn s)) s"

definition poll_work ::
    "(io_callback \<Rightarrow> addr \<Rightarrow> 32 word \<Rightarrow> ('q, 'v, 'm) local_scheme \<Rightarrow> ('q, 'v, 'm) local_scheme res) \<Rightarrow>
     u64 \<Rightarrow> cqe list \<Rightarrow> ('q, 'v, 'm) local_scheme \<Rightarrow> ('q, 'v, 'm) local_scheme res" where
  "poll_work invoke cnt cqes s = poll_submit invoke cnt cqes s"

definition empty_wait_work :: "('q, 'v) coro_context \<Rightarrow> bool" where
  "empty_wait_work c \<longleftrightarrow> m_num_wait_task c = 0 \<and> empty_io (egn c)"

section \<open>The main loop\<close>

text \<open>
  Other threads act on a context at any time. What they do between two reads of the loop is
  \<open>env\<close>: at point 0 before \<open>process_work\<close>, 1 before the first stop test, 2 before the test of
  \<open>ready\<close> behind it, 3 before the second stop test, 4 before \<open>poll_work\<close>. The value of the
  eventfd and the completions are inputs too.
\<close>

record ('q, 'v) loop_input =
  env :: "nat \<Rightarrow> ('q, 'v) coro_context \<Rightarrow> ('q, 'v) coro_context"
  in_cnt :: u64
  in_cqes :: "cqe list"

datatype loop_next = Loop_continue | Loop_break

definition loop_iter ::
    "'q queue_ops \<Rightarrow> (handle \<Rightarrow> ('q, 'v) coro_context \<Rightarrow> ('q, 'v) coro_context res) \<Rightarrow>
     (io_callback \<Rightarrow> addr \<Rightarrow> 32 word \<Rightarrow> ('q, 'v) coro_context \<Rightarrow> ('q, 'v) coro_context res) \<Rightarrow>
     (stop_cb \<Rightarrow> ('q, 'v) coro_context \<Rightarrow> ('q, 'v) coro_context res) \<Rightarrow>
     ('q, 'v) loop_input \<Rightarrow> ('q, 'v) coro_context \<Rightarrow> (loop_next \<times> ('q, 'v) coro_context) res" where
  "loop_iter Q resume invoke call_cb inp c =
     bindE (process_work Q resume (env inp 0 c)) (\<lambda>c0.
       let c1 = env inp 1 c0 in
       if stop_requested c1 \<and> empty_wait_work c1 then
         let c2 = env inp 2 c1 in
         if ready Q (egn c2) then Inr (Loop_continue, c2) else Inr (Loop_break, c2)
       else
         let c3 = env inp 3 c1 in
         bindE (if \<not> stop_requested c3 \<and> empty_wait_work c3 \<and> \<not> ready Q (egn c3)
                then if m_stop_cb c3 \<noteq> No_callback then call_cb (m_stop_cb c3) c3 else Inr c3
                else Inr c3) (\<lambda>c4.
         bindE (poll_work invoke (in_cnt inp) (in_cqes inp) (env inp 4 c4)) (\<lambda>c5.
           Inr (Loop_continue, c5))))"

text \<open>
  \<open>run\<close> over a list of inputs, one per iteration; the flag says whether the loop was left.
\<close>

fun run_loop ::
    "'q queue_ops \<Rightarrow> (handle \<Rightarrow> ('q, 'v) coro_context \<Rightarrow> ('q, 'v) coro_context res) \<Rightarrow>
     (io_callback \<Rightarrow> addr \<Rightarrow> 32 word \<Rightarrow> ('q, 'v) coro_context \<Rightarrow> ('q, 'v) coro_context res) \<Rightarrow>
     (stop_cb \<Rightarrow> ('q, 'v) coro_context \<Rightarrow> ('q, 'v) coro_context res) \<Rightarrow>
     ('q, 'v) loop_input list \<Rightarrow> ('q, 'v) coro_context \<Rightarrow> (bool \<times> ('q, 'v) coro_context) res" where
  "run_loop Q resume invoke call_cb [] c = Inr (False, c)"
| "run_loop Q resume invoke call_cb (i # inps) c =
     bindE (loop_iter Q resume invoke call_cb i c) (\<lambda>(nxt, c1).
       case nxt of Loop_break \<Rightarrow> Inr (True, c1)
                 | Loop_continue \<Rightarrow> run_loop Q resume invoke call_cb inps c1)"

text \<open>The closure that \<open>start\<close> installs asks for a stop of the own thread.\<close>

definition own_callback :: "stop_cb \<Rightarrow> ('q, 'v) coro_context \<Rightarrow> ('q, 'v) coro_context res" where
  "own_callback cb c = (case cb of Request_stop \<Rightarrow> request_stop c | _ \<Rightarrow> Inr c)"

text \<open>\<open>start\<close>: the life of the worker thread, from \<open>init\<close> to \<open>deinit\<close>.\<close>

definition context_start ::
    "bool \<Rightarrow> init_answers \<Rightarrow> 'q queue_ops \<Rightarrow>
     (handle \<Rightarrow> ('q, 'v) coro_context \<Rightarrow> ('q, 'v) coro_context res) \<Rightarrow>
     (io_callback \<Rightarrow> addr \<Rightarrow> 32 word \<Rightarrow> ('q, 'v) coro_context \<Rightarrow> ('q, 'v) coro_context res) \<Rightarrow>
     (stop_cb \<Rightarrow> ('q, 'v) coro_context \<Rightarrow> ('q, 'v) coro_context res) \<Rightarrow>
     ('q, 'v) loop_input list \<Rightarrow> ('q, 'v) coro_context \<Rightarrow> (bool \<times> ('q, 'v) coro_context) res" where
  "context_start fixfd ans Q resume invoke call_cb inputs c =
     bindE (context_init fixfd ans (c\<lparr>m_job_started := True\<rparr>)) (\<lambda>c1.
       let c2 = (if m_stop_cb c1 = No_callback then c1\<lparr>m_stop_cb := Request_stop\<rparr> else c1) in
       bindE (run_loop Q resume invoke call_cb inputs c2) (\<lambda>(left, c3).
         Inr (left, if left then context_deinit fixfd Q c3 else c3)))"

section \<open>The context as an executor\<close>

definition context_running :: "'q queue_ops \<Rightarrow> ('q \<Rightarrow> handle list) \<Rightarrow> ('q, 'v) coro_context \<Rightarrow> bool" where
  "context_running Q ql c \<longleftrightarrow> engine_running Q ql (egn c)"

abbreviation pending_of :: "('q \<Rightarrow> handle list) \<Rightarrow> ('q, 'v, 'm) local_scheme \<Rightarrow> handle list" where
  "pending_of ql c \<equiv> ql (m_task_queue (egn c))"

interpretation ctx: executor "context_submit Q" "pending_of ql" "context_running Q ql" kQueCap
  for Q ql
proof unfold_locales
  fix c :: "('a, 'b) coro_context" and h c'
  { assume "context_running Q ql c" "h \<noteq> nullptr" "length (pending_of ql c) < kQueCap"
    then show "\<exists>c'. context_submit Q h c = Inr c'"
      using eng.submit_accepts [of Q ql "egn c" h] by (auto simp: context_running_def context_submit_def) }
  { assume "context_running Q ql c" "context_submit Q h c = Inr c'"
    then show "context_running Q ql c' \<and> pending_of ql c' = pending_of ql c @ [h]"
      using eng.submit_appends [of Q ql "egn c" h]
      by (auto simp: context_running_def context_submit_def bindE_Inr_iff) }
  { assume "context_running Q ql c" "h \<noteq> nullptr" "kQueCap \<le> length (pending_of ql c)"
    then show "context_submit Q h c = Inl Would_block"
      using eng.submit_full [of Q ql "egn c" h] by (simp add: context_running_def context_submit_def) }
next
  show "context_submit Q nullptr c = Inl Assertion" for c :: "('a, 'b) coro_context"
    by (simp add: context_submit_def eng.submit_null)
qed

section \<open>Which tasks a round of work runs\<close>

text \<open>A thread state with a ghost record of the handles it resumed.\<close>

record ('q, 'v) logged = "('q, 'v) local" +
  executed :: "handle list"

definition logging ::
    "(handle \<Rightarrow> ('q, 'v) logged \<Rightarrow> ('q, 'v) logged res) \<Rightarrow> handle \<Rightarrow> ('q, 'v) logged \<Rightarrow> ('q, 'v) logged res" where
  "logging r h s = bindE (r h s) (\<lambda>s1. Inr (s1\<lparr>executed := executed s @ [h]\<rparr>))"

text \<open>User code may submit tasks to the context but takes none out of its queue.\<close>

definition only_submits ::
    "('q \<Rightarrow> handle list) \<Rightarrow> (handle \<Rightarrow> ('q, 'v) logged \<Rightarrow> ('q, 'v) logged res) \<Rightarrow> bool" where
  "only_submits ql r \<longleftrightarrow> (\<forall>h s s'. r h s = Inr s' \<longrightarrow> (\<exists>new. pending_of ql s' = pending_of ql s @ new))"

lemma exec_one_logged:
  assumes L: "queue_laws Q ql" and O: "only_submits ql r" and p: "pending_of ql s = h # hs"
    and ex: "exec_one_task Q (logging r) s = Inr s'"
  shows "executed s' = executed s @ [h] \<and> (\<exists>new. pending_of ql s' = hs @ new)"
proof -
  obtain e where sch: "schedule Q (egn s) = Inr (h, e)" and hs: "ql (m_task_queue e) = hs"
    using ex p schedule_pops [OF L, of "egn s" h hs]
    by (cases "h = nullptr")
       (auto simp: exec_one_task_def schedule_def bindE_Inr_iff split: option.splits
         dest: queue_lawsD(5) [OF L])
  obtain s1 where r: "r h (s\<lparr>egn := e\<rparr>) = Inr s1"
    and ex': "executed s' = executed s @ [h]" and q': "egn s' = egn s1"
    using ex sch
    by (auto simp: exec_one_task_def exec_handle_def logging_def bindE_Inr_iff split: if_splits)
  obtain new where "pending_of ql s1 = pending_of ql (s\<lparr>egn := e\<rparr>) @ new"
    using O r unfolding only_submits_def by blast
  with ex' q' hs show ?thesis by simp
qed

lemma exec_times_logged:
  assumes L: "queue_laws Q ql" and O: "only_submits ql r"
  shows "pending_of ql s = hs @ rest \<Longrightarrow> exec_times Q (logging r) (length hs) s = Inr s' \<Longrightarrow>
    executed s' = executed s @ hs \<and> (\<exists>new. pending_of ql s' = rest @ new)"
proof (induction hs arbitrary: s rest)
  case Nil
  then show ?case by auto
next
  case (Cons h hs)
  then obtain s1 where s1: "exec_one_task Q (logging r) s = Inr s1"
    and rest: "exec_times Q (logging r) (length hs) s1 = Inr s'"
    by (auto simp: bindE_Inr_iff)
  obtain new where "executed s1 = executed s @ [h]" "pending_of ql s1 = hs @ rest @ new"
    using exec_one_logged [OF L O _ s1, of h "hs @ rest"] Cons.prems(1) by auto
  with Cons.IH [of s1 "rest @ new"] rest show ?case by auto
qed

section \<open>Properties\<close>

text \<open>
  A round of \<open>process_work\<close> runs exactly the tasks that were queued when it began, each
  once and in order; what those tasks submit stays queued for the next round.
\<close>

lemma process_work_snapshot:
  assumes "queue_laws Q ql" and "only_submits ql r"
    and "process_work Q (logging r) s = Inr s'"
  shows "executed s' = executed s @ pending_of ql s"
  using exec_times_logged [OF assms(1,2), of s "pending_of ql s" "[]" s'] assms(3)
  by (simp add: process_work_def num_task_schedule_def queue_lawsD(6) [OF assms(1)])

definition resubmitting :: "handle \<Rightarrow> (handle list, nat) logged \<Rightarrow> (handle list, nat) logged res" where
  "resubmitting h s = bindE (submit_task list_queue h (egn s)) (\<lambda>e. Inr (s\<lparr>egn := e\<rparr>))"

lemma resubmitting_only_submits: "only_submits (\<lambda>q. q) resubmitting"
  by (auto simp: only_submits_def resubmitting_def bindE_Inr_iff submit_task_Inr list_queue_def
      split: if_splits)

definition demo_logged :: "(handle list, nat) logged" where
  "demo_logged = \<lparr>egn = demo_engine\<lparr>m_task_queue := [7]\<rparr>,
     frames = [7 \<mapsto> new_frame [Suspend]], infos = demo_infos, executed = []\<rparr>"

lemma process_work_snapshot_witness:
  "\<exists>s'. process_work list_queue (logging resubmitting) demo_logged = Inr s' \<and>
        executed s' = [7] \<and> pending_of (\<lambda>q. q) s' = [7]"
proof -
  obtain s' where s': "process_work list_queue (logging resubmitting) demo_logged = Inr s'"
    and "pending_of (\<lambda>q. q) s' = [7]"
    by (simp add: process_work_def num_task_schedule_def list_queue_def demo_logged_def
        demo_engine_def demo_proxy_def exec_one_task_def schedule_def exec_handle_def logging_def
        resubmitting_def submit_task_def wake_up_def write_eventfd_def kQueCap_def new_frame_def
        numeral_eq_Suc)
  with process_work_snapshot [OF list_queue_laws resubmitting_only_submits s'] show ?thesis
    by (simp add: demo_logged_def)
qed


definition demo_context :: "(handle list, nat) coro_context" where
  "demo_context = \<lparr>egn = demo_engine, frames = Map.empty, infos = demo_infos,
     m_ctx_id = 0, m_num_wait_task = 0, m_stop_cb = No_callback, m_job_started = True,
     stop_requested = False, linfo_ctx = True\<rparr>"

lemma demo_context_running: "context_running list_queue (\<lambda>q. q) demo_context"
  by (simp add: context_running_def engine_running_def list_queue_laws demo_context_def
      demo_engine_def demo_proxy_def)

lemma demo_context_queue: "pending_of (\<lambda>q. q) demo_context = []"
  by (simp add: demo_context_def demo_engine_def)

definition quiet_input :: "(handle list, nat) loop_input" where
  "quiet_input = \<lparr>env = (\<lambda>_ c. c), in_cnt = 1, in_cqes = []\<rparr>"


datatype wait_op = Register int | Unregister int

fun apply_wait :: "('q, 'v) coro_context \<Rightarrow> wait_op \<Rightarrow> ('q, 'v) coro_context" where
  "apply_wait c (Register n) = register_wait n c"
| "apply_wait c (Unregister n) = unregister_wait n c"

fun wait_amount :: "wait_op \<Rightarrow> int" where
  "wait_amount (Register n) = n"
| "wait_amount (Unregister n) = - n"

lemma apply_waits:
  "foldl apply_wait c ops =
     c\<lparr>m_num_wait_task := m_num_wait_task c + word_of_int (sum_list (map wait_amount ops))\<rparr>"
proof (induction ops arbitrary: c)
  case Nil
  then show ?case by simp
next
  case (Cons x ops)
  then show ?case
    by (cases x) (simp_all add: register_wait_def unregister_wait_def atomic_defs algebra_simps)
qed

text \<open>
  Waiting is counted without drift: registrations and deregistrations of the same amounts,
  in any interleaving, leave the unsigned counter where it was, even when it wraps; with no other
  I/O the context then counts as idle again.
\<close>

lemma wait_count_balanced:
  assumes "sum_list (map wait_amount ops) = 0"
  shows "foldl apply_wait c ops = c"
  using apply_waits [of c ops] assms by simp

lemma wait_count_balanced_witness:
  "foldl apply_wait demo_context [Unregister 1, Register 3, Unregister 2] = demo_context"
  by (rule wait_count_balanced) simp

text \<open>
  After \<open>deinit\<close> the context accepts nothing any more: its queue is empty (what was queued
  is dropped, the frames stay behind), and every later submission fails the assertion on the
  eventfd write because the descriptor is closed.
\<close>

lemma deinit_rejects:
  assumes L: "queue_laws Q ql" and "h \<noteq> nullptr"
  shows "pending_of ql (context_deinit fixfd Q c) = [] \<and>
         frames (context_deinit fixfd Q c) = frames c \<and>
         context_submit Q h (context_deinit fixfd Q c) = Inl Assertion"
proof -
  have efd: "m_efd (m_upxy (egn (context_deinit fixfd Q c))) = -1"
  proof -
    have "m_efd (foldl (\<lambda>p fd. kcall (Close_fd fd) p) p fds) = m_efd p" for p fds
      by (induction fds arbitrary: p) simp_all
    then show ?thesis
      by (simp add: context_deinit_def engine_deinit_def uring_deinit_def Let_def)
  qed
  have e: "pending_of ql (context_deinit fixfd Q c) = []"
    by (simp add: context_deinit_def engine_deinit_def Let_def queue_lawsD(1) [OF L])
  have f: "frames (context_deinit fixfd Q c) = frames c"
    by (simp add: context_deinit_def)
  obtain q where "q_push Q h (m_task_queue (egn (context_deinit fixfd Q c))) = Some q"
    using queue_lawsD(2) [OF L, of h "m_task_queue (egn (context_deinit fixfd Q c))"] e
    by (cases "q_push Q h (m_task_queue (egn (context_deinit fixfd Q c)))") (simp_all add: kQueCap_def)
  then have "context_submit Q h (context_deinit fixfd Q c) = Inl Assertion"
    using efd assms(2) by (simp add: context_submit_def submit_task_def wake_up_def write_eventfd_def)
  with e f show ?thesis by blast
qed

lemma deinit_rejects_witness:
  "context_submit list_queue 5 (context_deinit False list_queue demo_context) = Inl Assertion"
  using deinit_rejects [OF list_queue_laws, of 5 False demo_context] by simp

end
