(* ===== verification/Scheduler.thy ===== *)
theory Scheduler
  imports Context
begin

unbundle bit_operations_syntax

text \<open>
  \<open>coro::detail::dispatcher\<close> (include/coro/dispatcher.hpp) and \<open>coro::scheduler\<close>
  (include/coro/scheduler.hpp, src/scheduler.cpp). The first part has the operations as the code
  runs them without interference; the second splits them at their atomic accesses and lets the
  worker threads interleave.
\<close>

section \<open>The round-robin dispatcher\<close>

record dispatcher =
  d_ctx_cnt :: u64
  m_cur :: u64

definition dispatcher_init :: "u64 \<Rightarrow> dispatcher \<Rightarrow> dispatcher" where
  "dispatcher_init ctx_cnt d = d\<lparr>d_ctx_cnt := ctx_cnt, m_cur := 0\<rparr>"

definition dispatch :: "dispatcher \<Rightarrow> (u64 \<times> dispatcher) res" where
  "dispatch d =
     (case fetch_add (m_cur d) 1 of (old, new) \<Rightarrow>
        if d_ctx_cnt d = 0 then Inl Div_by_zero
        else Inr (old mod d_ctx_cnt d, d\<lparr>m_cur := new\<rparr>))"

fun dispatch_n :: "nat \<Rightarrow> dispatcher \<Rightarrow> (u64 list \<times> dispatcher) res" where
  "dispatch_n 0 d = Inr ([], d)"
| "dispatch_n (Suc n) d =
     bindE (dispatch d) (\<lambda>(i, d1). bindE (dispatch_n n d1) (\<lambda>(is, d2). Inr (i # is, d2)))"

lemma dispatch_n_eq:
  "d_ctx_cnt d \<noteq> 0 \<Longrightarrow>
   dispatch_n n d = Inr (map (\<lambda>k. (m_cur d + word_of_nat k) mod d_ctx_cnt d) [0..<n],
                         d\<lparr>m_cur := m_cur d + word_of_nat n\<rparr>)"
proof (induction n arbitrary: d)
  case 0
  then show ?case by simp
next
  case (Suc n)
  have "map (\<lambda>k. (m_cur d + word_of_nat k) mod d_ctx_cnt d) [0..<Suc n] =
      m_cur d mod d_ctx_cnt d # map (\<lambda>k. (m_cur d + 1 + word_of_nat k) mod d_ctx_cnt d) [0..<n]"
    by (simp add: upt_conv_Cons map_Suc_upt [symmetric] comp_def add.assoc del: upt_Suc)
  with Suc show ?case
    by (simp add: dispatch_def atomic_defs algebra_simps)
qed

text \<open>The indices a fair dispatcher hands out: a cycle through the contexts.\<close>

lemma dispatch_unat:
  assumes "unat cur + k < 2 ^ 64"
  shows "unat ((cur + word_of_nat k :: u64) mod c) = (unat cur + k) mod unat c"
proof -
  have "k < 2 ^ 64" using assms by simp
  then have "unat (word_of_nat k :: u64) = k" by (simp add: unat_of_nat take_bit_nat_eq_self_iff)
  then have "unat (cur + word_of_nat k) = unat cur + k"
    using assms by (simp add: unat_word_ariths)
  then show ?thesis by (simp add: unat_mod)
qed

section \<open>State of the scheduler\<close>

record ('q, 'v) scheduler =
  m_ctx_cnt :: nat
  m_ctxs :: "('q, 'v) coro_context list"
  m_dispatcher :: dispatcher
  m_stop_token :: int
  m_ctx_stop_flag :: "int list"

definition stop_token_is_sum :: "('q, 'v) scheduler \<Rightarrow> bool" where
  "stop_token_is_sum sc \<longleftrightarrow>
     length (m_ctx_stop_flag sc) = m_ctx_cnt sc \<and> length (m_ctxs sc) = m_ctx_cnt sc \<and>
     unat (d_ctx_cnt (m_dispatcher sc)) = m_ctx_cnt sc \<and>
     set (m_ctx_stop_flag sc) \<subseteq> {0, 1} \<and> m_stop_token sc = sum_list (m_ctx_stop_flag sc)"

section \<open>Operations\<close>

text \<open>The contexts that \<open>init_impl\<close> creates; \<open>proxies\<close> are their freshly constructed rings.\<close>

fun new_contexts ::
    "'q queue_ops \<Rightarrow> uring_proxy list \<Rightarrow> (addr \<Rightarrow> io_info) \<Rightarrow> global_info \<Rightarrow> ('q, 'v) coro_context list \<times> global_info" where
  "new_contexts Q [] io g = ([], g)"
| "new_contexts Q (p # ps) io g =
     (case new_context Q p io g of (c, g1) \<Rightarrow>
      case new_contexts Q ps io g1 of (cs, g2) \<Rightarrow> (c # cs, g2))"

definition init_impl ::
    "'q queue_ops \<Rightarrow> uring_proxy list \<Rightarrow> (addr \<Rightarrow> io_info) \<Rightarrow> ('q, 'v) scheduler \<Rightarrow> ('q, 'v) scheduler \<times> global_info" where
  "init_impl Q proxies io sc =
     (let n = length proxies in
      case new_contexts Q proxies io init_meta_info of (cs, g) \<Rightarrow>
        (sc\<lparr>m_ctx_cnt := n, m_ctxs := cs,
            m_dispatcher := dispatcher_init (word_of_nat n) (m_dispatcher sc),
            m_stop_token := int n, m_ctx_stop_flag := replicate n 1\<rparr>, g))"

text \<open>\<open>init\<close>: a count of 0 asks for \<open>hardware_concurrency\<close> contexts.\<close>

definition effective_ctx_cnt :: "nat \<Rightarrow> nat \<Rightarrow> nat" where
  "effective_ctx_cnt ctx_cnt hardware_concurrency =
     (if ctx_cnt = 0 then hardware_concurrency else ctx_cnt)"

fun notify_all_stop :: "('q, 'v) coro_context list \<Rightarrow> ('q, 'v) coro_context list res" where
  "notify_all_stop [] = Inr []"
| "notify_all_stop (c # cs) =
     bindE (notify_stop c) (\<lambda>c1. bindE (notify_all_stop cs) (\<lambda>cs1. Inr (c1 # cs1)))"

definition stop_impl :: "('q, 'v) scheduler \<Rightarrow> ('q, 'v) scheduler res" where
  "stop_impl sc = bindE (notify_all_stop (m_ctxs sc)) (\<lambda>cs. Inr (sc\<lparr>m_ctxs := cs\<rparr>))"

text \<open>
  The closure that \<open>start_impl\<close> installs in context \<open>i\<close>: clear the flag, subtract its old
  value from the token, and stop everything if the token was exactly that value.
\<close>

definition stop_callback :: "nat \<Rightarrow> ('q, 'v) scheduler \<Rightarrow> ('q, 'v) scheduler res" where
  "stop_callback i sc =
     (if length (m_ctx_stop_flag sc) \<le> i then Inl Out_of_range
      else let cnt = m_ctx_stop_flag sc ! i;
               sc1 = sc\<lparr>m_ctx_stop_flag := (m_ctx_stop_flag sc)[i := cnt AND 0]\<rparr> in
        case fetch_sub (m_stop_token sc1) cnt of (old, new) \<Rightarrow>
          let sc2 = sc1\<lparr>m_stop_token := new\<rparr> in
          if old = cnt then stop_impl sc2 else Inr sc2)"

definition stops_all :: "nat \<Rightarrow> ('q, 'v) scheduler \<Rightarrow> bool" where
  "stops_all i sc \<longleftrightarrow> m_stop_token sc = m_ctx_stop_flag sc ! i"

text \<open>\<open>start_impl\<close> up to the start of the threads.\<close>

definition install_callbacks :: "('q, 'v) scheduler \<Rightarrow> ('q, 'v) scheduler" where
  "install_callbacks sc =
     sc\<lparr>m_ctxs := map (\<lambda>(i, c). set_stop_cb (Scheduler_callback i) (c\<lparr>m_job_started := True\<rparr>))
                    (enumerate 0 (m_ctxs sc))\<rparr>"

definition submit_task_impl :: "'q queue_ops \<Rightarrow> handle \<Rightarrow> ('q, 'v) scheduler \<Rightarrow> ('q, 'v) scheduler res" where
  "submit_task_impl Q h sc =
     bindE (assertE (m_stop_token sc \<noteq> 0)) (\<lambda>_.
     bindE (dispatch (m_dispatcher sc)) (\<lambda>(w, d).
       let i = unat w in
       if length (m_ctx_stop_flag sc) \<le> i \<or> length (m_ctxs sc) \<le> i then Inl Out_of_range
       else let old = m_ctx_stop_flag sc ! i;
                sc1 = sc\<lparr>m_dispatcher := d, m_ctx_stop_flag := (m_ctx_stop_flag sc)[i := old OR 1],
                         m_stop_token := snd (fetch_add (m_stop_token sc) (1 - old))\<rparr> in
         bindE (context_submit Q h (m_ctxs sc1 ! i)) (\<lambda>c.
           Inr (sc1\<lparr>m_ctxs := (m_ctxs sc1)[i := c]\<rparr>))))"

section \<open>Accounting without interference\<close>

lemma sum_list_upd01:
  "i < length xs \<Longrightarrow> sum_list (xs[i := y]) = sum_list xs - xs ! i + (y :: int)"
  by (induction xs arbitrary: i) (auto split: nat.splits simp: nth_Cons' less_Suc_eq_0_disj)

lemma set_upd01: "set xs \<subseteq> {0, 1} \<Longrightarrow> y \<in> {0, 1 :: int} \<Longrightarrow> set (xs[i := y]) \<subseteq> {0, 1}"
  using set_update_subset_insert [of xs i y] by blast

lemma flag_cases: "set xs \<subseteq> {0, 1 :: int} \<Longrightarrow> i < length xs \<Longrightarrow> xs ! i = 0 \<or> xs ! i = 1"
  using nth_mem [of i xs] by blast

lemma notify_all_stop_length: "notify_all_stop cs = Inr cs' \<Longrightarrow> length cs' = length cs"
  by (induction cs arbitrary: cs') (auto simp: bindE_Inr_iff)

lemma stop_impl_frame:
  "stop_impl sc = Inr sc' \<Longrightarrow> m_ctx_stop_flag sc' = m_ctx_stop_flag sc \<and>
     m_stop_token sc' = m_stop_token sc \<and> m_ctx_cnt sc' = m_ctx_cnt sc \<and>
     m_dispatcher sc' = m_dispatcher sc \<and> length (m_ctxs sc') = length (m_ctxs sc)"
  by (auto simp: stop_impl_def bindE_Inr_iff dest: notify_all_stop_length)

lemma submit_keeps_sum:
  assumes inv: "stop_token_is_sum sc" and sub: "submit_task_impl Q h sc = Inr sc'"
  shows "stop_token_is_sum sc'"
proof -
  obtain w d where d: "dispatch (m_dispatcher sc) = Inr (w, d)"
    using sub by (auto simp: submit_task_impl_def bindE_Inr_iff)
  let ?i = "unat w" and ?f = "m_ctx_stop_flag sc"
  have i: "?i < length ?f" "?i < length (m_ctxs sc)"
    using sub d by (auto simp: submit_task_impl_def bindE_Inr_iff Let_def split: if_splits)
  have f01: "?f ! ?i = 0 \<or> ?f ! ?i = 1" using inv i flag_cases by (auto simp: stop_token_is_sum_def)
  then have or1: "?f ! ?i OR 1 = 1" by auto
  have cnt: "d_ctx_cnt d = d_ctx_cnt (m_dispatcher sc)"
    using d by (auto simp: dispatch_def atomic_defs split: if_splits)
  have "m_ctx_stop_flag sc' = ?f[?i := 1]" "m_stop_token sc' = m_stop_token sc + (1 - ?f ! ?i)"
    "m_ctx_cnt sc' = m_ctx_cnt sc" "length (m_ctxs sc') = length (m_ctxs sc)" "m_dispatcher sc' = d"
    using sub d i or1
    by (auto simp: submit_task_impl_def bindE_Inr_iff Let_def atomic_defs)
  then show ?thesis
    using inv i cnt set_upd01 [of ?f 1 ?i] by (auto simp: stop_token_is_sum_def sum_list_upd01)
qed

lemma callback_keeps_sum:
  assumes inv: "stop_token_is_sum sc" and cb: "stop_callback i sc = Inr sc'"
  shows "stop_token_is_sum sc'"
proof -
  let ?f = "m_ctx_stop_flag sc"
  have i: "i < length ?f" using cb by (auto simp: stop_callback_def split: if_splits)
  let ?sc2 = "sc\<lparr>m_ctx_stop_flag := ?f[i := 0], m_stop_token := m_stop_token sc - ?f ! i\<rparr>"
  have s2: "stop_token_is_sum ?sc2"
    using inv i set_upd01 [of ?f 0 i] by (auto simp: stop_token_is_sum_def sum_list_upd01)
  have "sc' = ?sc2 \<or> stop_impl ?sc2 = Inr sc'"
    using cb i by (auto simp: stop_callback_def Let_def atomic_defs split: if_splits)
  with s2 show ?thesis by (auto simp: stop_token_is_sum_def dest!: stop_impl_frame)
qed

lemma sum_zero_flags:
  "set xs \<subseteq> {0, 1 :: int} \<Longrightarrow> (\<forall>x \<in> set xs. x = 0) \<longleftrightarrow> sum_list xs = 0"
proof (induction xs)
  case Nil
  then show ?case by simp
next
  case (Cons x xs)
  then have nonneg: "0 \<le> sum_list xs" and ih: "(\<forall>x \<in> set xs. x = 0) \<longleftrightarrow> sum_list xs = 0"
    by (auto intro!: sum_list_nonneg)
  from Cons.prems have "x = 0 \<or> x = 1" by simp
  then show ?case
  proof
    assume "x = 0"
    with ih show ?thesis by simp
  next
    assume "x = 1"
    with nonneg show ?thesis by simp
  qed
qed

lemma others_idle:
  assumes f: "set xs \<subseteq> {0, 1 :: int}" and i: "i < length xs"
  shows "sum_list xs = xs ! i \<longleftrightarrow> (\<forall>j < length xs. j \<noteq> i \<longrightarrow> xs ! j = 0)"
proof -
  have "sum_list (xs[i := 0]) = sum_list xs - xs ! i" using i by (simp add: sum_list_upd01)
  moreover have "(\<forall>x \<in> set (xs[i := 0]). x = 0) \<longleftrightarrow> (\<forall>j < length xs. j \<noteq> i \<longrightarrow> xs ! j = 0)"
    using i by (auto simp: all_set_conv_all_nth nth_list_update)
  ultimately show ?thesis
    using sum_zero_flags [OF set_upd01 [OF f, of 0 i]] by simp
qed

text \<open>The calls of the scheduler, each as one step.\<close>

datatype sched_call = Submit handle | Callback nat

fun apply_call :: "'q queue_ops \<Rightarrow> sched_call \<Rightarrow> ('q, 'v) scheduler \<Rightarrow> ('q, 'v) scheduler res" where
  "apply_call Q (Submit h) sc = submit_task_impl Q h sc"
| "apply_call Q (Callback i) sc = stop_callback i sc"

fun sched_calls :: "'q queue_ops \<Rightarrow> sched_call list \<Rightarrow> ('q, 'v) scheduler \<Rightarrow> ('q, 'v) scheduler res" where
  "sched_calls Q [] sc = Inr sc"
| "sched_calls Q (x # xs) sc = bindE (apply_call Q x sc) (sched_calls Q xs)"

lemma sched_calls_keep_sum:
  "stop_token_is_sum sc \<Longrightarrow> sched_calls Q xs sc = Inr sc' \<Longrightarrow> stop_token_is_sum sc'"
proof (induction xs arbitrary: sc)
  case Nil
  then show ?case by simp
next
  case (Cons x xs)
  then obtain sc1 where "apply_call Q x sc = Inr sc1" "sched_calls Q xs sc1 = Inr sc'"
    by (auto simp: bindE_Inr_iff)
  with Cons show ?case
    by (cases x) (auto dest: submit_keeps_sum callback_keeps_sum)
qed

lemma new_contexts_length: "new_contexts Q ps io g = (cs, g') \<Longrightarrow> length cs = length ps"
  by (induction ps arbitrary: g cs g') (auto split: prod.splits)

lemma init_is_sum:
  fixes sc :: "('q, 'v) scheduler"
  assumes "length proxies < 2 ^ 64"
  shows "stop_token_is_sum (fst (init_impl Q proxies io sc))"
proof -
  obtain cs :: "('q, 'v) coro_context list" and g
    where cs: "new_contexts Q proxies io init_meta_info = (cs, g)"
    by (cases "new_contexts Q proxies io init_meta_info :: ('q, 'v) coro_context list \<times> global_info")
  then have "length cs = length proxies" by (rule new_contexts_length)
  then show ?thesis
    using cs assms
    by (auto simp: init_impl_def Let_def stop_token_is_sum_def dispatcher_init_def sum_list_replicate
        unat_of_nat take_bit_nat_eq_self_iff)
qed

section \<open>Properties\<close>

lemma mod_shift_inj:
  assumes "x \<le> y" "y < n" "(b + x) mod n = (b + y) mod (n :: nat)"
  shows "x = y"
proof -
  have "n dvd (b + y) - (b + x)"
    using mod_eq_dvd_iff_nat [of "b + x" "b + y" n] assms by simp
  then have "n dvd y - x" by simp
  with assms show ?thesis by (auto dest: dvd_imp_le)
qed

lemma count_list_distinct: "distinct xs \<Longrightarrow> x \<in> set xs \<Longrightarrow> count_list xs x = 1"
  by (induction xs) (auto simp: count_list_0_iff)

lemma count_cycle:
  assumes "0 < n" "i < n"
  shows "count_list (map (\<lambda>k. (a + k) mod n) [0..<r * n]) i = (r :: nat)"
proof (induction r)
  case 0
  then show ?case by simp
next
  case (Suc r)
  have split: "[0..<Suc r * n] = [0..<r * n] @ map (\<lambda>k. r * n + k) [0..<n]"
    using upt_add_eq_append [of 0 "r * n" n] map_add_upt [of "r * n" n]
    by (simp add: add.commute)
  have one: "count_list (map (\<lambda>k. (b + k) mod n) [0..<n]) i = 1" for b
  proof -
    have inj: "inj_on (\<lambda>k. (b + k) mod n) {0..<n}"
    proof (rule inj_onI)
      fix x y assume "x \<in> {0..<n}" "y \<in> {0..<n}" "(b + x) mod n = (b + y) mod n"
      then show "x = y" using mod_shift_inj [of x y n b] mod_shift_inj [of y x n b]
        by (cases "x \<le> y") auto
    qed
    then have d: "distinct (map (\<lambda>k. (b + k) mod n) [0..<n])" by (simp add: distinct_map)
    have "set (map (\<lambda>k. (b + k) mod n) [0..<n]) = {0..<n}"
      using inj assms(1) by (simp add: endo_inj_surj image_subset_iff)
    then have "i \<in> set (map (\<lambda>k. (b + k) mod n) [0..<n])" using assms(2) by simp
    with d show ?thesis by (rule count_list_distinct)
  qed
  show ?case
    using Suc one [of "a + r * n"] unfolding split by (simp add: comp_def add.assoc)
qed

text \<open>
  Round robin is fair: until the counter wraps, any \<open>r\<close> full rounds of dispatches from any
  position give every context exactly \<open>r\<close> of them.
\<close>

lemma round_robin_fair:
  assumes "d_ctx_cnt d \<noteq> 0" and "i < unat (d_ctx_cnt d)"
    and "unat (m_cur d) + r * unat (d_ctx_cnt d) \<le> 2 ^ 64"
  shows "\<exists>is d'. dispatch_n (r * unat (d_ctx_cnt d)) d = Inr (is, d') \<and>
           count_list (map unat is) i = r"
proof -
  let ?n = "unat (d_ctx_cnt d)"
  let ?is = "map (\<lambda>k. (m_cur d + word_of_nat k) mod d_ctx_cnt d) [0..<r * ?n]"
  have unats: "map unat ?is = map (\<lambda>k. (unat (m_cur d) + k) mod ?n) [0..<r * ?n]"
    using assms(3) by (auto simp: dispatch_unat)
  have "count_list (map (\<lambda>k. (unat (m_cur d) + k) mod ?n) [0..<r * ?n]) i = r"
    using assms(2) by (intro count_cycle) auto
  then have "count_list (map unat ?is) i = r" unfolding unats .
  with dispatch_n_eq [OF assms(1), of "r * ?n"] show ?thesis by blast
qed

lemma round_robin_fair_witness:
  "\<exists>is d'. dispatch_n 6 \<lparr>d_ctx_cnt = 3, m_cur = 5\<rparr> = Inr (is, d') \<and> count_list (map unat is) 2 = 2"
  using round_robin_fair [of "\<lparr>d_ctx_cnt = 3, m_cur = 5\<rparr>" 2 2] by simp

text \<open>
  The stop token is the number of busy contexts: it is after \<open>init_impl\<close>, and every sequence
  of submissions and stop callbacks, each running without interference, keeps it so.
\<close>

lemma stop_token_counts_busy:
  assumes "length proxies < 2 ^ 64"
    and "sched_calls Q xs (fst (init_impl Q proxies io sc)) = Inr sc'"
  shows "m_stop_token sc' = sum_list (m_ctx_stop_flag sc') \<and> set (m_ctx_stop_flag sc') \<subseteq> {0, 1}"
  using sched_calls_keep_sum [OF init_is_sum [OF assms(1)] assms(2)]
  by (simp add: stop_token_is_sum_def)

definition demo_scheduler :: "(handle list, nat) scheduler" where
  "demo_scheduler = \<lparr>m_ctx_cnt = 0, m_ctxs = [], m_dispatcher = \<lparr>d_ctx_cnt = 0, m_cur = 0\<rparr>,
     m_stop_token = 0, m_ctx_stop_flag = []\<rparr>"

lemma stop_token_counts_busy_witness:
  "\<exists>sc'. sched_calls list_queue [Callback 0, Submit 9]
           (fst (init_impl list_queue [demo_proxy, demo_proxy] demo_infos demo_scheduler)) = Inr sc' \<and>
         m_stop_token sc' = sum_list (m_ctx_stop_flag sc')"
proof -
  let ?sc = "fst (init_impl list_queue [demo_proxy, demo_proxy] demo_infos demo_scheduler)"
  obtain sc' where "sched_calls list_queue [Callback 0, Submit 9] ?sc = Inr sc'"
    by (simp add: init_impl_def demo_scheduler_def new_context_def new_engine_def atomic_defs
        stop_callback_def submit_task_impl_def dispatch_def dispatcher_init_def context_submit_def
        submit_task_def wake_up_def write_eventfd_def demo_proxy_def list_queue_def kQueCap_def
        init_meta_info_def Let_def)
  with stop_token_counts_busy [of "[demo_proxy, demo_proxy]" list_queue "[Callback 0, Submit 9]"
      demo_infos demo_scheduler sc'] show ?thesis by simp
qed

text \<open>
  The stop decision: without interference, the callback of context \<open>i\<close> stops the scheduler
  if and only if every other context is idle, and then every context has been told to stop.
\<close>

lemma last_idle_stops:
  assumes "stop_token_is_sum sc" and "i < m_ctx_cnt sc" and "stop_callback i sc = Inr sc'"
  shows "(stops_all i sc \<longleftrightarrow> (\<forall>j < m_ctx_cnt sc. j \<noteq> i \<longrightarrow> m_ctx_stop_flag sc ! j = 0)) \<and>
         (if stops_all i sc then list_all stop_requested (m_ctxs sc') else m_ctxs sc' = m_ctxs sc)"
proof -
  have len: "i < length (m_ctx_stop_flag sc)" using assms by (simp add: stop_token_is_sum_def)
  have iff: "stops_all i sc \<longleftrightarrow> (\<forall>j < m_ctx_cnt sc. j \<noteq> i \<longrightarrow> m_ctx_stop_flag sc ! j = 0)"
    using others_idle [OF _ len] assms(1) by (simp add: stops_all_def stop_token_is_sum_def)
  have told: "notify_all_stop cs = Inr cs' \<Longrightarrow> list_all stop_requested cs'"
    for cs cs' :: "('a, 'b) coro_context list"
    by (induction cs arbitrary: cs')
       (auto simp: bindE_Inr_iff notify_stop_def request_stop_def split: if_splits)
  have "stops_all i sc \<Longrightarrow> list_all stop_requested (m_ctxs sc')"
    using assms(3) told
    by (auto simp: stops_all_def stop_callback_def atomic_defs stop_impl_def bindE_Inr_iff
        split: if_splits)
  moreover have "\<not> stops_all i sc \<Longrightarrow> m_ctxs sc' = m_ctxs sc"
    using assms(3) by (auto simp: stops_all_def stop_callback_def atomic_defs Let_def split: if_splits)
  ultimately show ?thesis using iff by simp
qed

definition demo_started :: "(handle list, nat) scheduler" where
  "demo_started = install_callbacks
     (fst (init_impl list_queue [demo_proxy, demo_proxy] demo_infos demo_scheduler))"

lemma last_idle_stops_witness:
  "\<exists>sc1 sc2. stop_callback 0 demo_started = Inr sc1 \<and> m_ctxs sc1 = m_ctxs demo_started \<and>
     stop_callback 1 sc1 = Inr sc2 \<and> list_all stop_requested (m_ctxs sc2)"
proof -
  note defs = demo_started_def install_callbacks_def init_impl_def demo_scheduler_def
    new_context_def new_engine_def atomic_defs dispatcher_init_def stop_token_is_sum_def
    set_stop_cb_def init_meta_info_def enumerate_eq_zip
  have inv: "stop_token_is_sum demo_started" by (simp add: defs)
  obtain sc1 where one: "stop_callback 0 demo_started = Inr sc1"
    by (simp add: defs stop_callback_def)
  have s0: "\<not> stops_all 0 demo_started" by (simp add: defs stops_all_def)
  have c0: "0 < m_ctx_cnt demo_started" by (simp add: defs)
  have same: "m_ctxs sc1 = m_ctxs demo_started"
    using last_idle_stops [OF inv c0 one] s0 by simp
  have inv1: "stop_token_is_sum sc1" by (rule callback_keeps_sum [OF inv one])
  have c1: "1 < m_ctx_cnt sc1" and s1: "stops_all 1 sc1"
    using one by (auto simp: defs stop_callback_def stops_all_def)
  obtain sc2 where two: "stop_callback 1 sc1 = Inr sc2"
    using one by (auto simp: defs stop_callback_def stop_impl_def notify_stop_def request_stop_def
        wake_up_def write_eventfd_def demo_proxy_def)
  have "list_all stop_requested (m_ctxs sc2)"
    using last_idle_stops [OF inv1 c1 two] s1 by simp
  with one same two show ?thesis by blast
qed

end
