(* ===== verification/Awaiters.thy ===== *)
theory Awaiters
  imports Scheduler
begin

text \<open>
  What the synchronisation components (include/coro/comp, src/comp) share. Each of them parks
  suspended coroutines: an awaiter object lives in the frame of its coroutine and holds the context
  it belongs to, the link to the next parked awaiter and the handle to submit when it is woken.
  A \<open>world\<close> is the contexts together with the awaiter objects, both by address; components
  with larger awaiters extend the record.
\<close>

section \<open>Awaiters and contexts\<close>

record waiter =
  m_ctx :: nat
  m_next :: addr
  m_await_coro :: handle

record ('q, 'v, 'm) world =
  ctx_of :: "nat \<Rightarrow> ('q, 'v) coro_context"
  waiters :: "addr \<Rightarrow> 'm waiter_scheme"

abbreviation next_of :: "('q, 'v, 'm) world \<Rightarrow> addr \<Rightarrow> addr" where
  "next_of w \<equiv> \<lambda>a. m_next (waiters w a)"

definition set_next :: "addr \<Rightarrow> addr \<Rightarrow> ('q, 'v, 'm) world \<Rightarrow> ('q, 'v, 'm) world" where
  "set_next a n w = w\<lparr>waiters := (waiters w)(a := (waiters w a)\<lparr>m_next := n\<rparr>)\<rparr>"

definition set_coro :: "addr \<Rightarrow> handle \<Rightarrow> ('q, 'v, 'm) world \<Rightarrow> ('q, 'v, 'm) world" where
  "set_coro a h w = w\<lparr>waiters := (waiters w)(a := (waiters w a)\<lparr>m_await_coro := h\<rparr>)\<rparr>"

definition upd_ctx ::
    "nat \<Rightarrow> (('q, 'v) coro_context \<Rightarrow> ('q, 'v) coro_context) \<Rightarrow> ('q, 'v, 'm) world \<Rightarrow> ('q, 'v, 'm) world" where
  "upd_ctx i f w = w\<lparr>ctx_of := (ctx_of w)(i := f (ctx_of w i))\<rparr>"

text \<open>\<open>m_ctx.register_wait(n)\<close>, \<open>m_ctx.unregister_wait(n)\<close>, \<open>m_ctx.submit_task(m_await_coro)\<close>.\<close>

definition waiter_register :: "int \<Rightarrow> addr \<Rightarrow> ('q, 'v, 'm) world \<Rightarrow> ('q, 'v, 'm) world" where
  "waiter_register n a w = upd_ctx (m_ctx (waiters w a)) (register_wait n) w"

definition waiter_unregister :: "int \<Rightarrow> addr \<Rightarrow> ('q, 'v, 'm) world \<Rightarrow> ('q, 'v, 'm) world" where
  "waiter_unregister n a w = upd_ctx (m_ctx (waiters w a)) (unregister_wait n) w"

definition waiter_submit :: "'q queue_ops \<Rightarrow> addr \<Rightarrow> ('q, 'v, 'm) world \<Rightarrow> ('q, 'v, 'm) world res" where
  "waiter_submit Q a w =
     (let i = m_ctx (waiters w a) in
      bindE (context_submit Q (m_await_coro (waiters w a)) (ctx_of w i))
        (\<lambda>c. Inr (w\<lparr>ctx_of := (ctx_of w)(i := c)\<rparr>)))"

fun submit_waiters :: "'q queue_ops \<Rightarrow> addr list \<Rightarrow> ('q, 'v, 'm) world \<Rightarrow> ('q, 'v, 'm) world res" where
  "submit_waiters Q [] w = Inr w"
| "submit_waiters Q (a # as) w = bindE (waiter_submit Q a w) (submit_waiters Q as)"

section \<open>What a submission changes\<close>

abbreviation queued :: "('q \<Rightarrow> handle list) \<Rightarrow> ('q, 'v, 'm) world \<Rightarrow> nat \<Rightarrow> handle list" where
  "queued ql w i \<equiv> pending_of ql (ctx_of w i)"

text \<open>The handles of those of the awaiters \<open>as\<close> that belong to context \<open>i\<close>.\<close>

definition handles_for :: "nat \<Rightarrow> ('q, 'v, 'm) world \<Rightarrow> addr list \<Rightarrow> handle list" where
  "handles_for i w as = map (\<lambda>a. m_await_coro (waiters w a)) (filter (\<lambda>a. m_ctx (waiters w a) = i) as)"

text \<open>
  Every context runs, every awaiter of \<open>as\<close> has a handle, and the queues have room for them.
\<close>

definition room_for ::
    "'q queue_ops \<Rightarrow> ('q \<Rightarrow> handle list) \<Rightarrow> addr list \<Rightarrow> ('q, 'v, 'm) world \<Rightarrow> bool" where
  "room_for Q ql as w \<longleftrightarrow>
     (\<forall>i. context_running Q ql (ctx_of w i)) \<and>
     (\<forall>a \<in> set as. m_await_coro (waiters w a) \<noteq> nullptr) \<and>
     (\<forall>i. length (queued ql w i) + length (handles_for i w as) \<le> kQueCap)"

lemma handles_for_simps [simp]:
  "handles_for i w [] = []"
  "handles_for i w (a # as) =
     (if m_ctx (waiters w a) = i then m_await_coro (waiters w a) # handles_for i w as
      else handles_for i w as)"
  by (simp_all add: handles_for_def)

lemma handles_for_cong:
  "(\<And>a. a \<in> set as \<Longrightarrow> m_ctx (waiters w a) = m_ctx (waiters w' a) \<and>
      m_await_coro (waiters w a) = m_await_coro (waiters w' a)) \<Longrightarrow>
   handles_for i w as = handles_for i w' as"
  by (induction as) auto

lemma waiter_submit_waiters: "waiter_submit Q a w = Inr w' \<Longrightarrow> waiters w' = waiters w"
  by (auto simp: waiter_submit_def bindE_Inr_iff Let_def)

lemma waiter_submit_queued:
  assumes "\<forall>i. context_running Q ql (ctx_of w i)" and "waiter_submit Q a w = Inr w'"
  shows "(\<forall>i. context_running Q ql (ctx_of w' i)) \<and> (\<forall>i. queued ql w' i = queued ql w i @ handles_for i w [a])"
  using assms ctx.submit_appends [of Q ql "ctx_of w (m_ctx (waiters w a))"]
  by (auto simp: waiter_submit_def bindE_Inr_iff Let_def)

lemma room_for_hd:
  assumes "room_for Q ql (a # as) w"
  shows "\<exists>w'. waiter_submit Q a w = Inr w' \<and> room_for Q ql as w'"
proof -
  let ?i = "m_ctx (waiters w a)"
  have run: "\<forall>i. context_running Q ql (ctx_of w i)" and h: "m_await_coro (waiters w a) \<noteq> nullptr"
    and len: "\<And>i. length (queued ql w i) + length (handles_for i w (a # as)) \<le> kQueCap"
    using assms by (auto simp: room_for_def)
  have "length (queued ql w ?i) < kQueCap" using len [of ?i] by simp
  then obtain c where "context_submit Q (m_await_coro (waiters w a)) (ctx_of w ?i) = Inr c"
    using ctx.submit_accepts [of Q ql "ctx_of w ?i" "m_await_coro (waiters w a)"] run h by auto
  then obtain w' where w': "waiter_submit Q a w = Inr w'" by (auto simp: waiter_submit_def)
  note q = waiter_submit_queued [OF run w'] and same = waiter_submit_waiters [OF w']
  have "handles_for i w' as = handles_for i w as" for i
    using same by (intro handles_for_cong) simp
  then have "room_for Q ql as w'"
    using assms q len same by (auto simp: room_for_def split: if_splits)
  with w' show ?thesis by blast
qed

lemma submit_waiters_queued:
  "\<forall>i. context_running Q ql (ctx_of w i) \<Longrightarrow> submit_waiters Q as w = Inr w' \<Longrightarrow>
   (\<forall>i. context_running Q ql (ctx_of w' i)) \<and> waiters w' = waiters w \<and>
   (\<forall>i. queued ql w' i = queued ql w i @ handles_for i w as)"
proof (induction as arbitrary: w)
  case Nil
  then show ?case by simp
next
  case (Cons a as)
  then obtain w1 where w1: "waiter_submit Q a w = Inr w1" and r: "submit_waiters Q as w1 = Inr w'"
    by (auto simp: bindE_Inr_iff)
  note q = waiter_submit_queued [OF Cons.prems(1) w1] and s = waiter_submit_waiters [OF w1]
  have "handles_for i w1 as = handles_for i w as" for i
    using s by (intro handles_for_cong) simp
  with Cons.IH [OF _ r] q s show ?case by auto
qed

lemma submit_waiters_total:
  "room_for Q ql as w \<Longrightarrow> \<exists>w'. submit_waiters Q as w = Inr w'"
proof (induction as arbitrary: w)
  case Nil
  then show ?case by simp
next
  case (Cons a as)
  then show ?case using room_for_hd [OF Cons.prems] by auto
qed

lemma world_frames [simp]:
  "ctx_of (set_next a n w) = ctx_of w"
  "ctx_of (set_coro a h w) = ctx_of w"
  "waiters (upd_ctx i f w) = waiters w"
  "waiters (waiter_register k a w) = waiters w"
  "waiters (waiter_unregister k a w) = waiters w"
  "next_of (set_coro a h w) = next_of w"
  "next_of (set_next a n w) = (next_of w)(a := n)"
  by (auto simp: set_next_def set_coro_def upd_ctx_def waiter_register_def waiter_unregister_def)

lemma next_of_triv [simp]: "(next_of w)(a := m_next (waiters w a)) = next_of w"
  by (rule fun_upd_triv)

lemma set_next_frames [simp]:
  "m_ctx (waiters (set_next a n w) b) = m_ctx (waiters w b)"
  "m_await_coro (waiters (set_next a n w) b) = m_await_coro (waiters w b)"
  "handles_for i (set_next a n w) as = handles_for i w as"
  by (auto simp: set_next_def intro: handles_for_cong)

lemma set_next_next [simp]:
  "m_next (waiters (set_next a n w) a) = n"
  "b \<noteq> a \<Longrightarrow> m_next (waiters (set_next a n w) b) = m_next (waiters w b)"
  by (simp_all add: set_next_def)

text \<open>Only links were rewritten.\<close>

definition same_but_next :: "('q, 'v, 'm) world \<Rightarrow> ('q, 'v, 'm) world \<Rightarrow> bool" where
  "same_but_next w w' \<longleftrightarrow> (\<forall>c. \<exists>n. waiters w' c = (waiters w c)\<lparr>m_next := n\<rparr>)"

lemma same_but_next_refl [simp]: "same_but_next w w"
proof -
  have "\<exists>n. waiters w c = (waiters w c)\<lparr>m_next := n\<rparr>" for c
    by (rule exI [of _ "m_next (waiters w c)"]) simp
  then show ?thesis by (simp add: same_but_next_def)
qed

lemma same_but_next_set [simp]: "same_but_next w (set_next a n w)"
proof -
  have "\<exists>k. waiters (set_next a n w) c = (waiters w c)\<lparr>m_next := k\<rparr>" for c
    by (rule exI [of _ "if c = a then n else m_next (waiters w c)"]) (simp add: set_next_def)
  then show ?thesis by (simp add: same_but_next_def)
qed

lemma same_but_next_trans:
  assumes "same_but_next w w1" and "same_but_next w1 w2"
  shows "same_but_next w w2"
proof -
  have "\<exists>n. waiters w2 c = (waiters w c)\<lparr>m_next := n\<rparr>" for c
  proof -
    obtain n1 n2 where "waiters w1 c = (waiters w c)\<lparr>m_next := n1\<rparr>" "waiters w2 c = (waiters w1 c)\<lparr>m_next := n2\<rparr>"
      using assms unfolding same_but_next_def by metis
    then have "waiters w2 c = (waiters w c)\<lparr>m_next := n2\<rparr>" by simp
    then show ?thesis ..
  qed
  then show ?thesis by (simp add: same_but_next_def)
qed

lemma same_but_nextD:
  assumes "same_but_next w w'"
  shows "m_await_coro (waiters w' c) = m_await_coro (waiters w c)"
    and "m_ctx (waiters w' c) = m_ctx (waiters w c)"
proof -
  obtain n where "waiters w' c = (waiters w c)\<lparr>m_next := n\<rparr>"
    using assms unfolding same_but_next_def by blast
  then show "m_await_coro (waiters w' c) = m_await_coro (waiters w c)"
    and "m_ctx (waiters w' c) = m_ctx (waiters w c)" by simp_all
qed

lemma queued_upd_ctx [simp]: "queued ql (waiter_register k a w) i = queued ql w i"
  by (simp add: waiter_register_def upd_ctx_def register_wait_def)

section \<open>Parked awaiters under interleaving\<close>

text \<open>
  A thread that walks a list it has taken and wakes its awaiters: it reads the link of the
  current one before it submits its coroutine, because the awaiter may be gone afterwards. The
  last component of the result is the awaiter that was woken.
\<close>

datatype walker = S_idle | S_walk addr | S_submit addr addr

fun walker_step ::
    "'q queue_ops \<Rightarrow> walker \<Rightarrow> ('q, 'v, 'm) world \<Rightarrow> (walker \<times> ('q, 'v, 'm) world \<times> addr option) res" where
  "walker_step Q S_idle w = Inr (S_idle, w, None)"
| "walker_step Q (S_walk p) w =
     (if p = nullptr then Inr (S_idle, w, None) else Inr (S_submit p (m_next (waiters w p)), w, None))"
| "walker_step Q (S_submit cur nxt) w =
     bindE (waiter_submit Q cur w) (\<lambda>w1. Inr (S_walk nxt, w1, Some cur))"

fun walker_list :: "(addr \<Rightarrow> addr) \<Rightarrow> walker \<Rightarrow> addr list \<Rightarrow> bool" where
  "walker_list nxt S_idle l \<longleftrightarrow> l = []"
| "walker_list nxt (S_walk p) l \<longleftrightarrow> chain nxt p l"
| "walker_list nxt (S_submit cur n) l \<longleftrightarrow> chain nxt cur l \<and> l \<noteq> [] \<and> n = nxt cur"

lemma walker_list_upd [simp]:
  "a \<notin> set l \<Longrightarrow> walker_list (nxt(a := v)) s l \<longleftrightarrow> walker_list nxt s l"
  by (cases s; cases l) auto

lemma walker_step_list:
  assumes "walker_list (next_of w) s l" and "walker_step Q s w = Inr (s', w', woken)"
  shows "next_of w' = next_of w \<and>
    (case woken of None \<Rightarrow> walker_list (next_of w) s' l
                 | Some a \<Rightarrow> \<exists>r. l = a # r \<and> walker_list (next_of w) s' r)"
proof (cases s)
  case (S_submit cur n)
  with assms(1) have l: "chain (next_of w) cur l" "l \<noteq> []" and n: "n = m_next (waiters w cur)"
    by simp_all
  then obtain r where r: "l = cur # r" "chain (next_of w) n r" by (cases l) simp_all
  obtain w1 where w1: "waiter_submit Q cur w = Inr w1"
    and eq: "s' = S_walk n" "w' = w1" "woken = Some cur"
    using S_submit assms(2) by (cases "waiter_submit Q cur w") simp_all
  from waiter_submit_waiters [OF w1] r show ?thesis by (simp add: eq)
next
  case S_idle
  with assms show ?thesis by simp
next
  case (S_walk p)
  show ?thesis
  proof (cases "p = nullptr")
    case True
    with S_walk assms have "s' = S_idle" "w' = w" "woken = None" "l = []" by simp_all
    then show ?thesis by simp
  next
    case False
    with S_walk assms have "s' = S_submit p (m_next (waiters w p))" "w' = w" "woken = None"
      and l: "chain (next_of w) p l" by auto
    moreover have "l \<noteq> []" using False l by (cases l) simp_all
    ultimately show ?thesis by simp
  qed
qed

text \<open>
  The parked awaiters \<open>P\<close> are those in the list \<open>as\<close> of the component and those in the
  lists that walkers have taken, each in exactly one place.
\<close>

definition partitioned :: "addr set \<Rightarrow> addr list \<Rightarrow> (nat \<Rightarrow> addr list) \<Rightarrow> bool" where
  "partitioned P as ls \<longleftrightarrow>
     (\<forall>a. a \<in> P \<longleftrightarrow> a \<in> set as \<or> (\<exists>s. a \<in> set (ls s))) \<and>
     distinct as \<and> (\<forall>s. distinct (ls s)) \<and>
     (\<forall>a s. a \<in> set as \<longrightarrow> a \<notin> set (ls s)) \<and>
     (\<forall>a s t. a \<in> set (ls s) \<longrightarrow> a \<in> set (ls t) \<longrightarrow> s = t)"

lemma partitionedD:
  assumes "partitioned P as ls"
  shows "a \<in> P \<longleftrightarrow> a \<in> set as \<or> (\<exists>s. a \<in> set (ls s))"
    and "distinct as" and "distinct (ls s)"
    and "a \<in> set as \<Longrightarrow> a \<notin> set (ls s)"
    and "a \<in> set (ls s) \<Longrightarrow> a \<in> set (ls t) \<Longrightarrow> s = t"
  using assms unfolding partitioned_def by blast+

lemma partitionedI:
  assumes "\<And>a. a \<in> P \<longleftrightarrow> a \<in> set as \<or> (\<exists>s. a \<in> set (ls s))"
    and "distinct as" and "\<And>s. distinct (ls s)"
    and "\<And>a s. a \<in> set as \<Longrightarrow> a \<notin> set (ls s)"
    and "\<And>a s t. a \<in> set (ls s) \<Longrightarrow> a \<in> set (ls t) \<Longrightarrow> s = t"
  shows "partitioned P as ls"
  using assms unfolding partitioned_def by blast

lemma partitioned_push:
  "partitioned P as ls \<Longrightarrow> a \<notin> P \<Longrightarrow> partitioned (insert a P) (a # as) ls"
  by (auto simp: partitioned_def)

lemma partitioned_take:
  assumes "partitioned P as ls" and "ls s = []"
  shows "partitioned P [] (ls(s := as))"
proof -
  note D = partitionedD [OF assms(1)]
  have mem: "a \<in> set ((ls(s := as)) t) \<longleftrightarrow> (t = s \<and> a \<in> set as) \<or> a \<in> set (ls t)" for a t
    using assms(2) by auto
  show ?thesis
  proof (rule partitionedI)
    show "a \<in> P \<longleftrightarrow> a \<in> set [] \<or> (\<exists>t. a \<in> set ((ls(s := as)) t))" for a
      unfolding mem using D(1) [of a] by (simp only: list.set empty_iff simp_thms) blast
    show "distinct ((ls(s := as)) t)" for t using D(2,3) by simp
    show "t = u" if "a \<in> set ((ls(s := as)) t)" "a \<in> set ((ls(s := as)) u)" for a t u
      using that unfolding mem using D(4,5) by blast
  qed simp_all
qed

lemma partitioned_pop:
  assumes "partitioned P as ls" and "ls s = a # r"
  shows "partitioned (P - {a}) as (ls(s := r))"
proof -
  note D = partitionedD [OF assms(1)]
  have ar: "a \<notin> set r" "distinct r" using D(3) [of s] assms(2) by auto
  have as: "a \<in> set (ls s)" using assms(2) by simp
  have mem: "b \<in> set ((ls(s := r)) t) \<longleftrightarrow> b \<in> set (ls t) \<and> b \<noteq> a" for b t
  proof (cases "t = s")
    case True
    with ar assms(2) show ?thesis by auto
  next
    case False
    with D(5) as show ?thesis by auto
  qed
  have "a \<notin> set as" using D(4) as by blast
  show ?thesis
  proof (rule partitionedI)
    show "b \<in> P - {a} \<longleftrightarrow> b \<in> set as \<or> (\<exists>t. b \<in> set ((ls(s := r)) t))" for b
      unfolding mem using D(1) [of b] \<open>a \<notin> set as\<close> by blast
    show "distinct as" by (rule D(2))
    show "distinct ((ls(s := r)) t)" for t using D(3) ar by simp
    show "b \<notin> set ((ls(s := r)) t)" if "b \<in> set as" for b t
      unfolding mem using D(4) that by blast
    show "t = u" if "b \<in> set ((ls(s := r)) t)" "b \<in> set ((ls(s := r)) u)" for b t u
      using that unfolding mem using D(5) by blast
  qed
qed

lemma partitioned_mem: "partitioned P as ls \<Longrightarrow> a \<notin> P \<Longrightarrow> a \<notin> set as \<and> (\<forall>s. a \<notin> set (ls s))"
  by (auto simp: partitioned_def)

text \<open>
  Where a coroutine is in a \<open>co_await\<close> that may park it: outside, at the top of the loop, behind
  a check at the top of the loop that found it has to wait, between the load of the head and the
  compare-exchange, parked, or about to run \<open>await_resume\<close>.
\<close>

datatype waiter_pc = W_out | W_trying | W_checked | W_loaded addr | W_parked | W_resuming

definition bump :: "addr \<Rightarrow> (addr \<Rightarrow> nat) \<Rightarrow> addr \<Rightarrow> nat" where
  "bump a f = f(a := Suc (f a))"

text \<open>
  The invariant of a lock-free list of parked awaiters with head \<open>head\<close> (None when the component
  takes no more awaiters). Addresses in \<open>bad\<close> are values of the head with a special meaning.
  \<open>parks\<close> and \<open>wakes\<close> count, per awaiter object, how often it was put into the list and how
  often its coroutine was submitted.
\<close>

definition park_inv ::
    "addr set \<Rightarrow> addr option \<Rightarrow> (addr \<Rightarrow> addr) \<Rightarrow> (addr \<Rightarrow> waiter_pc) \<Rightarrow> (nat \<Rightarrow> walker) \<Rightarrow>
     (addr \<Rightarrow> nat) \<Rightarrow> (addr \<Rightarrow> nat) \<Rightarrow> addr list \<Rightarrow> (nat \<Rightarrow> addr list) \<Rightarrow> bool" where
  "park_inv bad head nxt pcs ws parks wakes as ls \<longleftrightarrow>
     (\<forall>a. a = nullptr \<or> a \<in> bad \<longrightarrow> pcs a = W_out) \<and>
     (case head of None \<Rightarrow> as = [] | Some p \<Rightarrow> chain nxt p as) \<and>
     (\<forall>t. walker_list nxt (ws t) (ls t)) \<and>
     partitioned {a. pcs a = W_parked} as ls \<and>
     (\<forall>a old. pcs a = W_loaded old \<longrightarrow> nxt a = old \<and> old \<notin> bad) \<and>
     (\<forall>a. parks a = wakes a + (if pcs a = W_parked then 1 else 0))"

lemma park_invI:
  assumes "\<And>a. a = nullptr \<or> a \<in> bad \<Longrightarrow> pcs a = W_out"
    and "case head of None \<Rightarrow> as = [] | Some p \<Rightarrow> chain nxt p as"
    and "\<And>t. walker_list nxt (ws t) (ls t)"
    and "partitioned {a. pcs a = W_parked} as ls"
    and "\<And>a old. pcs a = W_loaded old \<Longrightarrow> nxt a = old \<and> old \<notin> bad"
    and "\<And>a. parks a = wakes a + (if pcs a = W_parked then 1 else 0)"
  shows "park_inv bad head nxt pcs ws parks wakes as ls"
  using assms unfolding park_inv_def by blast

lemma park_invD:
  assumes "park_inv bad head nxt pcs ws parks wakes as ls"
  shows "pcs a \<noteq> W_out \<Longrightarrow> a \<noteq> nullptr \<and> a \<notin> bad"
    and "case head of None \<Rightarrow> as = [] | Some p \<Rightarrow> chain nxt p as"
    and "walker_list nxt (ws t) (ls t)"
    and "partitioned {a. pcs a = W_parked} as ls"
    and "pcs a = W_loaded old \<Longrightarrow> nxt a = old \<and> old \<notin> bad"
    and "parks a = wakes a + (if pcs a = W_parked then 1 else 0)"
proof -
  have c: "\<forall>a. a = nullptr \<or> a \<in> bad \<longrightarrow> pcs a = W_out"
    "\<forall>t. walker_list nxt (ws t) (ls t)"
    "\<forall>a old. pcs a = W_loaded old \<longrightarrow> nxt a = old \<and> old \<notin> bad"
    "\<forall>a. parks a = wakes a + (if pcs a = W_parked then 1 else 0)"
    using assms unfolding park_inv_def by - (elim conjE, assumption)+
  show "pcs a \<noteq> W_out \<Longrightarrow> a \<noteq> nullptr \<and> a \<notin> bad" using c(1) by metis
  show "walker_list nxt (ws t) (ls t)" using c(2) by (rule spec)
  show "pcs a = W_loaded old \<Longrightarrow> nxt a = old \<and> old \<notin> bad" using c(3) by metis
  show "parks a = wakes a + (if pcs a = W_parked then 1 else 0)" using c(4) by (rule spec)
next
  show "case head of None \<Rightarrow> as = [] | Some p \<Rightarrow> chain nxt p as" and "partitioned {a. pcs a = W_parked} as ls"
    using assms unfolding park_inv_def by - (elim conjE, assumption)+
qed


text \<open>One unparked awaiter moves between unparked places, possibly rewriting its own link.\<close>

lemma park_inv_local:
  assumes I: "park_inv bad head nxt pcs ws parks wakes as ls"
    and a: "pcs a \<noteq> W_parked" "pc \<noteq> W_parked" "a \<noteq> nullptr" "a \<notin> bad"
    and pc: "\<And>old. pc = W_loaded old \<Longrightarrow> n = old \<and> old \<notin> bad"
  shows "park_inv bad head (nxt(a := n)) (pcs(a := pc)) ws parks wakes as ls"
proof (rule park_invI)
  note D = park_invD [OF I]
  have same: "{b. (pcs(a := pc)) b = W_parked} = {b. pcs b = W_parked}" using a by auto
  have out: "a \<notin> set as" "\<And>t. a \<notin> set (ls t)" using partitioned_mem [OF D(4)] a(1) by auto
  show "(pcs(a := pc)) b = W_out" if "b = nullptr \<or> b \<in> bad" for b
    using that a D(1) [of b] by auto
  show "case head of None \<Rightarrow> as = [] | Some p \<Rightarrow> chain (nxt(a := n)) p as"
    using D(2) out by (simp split: option.splits)
  show "walker_list (nxt(a := n)) (ws t) (ls t)" for t
    using D(3) out by simp
  show "partitioned {b. (pcs(a := pc)) b = W_parked} as ls" unfolding same by (rule D(4))
  show "(nxt(a := n)) b = old \<and> old \<notin> bad" if "(pcs(a := pc)) b = W_loaded old" for b old
    using that pc D(5) [of b old] by (cases "b = a") auto
  show "parks b = wakes b + (if (pcs(a := pc)) b = W_parked then 1 else 0)" for b
    using D(6) [of b] a by (cases "b = a") auto
qed

lemma park_inv_move:
  assumes I: "park_inv bad head nxt pcs ws parks wakes as ls"
    and a: "pcs a \<noteq> W_parked" "pcs a \<noteq> W_out" "pc \<noteq> W_parked"
    and pc: "\<And>old. pc = W_loaded old \<Longrightarrow> n = old \<and> old \<notin> bad"
  shows "park_inv bad head (nxt(a := n)) (pcs(a := pc)) ws parks wakes as ls"
  using park_inv_local [OF I a(1,3) _ _ pc] park_invD(1) [OF I a(2)] by blast

text \<open>The compare-exchange puts the awaiter at the head.\<close>

lemma park_inv_push:
  assumes I: "park_inv bad (Some old) nxt pcs ws parks wakes as ls" and a: "pcs a = W_loaded old"
  shows "park_inv bad (Some a) nxt (pcs(a := W_parked)) ws (bump a parks) wakes (a # as) ls"
proof (rule park_invI)
  note D = park_invD [OF I]
  have ins: "{b. (pcs(a := W_parked)) b = W_parked} = insert a {b. pcs b = W_parked}" by auto
  have v: "a \<noteq> nullptr" "a \<notin> bad" using D(1) [of a] a by auto
  show "(pcs(a := W_parked)) b = W_out" if "b = nullptr \<or> b \<in> bad" for b
    using that v D(1) [of b] by auto
  show "case Some a of None \<Rightarrow> a # as = [] | Some p \<Rightarrow> chain nxt p (a # as)"
    using D(2) D(5) [OF a] v by simp
  show "partitioned {b. (pcs(a := W_parked)) b = W_parked} (a # as) ls"
    unfolding ins by (rule partitioned_push [OF D(4)]) (simp add: a)
  show "nxt b = o' \<and> o' \<notin> bad" if "(pcs(a := W_parked)) b = W_loaded o'" for b o'
    using that D(5) [of b o'] by (cases "b = a") auto
  show "bump a parks b = wakes b + (if (pcs(a := W_parked)) b = W_parked then 1 else 0)" for b
    using D(6) [of b] a by (cases "b = a") (auto simp: bump_def)
qed (rule park_invD(3) [OF I])

text \<open>An exchange hands the whole list to a walker; afterwards the list is empty.\<close>

lemma park_inv_close:
  assumes I: "park_inv bad (Some p) nxt pcs ws parks wakes as ls" and t: "ws t = S_idle"
    and head: "head = None \<or> head = Some nullptr"
  shows "park_inv bad head nxt pcs (ws(t := S_walk p)) parks wakes [] (ls(t := as))"
proof (rule park_invI)
  note D = park_invD [OF I]
  have "ls t = []" using D(3) [of t] t by simp
  then show "partitioned {b. pcs b = W_parked} [] (ls(t := as))" by (rule partitioned_take [OF D(4)])
  show "walker_list nxt ((ws(t := S_walk p)) u) ((ls(t := as)) u)" for u
    using D(2) D(3) [of u] by simp
  show "case head of None \<Rightarrow> [] = [] | Some p \<Rightarrow> chain nxt p []" using head by auto
  show "pcs a = W_out" if "a = nullptr \<or> a \<in> bad" for a using that D(1) [of a] by auto
  show "nxt a = old \<and> old \<notin> bad" if "pcs a = W_loaded old" for a old by (rule D(5) [OF that])
  show "parks a = wakes a + (if pcs a = W_parked then 1 else 0)" for a by (rule D(6))
qed

lemma park_inv_walk:
  assumes I: "park_inv bad head (next_of w) pcs ws parks wakes as ls"
    and st: "walker_step Q (ws t) w = Inr (p, w', None)"
  shows "park_inv bad head (next_of w') pcs (ws(t := p)) parks wakes as ls"
proof -
  note D = park_invD [OF I] and W = walker_step_list [OF park_invD(3) [OF I] st]
  have nxt: "next_of w' = next_of w" and l: "walker_list (next_of w) p (ls t)" using W by simp_all
  show ?thesis
    unfolding nxt
  proof (rule park_invI)
    show "walker_list (next_of w) ((ws(t := p)) u) (ls u)" for u
      using D(3) [of u] l by simp
    show "pcs a = W_out" if "a = nullptr \<or> a \<in> bad" for a using that D(1) [of a] by auto
    show "next_of w a = old \<and> old \<notin> bad" if "pcs a = W_loaded old" for a old
      by (rule D(5) [OF that])
    show "parks a = wakes a + (if pcs a = W_parked then 1 else 0)" for a by (rule D(6))
    show "partitioned {a. pcs a = W_parked} as ls" by (rule D(4))
    show "case head of None \<Rightarrow> as = [] | Some p \<Rightarrow> chain (next_of w) p as" by (rule D(2))
  qed
qed

lemma park_inv_wake:
  assumes I: "park_inv bad head (next_of w) pcs ws parks wakes as ls"
    and st: "walker_step Q (ws t) w = Inr (p, w', Some a)"
  shows "\<exists>ls'. park_inv bad head (next_of w') (pcs(a := W_resuming)) (ws(t := p)) parks (bump a wakes) as ls'"
proof -
  note D = park_invD [OF I] and W = walker_step_list [OF park_invD(3) [OF I] st]
  have nxt: "next_of w' = next_of w" using W by simp
  obtain r where r: "ls t = a # r" and l: "walker_list (next_of w) p r" using W by auto
  have del: "{b. (pcs(a := W_resuming)) b = W_parked} = {b. pcs b = W_parked} - {a}" by auto
  have a: "pcs a = W_parked" using partitionedD(1) [OF D(4), of a] r by (metis list.set_intros(1) mem_Collect_eq)
  have "park_inv bad head (next_of w) (pcs(a := W_resuming)) (ws(t := p)) parks (bump a wakes) as (ls(t := r))"
  proof (rule park_invI)
    show "(pcs(a := W_resuming)) b = W_out" if "b = nullptr \<or> b \<in> bad" for b
      using that a D(1) [of b] by auto
    show "walker_list (next_of w) ((ws(t := p)) u) ((ls(t := r)) u)" for u
      using D(3) [of u] l by simp
    show "partitioned {b. (pcs(a := W_resuming)) b = W_parked} as (ls(t := r))"
      unfolding del by (rule partitioned_pop [of _ _ ls, OF D(4) r])
    show "next_of w b = old \<and> old \<notin> bad" if "(pcs(a := W_resuming)) b = W_loaded old" for b old
      using that D(5) [of b old] by (cases "b = a") auto
    show "parks b = bump a wakes b + (if (pcs(a := W_resuming)) b = W_parked then 1 else 0)" for b
      using D(6) [of b] a by (cases "b = a") (auto simp: bump_def)
  qed (rule D(2))
  then show ?thesis unfolding nxt by blast
qed

end
