(* ===== verification/Event.thy ===== *)
theory Event
  imports Awaiters
begin

text \<open>
  \<open>coro::detail::event_base\<close>, \<open>coro::event\<close> and \<open>coro::event_guard\<close>
  (include/coro/comp/event.hpp, src/comp/event.cpp). \<open>m_state\<close> is the address of the event
  itself when it is set, and otherwise the head of the list of parked awaiters.

  The first part has the operations as functions; the attempts of a compare-exchange loop that
  fail although nothing changed are an input. The second part lets waiting coroutines and setting
  threads interleave between their atomic accesses.
\<close>

section \<open>State and operations\<close>

record event_base =
  ev_this :: addr
  m_state :: addr

definition new_event :: "addr \<Rightarrow> bool \<Rightarrow> event_base" where
  "new_event self initial_set = \<lparr>ev_this = self, m_state = (if initial_set then self else nullptr)\<rparr>"

definition is_set :: "event_base \<Rightarrow> bool" where
  "is_set ev \<longleftrightarrow> m_state ev = ev_this ev"

text \<open>The awaiter: \<open>wait\<close> makes it in the caller's context \<open>i\<close>.\<close>

definition new_waiter :: "nat \<Rightarrow> waiter" where
  "new_waiter i = \<lparr>m_ctx = i, m_next = nullptr, m_await_coro = nullptr\<rparr>"

definition event_wait :: "nat \<Rightarrow> addr \<Rightarrow> ('q, 'v, unit) world \<Rightarrow> ('q, 'v, unit) world" where
  "event_wait i a w = w\<lparr>waiters := (waiters w)(a := new_waiter i)\<rparr>"

definition event_await_ready ::
    "addr \<Rightarrow> event_base \<Rightarrow> ('q, 'v, 'm) world \<Rightarrow> bool \<times> ('q, 'v, 'm) world" where
  "event_await_ready a ev w = (let w1 = waiter_register 1 a w in (is_set ev, w1))"

definition event_await_resume :: "addr \<Rightarrow> ('q, 'v, 'm) world \<Rightarrow> ('q, 'v, 'm) world" where
  "event_await_resume a w = waiter_unregister 1 a w"

text \<open>
  One round of the loop in \<open>register_awaiters\<close>: the load with what follows it, and the
  compare-exchange. \<open>None\<close> from the load means that the event was found set.
\<close>

definition register_load ::
    "addr \<Rightarrow> event_base \<Rightarrow> ('q, 'v, 'm) world \<Rightarrow> addr option \<times> ('q, 'v, 'm) world" where
  "register_load a ev w =
     (let old_value = m_state ev in
      if old_value = ev_this ev then (None, set_next a nullptr w)
      else (Some old_value, set_next a old_value w))"

definition register_cas :: "bool \<Rightarrow> addr \<Rightarrow> addr \<Rightarrow> event_base \<Rightarrow> bool \<times> event_base" where
  "register_cas spurious old_value a ev =
     (case cas_weak spurious (m_state ev) old_value a of
        (ok, new, _) \<Rightarrow> (ok, ev\<lparr>m_state := new\<rparr>))"

fun register_awaiters ::
    "bool list \<Rightarrow> addr \<Rightarrow> event_base \<Rightarrow> ('q, 'v, 'm) world \<Rightarrow> (bool \<times> event_base \<times> ('q, 'v, 'm) world) res" where
  "register_awaiters [] a ev w = Inl Out_of_fuel"
| "register_awaiters (sp # sps) a ev w =
     (case register_load a ev w of
        (None, w1) \<Rightarrow> Inr (False, ev, w1)
      | (Some old_value, w1) \<Rightarrow>
          (case register_cas sp old_value a ev of
             (True, ev1) \<Rightarrow> Inr (True, ev1, w1)
           | (False, ev1) \<Rightarrow> register_awaiters sps a ev1 w1))"

definition event_await_suspend ::
    "bool list \<Rightarrow> addr \<Rightarrow> handle \<Rightarrow> event_base \<Rightarrow> ('q, 'v, 'm) world \<Rightarrow>
     (bool \<times> event_base \<times> ('q, 'v, 'm) world) res" where
  "event_await_suspend sps a h ev w = register_awaiters sps a ev (set_coro a h w)"

text \<open>\<open>resume_all_awaiters\<close>; the fuel bounds the length of the list.\<close>

fun resume_all_awaiters ::
    "nat \<Rightarrow> 'q queue_ops \<Rightarrow> addr \<Rightarrow> ('q, 'v, 'm) world \<Rightarrow> ('q, 'v, 'm) world res" where
  "resume_all_awaiters 0 Q waiter w = Inl Out_of_fuel"
| "resume_all_awaiters (Suc n) Q waiter w =
     (if waiter = nullptr then Inr w
      else let nxt = m_next (waiters w waiter) in
        bindE (waiter_submit Q waiter w) (resume_all_awaiters n Q nxt))"

definition set_state ::
    "nat \<Rightarrow> 'q queue_ops \<Rightarrow> event_base \<Rightarrow> ('q, 'v, 'm) world \<Rightarrow> (event_base \<times> ('q, 'v, 'm) world) res" where
  "set_state fuel Q ev w =
     (case exchange (m_state ev) (ev_this ev) of (flag, new) \<Rightarrow>
        let ev1 = ev\<lparr>m_state := new\<rparr> in
        if flag \<noteq> ev_this ev
        then bindE (resume_all_awaiters fuel Q flag w) (\<lambda>w1. Inr (ev1, w1))
        else Inr (ev1, w))"

text \<open>
  \<open>event<T>\<close> adds a result container; \<open>event<void>\<close> does not, and \<open>event_guard\<close> calls its
  \<open>set\<close> on destruction.
\<close>

record ('t, 'e) value_event = event_base +
  ev_slot :: "('t, 'e) container"

definition set_value ::
    "nat \<Rightarrow> 'q queue_ops \<Rightarrow> 't \<Rightarrow> ('t, 'e) value_event \<Rightarrow> ('q, 'v, 'm) world \<Rightarrow>
     (('t, 'e) value_event \<times> ('q, 'v, 'm) world) res" where
  "set_value fuel Q v ev w =
     (let slot = return_value v (ev_slot ev) in
      bindE (set_state fuel Q (event_base.truncate ev) w) (\<lambda>(b, w1).
        Inr (ev\<lparr>m_state := m_state b, ev_slot := slot\<rparr>, w1)))"

definition value_await_resume ::
    "addr \<Rightarrow> ('t, 'e) value_event \<Rightarrow> ('q, 'v, 'm) world \<Rightarrow> ('e thrown + 't) \<times> ('q, 'v, 'm) world" where
  "value_await_resume a ev w =
     (let w1 = event_await_resume a w in (container_result (ev_slot ev), w1))"

definition event_guard_dtor ::
    "nat \<Rightarrow> 'q queue_ops \<Rightarrow> event_base \<Rightarrow> ('q, 'v, 'm) world \<Rightarrow> (event_base \<times> ('q, 'v, 'm) world) res" where
  "event_guard_dtor fuel Q ev w = set_state fuel Q ev w"

section \<open>The operations without interference\<close>

text \<open>\<open>parked_on as ev w\<close>: the event is not set and its list is \<open>as\<close>, newest first.\<close>

definition parked_on :: "addr list \<Rightarrow> event_base \<Rightarrow> ('q, 'v, 'm) world \<Rightarrow> bool" where
  "parked_on as ev w \<longleftrightarrow> chain (next_of w) (m_state ev) as \<and> ev_this ev \<notin> set as \<and> ev_this ev \<noteq> nullptr"

lemma parked_not_set: "parked_on as ev w \<Longrightarrow> \<not> is_set ev"
  by (cases as) (auto simp: parked_on_def is_set_def)

lemma resume_all_chain:
  "chain (next_of w) p as \<Longrightarrow> length as < n \<Longrightarrow> resume_all_awaiters n Q p w = submit_waiters Q as w"
proof (induction as arbitrary: n p w)
  case Nil
  then show ?case by (cases n) auto
next
  case (Cons a as)
  then obtain m where n: "n = Suc m" by (cases n) auto
  have p: "p = a" "a \<noteq> nullptr" and tl: "chain (next_of w) (m_next (waiters w a)) as"
    using Cons.prems by auto
  show ?case
  proof (cases "waiter_submit Q a w")
    case (Inl e)
    then show ?thesis by (simp add: n p)
  next
    case (Inr w1)
    have "resume_all_awaiters m Q (m_next (waiters w a)) w1 = submit_waiters Q as w1"
      using Cons.IH [of w1 "m_next (waiters w a)" m] tl Cons.prems(2)
      by (simp add: waiter_submit_waiters [OF Inr] n)
    with Inr show ?thesis by (simp add: n p)
  qed
qed

lemma set_state_parked:
  "parked_on as ev w \<Longrightarrow> length as < n \<Longrightarrow>
   set_state n Q ev w = bindE (submit_waiters Q as w) (\<lambda>w1. Inr (ev\<lparr>m_state := ev_this ev\<rparr>, w1))"
  using parked_not_set [of as ev w] resume_all_chain [of w "m_state ev" as n Q]
  by (simp add: set_state_def atomic_defs parked_on_def is_set_def)

lemma set_state_again: "is_set ev \<Longrightarrow> set_state n Q ev w = Inr (ev, w)"
  by (simp add: set_state_def atomic_defs is_set_def)

lemma register_parked:
  "parked_on as ev w \<Longrightarrow> a \<notin> set as \<Longrightarrow> a \<noteq> nullptr \<Longrightarrow> a \<noteq> ev_this ev \<Longrightarrow> False \<in> set sps \<Longrightarrow>
   \<exists>w1. register_awaiters sps a ev w = Inr (True, ev\<lparr>m_state := a\<rparr>, w1) \<and>
     parked_on (a # as) (ev\<lparr>m_state := a\<rparr>) w1 \<and> ctx_of w1 = ctx_of w \<and>
     (\<forall>b. m_await_coro (waiters w1 b) = m_await_coro (waiters w b) \<and>
          m_ctx (waiters w1 b) = m_ctx (waiters w b))"
proof (induction sps arbitrary: w)
  case Nil
  then show ?case by simp
next
  case (Cons sp sps)
  let ?w = "set_next a (m_state ev) w"
  have load: "register_load a ev w = (Some (m_state ev), ?w)"
    using parked_not_set [OF Cons.prems(1)] by (simp add: register_load_def is_set_def Let_def)
  have keep: "parked_on as ev ?w" and push: "parked_on (a # as) (ev\<lparr>m_state := a\<rparr>) ?w"
    using Cons.prems by (auto simp: parked_on_def)
  show ?case
  proof (cases sp)
    case True
    with Cons.prems have "False \<in> set sps" by simp
    from Cons.IH [OF keep Cons.prems(2-4) this] True load show ?thesis
      by (auto simp: register_cas_def atomic_defs)
  next
    case False
    with load push show ?thesis by (auto simp: register_cas_def atomic_defs)
  qed
qed

section \<open>The interface of a one-shot switch\<close>

text \<open>What a latch relies on: switching on works once, and again does nothing.\<close>

locale one_shot =
  fixes is_on :: "'s \<Rightarrow> bool"
    and switch_on :: "'s \<Rightarrow> 's res"
  assumes switched: "switch_on s = Inr s' \<Longrightarrow> is_on s'"
    and switch_again: "is_on s \<Longrightarrow> switch_on s = Inr s"
begin

lemma switch_twice: "bindE (switch_on s) switch_on = switch_on s"
  by (cases "switch_on s") (auto dest: switched switch_again)

end

interpretation ev: one_shot "\<lambda>(ev, w). is_set ev" "\<lambda>(ev, w). set_state n Q ev w" for n Q
proof unfold_locales
  show "(case s' of (ev, w) \<Rightarrow> is_set ev)" if "(case s of (ev, w) \<Rightarrow> set_state n Q ev w) = Inr s'" for s s'
    using that
    by (cases s) (auto simp: set_state_def atomic_defs Let_def bindE_Inr_iff is_set_def split: if_splits)
  show "(case s of (ev, w) \<Rightarrow> set_state n Q ev w) = Inr s" if "case s of (ev, w) \<Rightarrow> is_set ev" for s
    using that set_state_again by (auto split: prod.splits)
qed

section \<open>Waiting and setting concurrently\<close>

text \<open>
  Coroutines in \<open>co_await ev.wait()\<close> and threads in \<open>set_state\<close>, each step one atomic access
  with the local code around it.
\<close>

record ('q, 'v, 'm) event_system =
  sys_event :: event_base
  sys_world :: "('q, 'v, 'm) world"
  wpc :: "addr \<Rightarrow> waiter_pc"
  spc :: "nat \<Rightarrow> walker"
  parks :: "addr \<Rightarrow> nat"
  wakes :: "addr \<Rightarrow> nat"

inductive event_step ::
    "'q queue_ops \<Rightarrow> ('q, 'v, 'm) event_system \<Rightarrow> ('q, 'v, 'm) event_system \<Rightarrow> bool" for Q where
  E_ready: "wpc s a = W_out \<Longrightarrow> a \<noteq> nullptr \<Longrightarrow> a \<noteq> ev_this (sys_event s) \<Longrightarrow>
    event_await_ready a (sys_event s) (sys_world s) = (b, w) \<Longrightarrow>
    event_step Q s (s\<lparr>sys_world := if b then w else set_coro a h w,
      wpc := (wpc s)(a := if b then W_resuming else W_trying)\<rparr>)"
| E_load_set: "wpc s a = W_trying \<Longrightarrow> register_load a (sys_event s) (sys_world s) = (None, w) \<Longrightarrow>
    event_step Q s (s\<lparr>sys_world := w, wpc := (wpc s)(a := W_resuming)\<rparr>)"
| E_load: "wpc s a = W_trying \<Longrightarrow> register_load a (sys_event s) (sys_world s) = (Some old, w) \<Longrightarrow>
    event_step Q s (s\<lparr>sys_world := w, wpc := (wpc s)(a := W_loaded old)\<rparr>)"
| E_cas_fail: "wpc s a = W_loaded old \<Longrightarrow> register_cas sp old a (sys_event s) = (False, ev) \<Longrightarrow>
    event_step Q s (s\<lparr>sys_event := ev, wpc := (wpc s)(a := W_trying)\<rparr>)"
| E_cas: "wpc s a = W_loaded old \<Longrightarrow> register_cas sp old a (sys_event s) = (True, ev) \<Longrightarrow>
    event_step Q s (s\<lparr>sys_event := ev, wpc := (wpc s)(a := W_parked), parks := bump a (parks s)\<rparr>)"
| E_resume: "wpc s a = W_resuming \<Longrightarrow>
    event_step Q s (s\<lparr>sys_world := event_await_resume a (sys_world s), wpc := (wpc s)(a := W_out)\<rparr>)"
| E_set: "spc s t = S_idle \<Longrightarrow>
    exchange (m_state (sys_event s)) (ev_this (sys_event s)) = (flag, new) \<Longrightarrow>
    event_step Q s (s\<lparr>sys_event := (sys_event s)\<lparr>m_state := new\<rparr>,
      spc := (spc s)(t := if flag \<noteq> ev_this (sys_event s) then S_walk flag else S_idle)\<rparr>)"
| E_walk: "walker_step Q (spc s t) (sys_world s) = Inr (p, w, None) \<Longrightarrow>
    event_step Q s (s\<lparr>sys_world := w, spc := (spc s)(t := p)\<rparr>)"
| E_wake: "walker_step Q (spc s t) (sys_world s) = Inr (p, w, Some a) \<Longrightarrow>
    event_step Q s (s\<lparr>sys_world := w, spc := (spc s)(t := p),
      wpc := (wpc s)(a := W_resuming), wakes := bump a (wakes s)\<rparr>)"

text \<open>Nobody waits and nobody sets.\<close>

definition event_start :: "('q, 'v, 'm) event_system \<Rightarrow> bool" where
  "event_start s \<longleftrightarrow>
     ev_this (sys_event s) \<noteq> nullptr \<and>
     (m_state (sys_event s) = nullptr \<or> is_set (sys_event s)) \<and>
     wpc s = (\<lambda>_. W_out) \<and> spc s = (\<lambda>_. S_idle) \<and> parks s = (\<lambda>_. 0) \<and> wakes s = (\<lambda>_. 0)"

definition event_reach :: "'q queue_ops \<Rightarrow> ('q, 'v, 'm) event_system \<Rightarrow> bool" where
  "event_reach Q s \<longleftrightarrow> (\<exists>s0. event_start s0 \<and> (event_step Q)\<^sup>*\<^sup>* s0 s)"

definition event_head :: "event_base \<Rightarrow> addr option" where
  "event_head ev = (if is_set ev then None else Some (m_state ev))"

abbreviation event_inv :: "('q, 'v, 'm) event_system \<Rightarrow> addr list \<Rightarrow> (nat \<Rightarrow> addr list) \<Rightarrow> bool" where
  "event_inv s as ls \<equiv>
     park_inv {ev_this (sys_event s)} (event_head (sys_event s)) (next_of (sys_world s))
       (wpc s) (spc s) (parks s) (wakes s) as ls"

lemma event_step_inv:
  assumes "event_step Q s s'" and I: "event_inv s as ls"
  shows "\<exists>as' ls'. event_inv s' as' ls' \<and> ev_this (sys_event s') = ev_this (sys_event s)"
  using assms(1)
proof cases
  case (E_ready a b w h)
  have "next_of w = next_of (sys_world s)" using E_ready(5) by (auto simp: event_await_ready_def Let_def)
  then show ?thesis
    using park_inv_local [OF I, of a "if b then W_resuming else W_trying" "m_next (waiters (sys_world s) a)"]
      E_ready
    by (auto split: if_splits)
next
  case (E_load_set a w)
  then have "next_of w = (next_of (sys_world s))(a := nullptr)"
    by (auto simp: register_load_def Let_def split: if_splits)
  then show ?thesis using park_inv_move [OF I, of a W_resuming nullptr] E_load_set by auto
next
  case (E_load a old w)
  then have "next_of w = (next_of (sys_world s))(a := old)" "old \<noteq> ev_this (sys_event s)"
    by (auto simp: register_load_def Let_def split: if_splits)
  then show ?thesis using park_inv_move [OF I, of a "W_loaded old" old] E_load by auto
next
  case (E_cas_fail a old sp ev)
  then have "ev = sys_event s"
    by (auto simp: register_cas_def atomic_defs split: if_splits)
  then show ?thesis using park_inv_move [OF I, of a W_trying "m_next (waiters (sys_world s) a)"] E_cas_fail
    by auto
next
  case (E_cas a old sp ev)
  then have m: "m_state (sys_event s) = old" and ev: "ev = (sys_event s)\<lparr>m_state := a\<rparr>"
    by (auto simp: register_cas_def atomic_defs split: if_splits)
  have old: "old \<noteq> ev_this (sys_event s)" and a: "a \<noteq> ev_this (sys_event s)"
    using park_invD(5,1) [OF I, of a] E_cas by auto
  then have h: "event_head (sys_event s) = Some old" "event_head ev = Some a"
    using m ev by (auto simp: event_head_def is_set_def)
  from park_inv_push [OF I [unfolded h] E_cas(2)] h ev E_cas(1) show ?thesis by auto
next
  case (E_resume a)
  then show ?thesis using park_inv_move [OF I, of a W_out "m_next (waiters (sys_world s) a)"]
    by (auto simp: event_await_resume_def)
next
  case (E_set t flag new)
  then have eq: "flag = m_state (sys_event s)" "new = ev_this (sys_event s)"
    by (auto simp: atomic_defs)
  show ?thesis
  proof (cases "is_set (sys_event s)")
    case True
    then have "(spc s)(t := S_idle) = spc s" "(sys_event s)\<lparr>m_state := ev_this (sys_event s)\<rparr> = sys_event s"
      using E_set(2) by (auto simp: is_set_def intro: event_base.equality)
    with True I eq E_set show ?thesis by (auto simp: is_set_def)
  next
    case False
    then have h: "event_head (sys_event s) = Some flag"
      and n: "event_head ((sys_event s)\<lparr>m_state := new\<rparr>) = None"
      using eq by (auto simp: event_head_def is_set_def)
    from park_inv_close [OF I [unfolded h] E_set(2), of None] n eq E_set(1) False show ?thesis
      by (auto simp: is_set_def)
  qed
next
  case (E_walk t p w)
  then show ?thesis using park_inv_walk [OF I E_walk(2)] by auto
next
  case (E_wake t p w a)
  then show ?thesis using park_inv_wake [OF I E_wake(2)] by auto
qed

lemma event_reach_step: "event_reach Q s \<Longrightarrow> event_step Q s s' \<Longrightarrow> event_reach Q s'"
  unfolding event_reach_def by (meson rtranclp.rtrancl_into_rtrancl)

lemma event_reach_inv:
  assumes "event_reach Q s"
  shows "\<exists>as ls. event_inv s as ls"
proof -
  obtain s0 where s0: "event_start s0" and run: "(event_step Q)\<^sup>*\<^sup>* s0 s"
    using assms by (auto simp: event_reach_def)
  have "event_inv s0 [] (\<lambda>_. [])"
    using s0 by (auto simp: event_start_def park_inv_def partitioned_def event_head_def split: option.splits)
  then have I0: "\<exists>as ls. event_inv s0 as ls" by blast
  from run show ?thesis
  proof (induction rule: rtranclp_induct)
    case base
    from I0 show ?case .
  next
    case (step s1 s2)
    then obtain as ls where "event_inv s1 as ls" by blast
    from event_step_inv [OF step.hyps(2) this] show ?case by blast
  qed
qed

section \<open>Properties\<close>

fun register_each ::
    "(addr \<times> bool list) list \<Rightarrow> event_base \<Rightarrow> ('q, 'v, 'm) world \<Rightarrow> (event_base \<times> ('q, 'v, 'm) world) res" where
  "register_each [] ev w = Inr (ev, w)"
| "register_each ((a, sps) # rs) ev w =
     bindE (register_awaiters sps a ev w) (\<lambda>(_, ev1, w1). register_each rs ev1 w1)"

lemma register_each_parked:
  "parked_on as ev w \<Longrightarrow> distinct (map fst rs @ as) \<Longrightarrow>
   (\<forall>(a, sps) \<in> set rs. a \<noteq> nullptr \<and> a \<noteq> ev_this ev \<and> False \<in> set sps) \<Longrightarrow>
   \<exists>ev1 w1. register_each rs ev w = Inr (ev1, w1) \<and> ev_this ev1 = ev_this ev \<and>
     parked_on (rev (map fst rs) @ as) ev1 w1 \<and> ctx_of w1 = ctx_of w \<and>
     (\<forall>b. m_await_coro (waiters w1 b) = m_await_coro (waiters w b) \<and>
          m_ctx (waiters w1 b) = m_ctx (waiters w b))"
proof (induction rs arbitrary: as ev w)
  case Nil
  then show ?case by simp
next
  case (Cons r rs)
  obtain a sps where r: "r = (a, sps)" by (cases r)
  obtain w1 where w1: "register_awaiters sps a ev w = Inr (True, ev\<lparr>m_state := a\<rparr>, w1)"
    and p: "parked_on (a # as) (ev\<lparr>m_state := a\<rparr>) w1" and c: "ctx_of w1 = ctx_of w"
    and same: "\<forall>b. m_await_coro (waiters w1 b) = m_await_coro (waiters w b) \<and>
          m_ctx (waiters w1 b) = m_ctx (waiters w b)"
    using register_parked [OF Cons.prems(1), of a sps] Cons.prems(2,3) r by auto
  from Cons.IH [OF p] Cons.prems(2,3) r
  obtain ev2 w2 where "register_each rs (ev\<lparr>m_state := a\<rparr>) w1 = Inr (ev2, w2)" "ev_this ev2 = ev_this ev"
    "parked_on (rev (map fst rs) @ a # as) ev2 w2" "ctx_of w2 = ctx_of w1"
    "\<forall>b. m_await_coro (waiters w2 b) = m_await_coro (waiters w1 b) \<and>
          m_ctx (waiters w2 b) = m_ctx (waiters w1 b)"
    by auto
  with r w1 c same show ?case by auto
qed

lemma room_for_cong:
  assumes "room_for Q ql as w" and "set bs = set as" "mset bs = mset as" and "ctx_of w' = ctx_of w"
    and "\<forall>b. m_await_coro (waiters w' b) = m_await_coro (waiters w b) \<and>
          m_ctx (waiters w' b) = m_ctx (waiters w b)"
  shows "room_for Q ql bs w'"
proof -
  have "mset (handles_for i w' bs) = mset (handles_for i w as)" for i
  proof -
    have "handles_for i w' bs = handles_for i w bs" using assms(5) by (intro handles_for_cong) simp
    then show ?thesis using assms(3) by (simp add: handles_for_def)
  qed
  then have "length (handles_for i w' bs) = length (handles_for i w as)" for i
    by (metis size_mset)
  with assms show ?thesis by (simp add: room_for_def)
qed

text \<open>
  Setting an event wakes every coroutine parked on it: after any number of registrations, each
  of which gets through its compare-exchange loop, \<open>set_state\<close> submits every parked coroutine
  once, to the context it came from, newest first; the event then stays set, a second
  \<open>set_state\<close> changes nothing, and later waiters are not parked.
\<close>

lemma event_set_wakes_all:
  assumes "m_state ev = nullptr" "ev_this ev \<noteq> nullptr" "distinct (map fst rs)"
    and "\<forall>(a, sps) \<in> set rs. a \<noteq> nullptr \<and> a \<noteq> ev_this ev \<and> False \<in> set sps"
    and "room_for Q ql (map fst rs) w" and "length rs < n"
  shows "\<exists>ev1 w1 ev2 w2.
    register_each rs ev w = Inr (ev1, w1) \<and> set_state n Q ev1 w1 = Inr (ev2, w2) \<and> is_set ev2 \<and>
    (\<forall>i. queued ql w2 i = queued ql w i @ handles_for i w (rev (map fst rs))) \<and>
    set_state n Q ev2 w2 = Inr (ev2, w2) \<and>
    (\<forall>a sp sps. \<exists>w3. register_awaiters (sp # sps) a ev2 w2 = Inr (False, ev2, w3))"
proof -
  have "parked_on [] ev w" using assms by (simp add: parked_on_def)
  from register_each_parked [OF this, of rs] assms(3,4)
  obtain ev1 w1 where reg: "register_each rs ev w = Inr (ev1, w1)"
    and p: "parked_on (rev (map fst rs)) ev1 w1" and c: "ctx_of w1 = ctx_of w"
    and same: "\<forall>b. m_await_coro (waiters w1 b) = m_await_coro (waiters w b) \<and>
          m_ctx (waiters w1 b) = m_ctx (waiters w b)"
    by auto
  have room: "room_for Q ql (rev (map fst rs)) w1"
    by (rule room_for_cong [OF assms(5) _ _ c same]) simp_all
  then obtain w2 where w2: "submit_waiters Q (rev (map fst rs)) w1 = Inr w2"
    using submit_waiters_total by blast
  have "\<forall>i. context_running Q ql (ctx_of w1 i)" using room by (simp add: room_for_def)
  from submit_waiters_queued [OF this w2]
  have q: "queued ql w2 i = queued ql w i @ handles_for i w1 (rev (map fst rs))" for i
    using c by simp
  have "handles_for i w1 (rev (map fst rs)) = handles_for i w (rev (map fst rs))" for i
    using same by (intro handles_for_cong) simp
  moreover let ?ev2 = "ev1\<lparr>m_state := ev_this ev1\<rparr>"
  have "set_state n Q ev1 w1 = Inr (?ev2, w2)"
    using set_state_parked [OF p, of n Q] w2 assms(6) by simp
  moreover have set2: "is_set ?ev2" by (simp add: is_set_def)
  moreover have "\<exists>w3. register_awaiters (sp # sps) a ?ev2 w2 = Inr (False, ?ev2, w3)" for a sp sps
    by (simp add: register_load_def)
  ultimately show ?thesis using reg q set_state_again [OF set2, of n Q w2] by auto
qed

definition demo_world :: "(handle list, nat, unit) world" where
  "demo_world = \<lparr>ctx_of = (\<lambda>_. demo_context),
     waiters = (\<lambda>a. (new_waiter (a mod 2))\<lparr>m_await_coro := 100 + a\<rparr>)\<rparr>"

lemma event_set_wakes_all_witness:
  "\<exists>ev1 w1 ev2 w2.
    register_each [(4, [False]), (5, [True, False]), (6, [False])] \<lparr>ev_this = 1, m_state = 0\<rparr> demo_world =
      Inr (ev1, w1) \<and>
    set_state 4 list_queue ev1 w1 = Inr (ev2, w2) \<and> is_set ev2 \<and>
    queued (\<lambda>q. q) w2 0 = [106, 104] \<and> queued (\<lambda>q. q) w2 1 = [105]"
proof -
  have "room_for list_queue (\<lambda>q. q) [4, 5, 6] demo_world"
    using demo_context_running demo_context_queue
    by (simp add: room_for_def demo_world_def kQueCap_def new_waiter_def)
  with event_set_wakes_all [of "\<lparr>ev_this = 1, m_state = 0\<rparr>"
      "[(4, [False]), (5, [True, False]), (6, [False])]" list_queue "\<lambda>q. q" demo_world 4]
  obtain ev1 w1 ev2 w2 where
    "register_each [(4, [False]), (5, [True, False]), (6, [False])] \<lparr>ev_this = 1, m_state = 0\<rparr> demo_world =
      Inr (ev1, w1)"
    "set_state 4 list_queue ev1 w1 = Inr (ev2, w2)" "is_set ev2"
    and q: "\<And>i. queued (\<lambda>q. q) w2 i = queued (\<lambda>q. q) demo_world i @ handles_for i demo_world [6, 5, 4]"
    by auto
  moreover have "queued (\<lambda>q. q) w2 0 = [106, 104]" "queued (\<lambda>q. q) w2 1 = [105]"
    using q [of 0] q [of 1] demo_context_queue by (simp_all add: demo_world_def new_waiter_def)
  ultimately show ?thesis by blast
qed

text \<open>
  C14. No wake-up is lost and none is doubled, however waiting coroutines and setting threads
  interleave: an awaiter is parked exactly when it has been put into the list once more than it has
  been woken, and once the event is set and the setting threads have finished, every awaiter has
  been woken exactly as often as it was parked.
\<close>

theorem event_wakes_exactly_once:
  assumes "event_reach Q s"
  shows "parks s a = wakes s a + (if wpc s a = W_parked then 1 else 0) \<and>
    (is_set (sys_event s) \<and> (\<forall>t. spc s t = S_idle) \<longrightarrow> parks s a = wakes s a)"
proof -
  obtain as ls where I: "event_inv s as ls" using event_reach_inv [OF assms] by blast
  have "wpc s a \<noteq> W_parked" if "is_set (sys_event s)" "\<forall>t. spc s t = S_idle"
  proof -
    have "as = []" using park_invD(2) [OF I] that by (simp add: event_head_def)
    moreover have "ls t = []" for t using park_invD(3) [OF I, of t] that by simp
    ultimately show ?thesis using partitionedD(1) [OF park_invD(4) [OF I], of a] by simp
  qed
  with park_invD(6) [OF I, of a] show ?thesis by simp
qed

definition demo_event_system :: "(handle list, nat, unit) event_system" where
  "demo_event_system = \<lparr>sys_event = \<lparr>ev_this = 1, m_state = 0\<rparr>, sys_world = demo_world,
     wpc = (\<lambda>_. W_out), spc = (\<lambda>_. S_idle), parks = (\<lambda>_. 0), wakes = (\<lambda>_. 0)\<rparr>"

text \<open>A run in which awaiter 4 parks and thread 0 sets the event and wakes it.\<close>

lemma demo_event_run:
  "\<exists>s :: (handle list, nat, unit) event_system. event_reach list_queue s \<and> is_set (sys_event s) \<and> (\<forall>t. spc s t = S_idle) \<and> parks s 4 = 1"
proof -
  let ?Q = list_queue
  have r0: "event_reach ?Q demo_event_system"
    unfolding event_reach_def
    by (rule exI [of _ demo_event_system]) (simp add: event_start_def demo_event_system_def)
  define s1 where "s1 = demo_event_system\<lparr>sys_world := set_coro 4 9 (waiter_register 1 4 demo_world),
    wpc := (\<lambda>_. W_out)(4 := W_trying)\<rparr>"
  have "event_step ?Q demo_event_system s1"
    using E_ready [of demo_event_system 4 False "waiter_register 1 4 demo_world" ?Q 9]
    by (simp add: s1_def demo_event_system_def event_await_ready_def is_set_def)
  then have r1: "event_reach ?Q s1" by (rule event_reach_step [OF r0])
  define w2 where "w2 = set_next 4 0 (sys_world s1)"
  define s2 where "s2 = s1\<lparr>sys_world := w2, wpc := (wpc s1)(4 := W_loaded 0)\<rparr>"
  have "event_step ?Q s1 s2"
    unfolding s2_def
    by (rule E_load) (simp_all add: s1_def w2_def demo_event_system_def register_load_def)
  then have r2: "event_reach ?Q s2" by (rule event_reach_step [OF r1])
  define s3 where "s3 = s2\<lparr>sys_event := \<lparr>ev_this = 1, m_state = 4\<rparr>, wpc := (wpc s2)(4 := W_parked),
    parks := bump 4 (parks s2)\<rparr>"
  have "event_step ?Q s2 s3"
    unfolding s3_def
    by (rule E_cas [where sp = False and old = 0])
       (simp_all add: s2_def s1_def demo_event_system_def register_cas_def atomic_defs)
  then have r3: "event_reach ?Q s3" by (rule event_reach_step [OF r2])
  define s4 where "s4 = s3\<lparr>sys_event := \<lparr>ev_this = 1, m_state = 1\<rparr>, spc := (spc s3)(0 := S_walk 4)\<rparr>"
  have "event_step ?Q s3 s4"
    using E_set [of s3 0 4 1 ?Q]
    by (simp add: s4_def s3_def s2_def s1_def demo_event_system_def atomic_defs)
  then have r4: "event_reach ?Q s4" by (rule event_reach_step [OF r3])
  define s5 where "s5 = s4\<lparr>sys_world := w2, spc := (spc s4)(0 := S_submit 4 0)\<rparr>"
  have w4: "sys_world s4 = w2" by (simp add: s4_def s3_def s2_def)
  have "event_step ?Q s4 s5"
    unfolding s5_def
    by (rule E_walk) (simp add: w4, simp add: s4_def w2_def set_next_def)
  then have r5: "event_reach ?Q s5" by (rule event_reach_step [OF r4])
  have "\<exists>w. waiter_submit ?Q 4 w2 = Inr w"
    by (simp add: waiter_submit_def w2_def s1_def demo_world_def waiter_register_def
        upd_ctx_def set_next_def set_coro_def new_waiter_def context_submit_def submit_task_def wake_up_def
        write_eventfd_def demo_context_def demo_engine_def demo_proxy_def list_queue_def kQueCap_def
        register_wait_def)
  then obtain w6 where w6: "waiter_submit ?Q 4 w2 = Inr w6" by blast
  define s6 where "s6 = s5\<lparr>sys_world := w6, spc := (spc s5)(0 := S_walk 0),
    wpc := (wpc s5)(4 := W_resuming), wakes := bump 4 (wakes s5)\<rparr>"
  have "event_step ?Q s5 s6"
    unfolding s6_def by (rule E_wake) (simp add: s5_def w6)
  then have r6: "event_reach ?Q s6" by (rule event_reach_step [OF r5])
  define s7 where "s7 = s6\<lparr>sys_world := w6, spc := (spc s6)(0 := S_idle)\<rparr>"
  have "event_step ?Q s6 s7"
    unfolding s7_def by (rule E_walk) (simp add: s6_def)
  then have r7: "event_reach ?Q s7" by (rule event_reach_step [OF r6])
  moreover have "is_set (sys_event s7)" "\<forall>t. spc s7 t = S_idle" "parks s7 4 = 1"
    by (simp_all add: s7_def s6_def s5_def s4_def s3_def s2_def s1_def demo_event_system_def
        is_set_def bump_def)
  ultimately show ?thesis by blast
qed

theorem event_wakes_exactly_once_witness:
  "\<exists>s. event_reach list_queue (s :: (handle list, nat, unit) event_system) \<and> parks s 4 = 1 \<and> wakes s 4 = 1"
proof -
  obtain s :: "(handle list, nat, unit) event_system" where s: "event_reach list_queue s"
    and q: "is_set (sys_event s)" "\<forall>t. spc s t = S_idle" and p: "parks s 4 = 1"
    using demo_event_run by blast
  have "wakes s 4 = 1" using event_wakes_exactly_once [OF s, of 4] q p by simp
  with s p show ?thesis by blast
qed

end
