(* ===== verification/Mutex.thy ===== *)
theory Mutex
  imports Event
begin

text \<open>
  \<open>coro::mutex\<close> (include/coro/comp/mutex.hpp, src/comp/mutex.cpp) and
  \<open>coro::detail::lock_guard\<close> (include/coro/comp/mutex_guard.hpp). \<open>m_state\<close> is 1 when the
  mutex is free, 0 when it is held and nobody was pushed since the last take, and otherwise the
  newest of the awaiters pushed since; \<open>m_resume_list_head\<close> is the oldest of the awaiters that
  were taken before.
\<close>

section \<open>State and operations\<close>

record mutex =
  mtx_state :: addr
  m_resume_list_head :: addr

definition nolocked :: addr where
  "nolocked = 1"

definition locked_no_waiting :: addr where
  "locked_no_waiting = nullptr"

definition new_mutex :: mutex where
  "new_mutex = \<lparr>mtx_state = nolocked, m_resume_list_head = nullptr\<rparr>"

definition mutex_dtor :: "mutex \<Rightarrow> unit res" where
  "mutex_dtor m = assertE (mtx_state m = nolocked)"

definition mutex_lock :: "nat \<Rightarrow> addr \<Rightarrow> ('q, 'v, unit) world \<Rightarrow> ('q, 'v, unit) world" where
  "mutex_lock i a w = w\<lparr>waiters := (waiters w)(a := new_waiter i)\<rparr>"

text \<open>One round of \<open>register_lock\<close>: the load, and the compare-exchange for what was loaded.\<close>

definition lock_load :: "addr \<Rightarrow> mutex \<Rightarrow> ('q, 'v, 'm) world \<Rightarrow> addr \<times> ('q, 'v, 'm) world" where
  "lock_load a m w =
     (let st = mtx_state m; w1 = set_next a nullptr w in
      (st, if st = nolocked then w1 else set_next a st w1))"

definition lock_cas :: "bool \<Rightarrow> addr \<Rightarrow> addr \<Rightarrow> mutex \<Rightarrow> bool \<times> mutex" where
  "lock_cas spurious st a m =
     (case cas_weak spurious (mtx_state m) st (if st = nolocked then locked_no_waiting else a) of
        (ok, new, _) \<Rightarrow> (ok, m\<lparr>mtx_state := new\<rparr>))"

fun register_lock ::
    "bool list \<Rightarrow> addr \<Rightarrow> mutex \<Rightarrow> ('q, 'v, 'm) world \<Rightarrow> (bool \<times> mutex \<times> ('q, 'v, 'm) world) res" where
  "register_lock [] a m w = Inl Out_of_fuel"
| "register_lock (sp # sps) a m w =
     (case lock_load a m w of (st, w1) \<Rightarrow>
        (case lock_cas sp st a m of
           (True, m1) \<Rightarrow> Inr (st \<noteq> nolocked, m1, w1)
         | (False, m1) \<Rightarrow> register_lock sps a m1 w1))"

definition lock_prepare :: "addr \<Rightarrow> handle \<Rightarrow> ('q, 'v, 'm) world \<Rightarrow> ('q, 'v, 'm) world" where
  "lock_prepare a h w = waiter_register 1 a (set_coro a h w)"

definition mutex_await_suspend ::
    "bool list \<Rightarrow> addr \<Rightarrow> handle \<Rightarrow> mutex \<Rightarrow> ('q, 'v, 'm) world \<Rightarrow>
     (bool \<times> mutex \<times> ('q, 'v, 'm) world) res" where
  "mutex_await_suspend sps a h m w = register_lock sps a m (lock_prepare a h w)"

definition mutex_await_resume :: "addr \<Rightarrow> ('q, 'v, 'm) world \<Rightarrow> ('q, 'v, 'm) world" where
  "mutex_await_resume a w = waiter_unregister 1 a w"

definition mutex_resume :: "'q queue_ops \<Rightarrow> addr \<Rightarrow> ('q, 'v, 'm) world \<Rightarrow> ('q, 'v, 'm) world res" where
  "mutex_resume Q a w = waiter_submit Q a w"

definition try_lock :: "mutex \<Rightarrow> bool \<times> mutex" where
  "try_lock m =
     (case cas_strong (mtx_state m) nolocked locked_no_waiting of
        (ok, new, _) \<Rightarrow> (ok, m\<lparr>mtx_state := new\<rparr>))"

text \<open>
  \<open>unlock\<close> in pieces: the assertion at its start, the attempt to release, the take of all pushed
  awaiters with the reversal of their list, the removal of the first awaiter. \<open>unlock_pick\<close> puts
  them together up to the call of the virtual \<open>resume\<close>; None means that the mutex was released.
\<close>

definition unlock_enter :: "mutex \<Rightarrow> unit res" where
  "unlock_enter m = assertE (mtx_state m \<noteq> nolocked)"

definition unlock_release :: "mutex \<Rightarrow> bool \<times> mutex" where
  "unlock_release m =
     (case cas_strong (mtx_state m) locked_no_waiting nolocked of
        (ok, new, _) \<Rightarrow> (ok, m\<lparr>mtx_state := new\<rparr>))"

fun reverse_waiters ::
    "nat \<Rightarrow> addr \<Rightarrow> addr \<Rightarrow> ('q, 'v, 'm) world \<Rightarrow> (addr \<times> ('q, 'v, 'm) world) res" where
  "reverse_waiters 0 awaiter to_resume w = Inl Out_of_fuel"
| "reverse_waiters (Suc n) awaiter to_resume w =
     (let temp = m_next (waiters w awaiter); w1 = set_next awaiter to_resume w in
      if temp = nullptr then Inr (awaiter, w1) else reverse_waiters n temp awaiter w1)"

definition unlock_take ::
    "nat \<Rightarrow> mutex \<Rightarrow> ('q, 'v, 'm) world \<Rightarrow> (addr \<times> mutex \<times> ('q, 'v, 'm) world) res" where
  "unlock_take fuel m w =
     (case exchange (mtx_state m) locked_no_waiting of (head, new) \<Rightarrow>
        bindE (assertE (head \<noteq> nolocked \<and> head \<noteq> locked_no_waiting)) (\<lambda>_.
        bindE (reverse_waiters fuel head nullptr w) (\<lambda>(to_resume, w1).
          Inr (to_resume, m\<lparr>mtx_state := new\<rparr>, w1))))"

definition unlock_pop :: "addr \<Rightarrow> mutex \<Rightarrow> ('q, 'v, 'm) world \<Rightarrow> mutex res" where
  "unlock_pop to_resume m w =
     bindE (assertE (to_resume \<noteq> nullptr)) (\<lambda>_.
       Inr (m\<lparr>m_resume_list_head := m_next (waiters w to_resume)\<rparr>))"

definition unlock_pick ::
    "nat \<Rightarrow> mutex \<Rightarrow> ('q, 'v, 'm) world \<Rightarrow> (addr option \<times> mutex \<times> ('q, 'v, 'm) world) res" where
  "unlock_pick fuel m w =
     bindE (unlock_enter m) (\<lambda>_.
       let to_resume = m_resume_list_head m in
       if to_resume = nullptr then
         (case unlock_release m of
            (True, m1) \<Rightarrow> Inr (None, m1, w)
          | (False, m1) \<Rightarrow>
              bindE (unlock_take fuel m1 w) (\<lambda>(p, m2, w1).
              bindE (unlock_pop p m2 w1) (\<lambda>m3. Inr (Some p, m3, w1))))
       else bindE (unlock_pop to_resume m w) (\<lambda>m1. Inr (Some to_resume, m1, w)))"

definition unlock ::
    "nat \<Rightarrow> 'q queue_ops \<Rightarrow> mutex \<Rightarrow> ('q, 'v, 'm) world \<Rightarrow> (addr option \<times> mutex \<times> ('q, 'v, 'm) world) res" where
  "unlock fuel Q m w =
     bindE (unlock_pick fuel m w) (\<lambda>(p, m1, w1).
       case p of None \<Rightarrow> Inr (None, m1, w1)
       | Some a \<Rightarrow> bindE (mutex_resume Q a w1) (\<lambda>w2. Inr (Some a, m1, w2)))"

section \<open>The list reversal\<close>

lemma reverse_waiters_chain:
  "chain (next_of w) awaiter (a # as) \<Longrightarrow> chain (next_of w) to_resume bs \<Longrightarrow>
   distinct (a # as @ bs) \<Longrightarrow> length as < n \<Longrightarrow>
   \<exists>p w1. reverse_waiters n awaiter to_resume w = Inr (p, w1) \<and>
     chain (next_of w1) p (rev (a # as) @ bs) \<and> ctx_of w1 = ctx_of w \<and> same_but_next w w1 \<and>
     (\<forall>c. c \<notin> set (a # as) \<longrightarrow> next_of w1 c = next_of w c)"
proof (induction as arbitrary: a awaiter to_resume bs w n)
  case Nil
  then obtain m where "n = Suc m" by (cases n) auto
  with Nil show ?case by auto
next
  case (Cons a' as)
  then obtain m where n: "n = Suc m" and m: "length as < m" by (cases n) auto
  let ?w = "set_next a to_resume w"
  have aw: "awaiter = a" "a \<noteq> nullptr" and tl: "chain (next_of w) (m_next (waiters w a)) (a' # as)"
    using Cons.prems(1) by auto
  have t: "m_next (waiters w a) \<noteq> nullptr" using tl by auto
  have "a \<notin> set (a' # as)" "a \<notin> set bs" using Cons.prems(3) by auto
  then have c1: "chain (next_of ?w) (m_next (waiters w a)) (a' # as)"
    and c2: "chain (next_of ?w) a (a # bs)"
    using tl Cons.prems(2) aw by simp_all
  have "distinct (a' # as @ a # bs)" using Cons.prems(3) by auto
  from Cons.IH [OF c1 c2 this m] obtain p w1
    where w1: "reverse_waiters m (m_next (waiters w a)) a ?w = Inr (p, w1)"
      "chain (next_of w1) p (rev (a' # as) @ a # bs)" "ctx_of w1 = ctx_of ?w" "same_but_next ?w w1"
      "\<forall>c. c \<notin> set (a' # as) \<longrightarrow> next_of w1 c = next_of ?w c" by blast
  have "same_but_next w w1" by (rule same_but_next_trans [OF same_but_next_set w1(4)])
  with w1 t show ?case by (simp add: n aw Let_def)
qed

section \<open>The abstract FIFO lock\<close>

text \<open>None is free; Some q is held with the waiters \<open>q\<close> in the order of their arrival.\<close>

type_synonym fifo = "addr list option"

datatype lock_out = Acquired | Queued | Tried bool | Released | Handed addr

datatype lock_op = Lock addr handle "bool list" | Try_lock | Unlock

fun fifo_step :: "lock_op \<Rightarrow> fifo \<Rightarrow> (lock_out \<times> fifo) res" where
  "fifo_step (Lock a h sps) None = Inr (Acquired, Some [])"
| "fifo_step (Lock a h sps) (Some q) = Inr (Queued, Some (q @ [a]))"
| "fifo_step Try_lock None = Inr (Tried True, Some [])"
| "fifo_step Try_lock (Some q) = Inr (Tried False, Some q)"
| "fifo_step Unlock None = Inl Assertion"
| "fifo_step Unlock (Some []) = Inr (Released, None)"
| "fifo_step Unlock (Some (a # q)) = Inr (Handed a, Some q)"

text \<open>The mutex represents a lock: the taken list followed by the reversed pushed list.\<close>

definition mutex_rep :: "mutex \<Rightarrow> ('q, 'v, 'm) world \<Rightarrow> fifo \<Rightarrow> bool" where
  "mutex_rep m w l \<longleftrightarrow>
     (case l of
        None \<Rightarrow> mtx_state m = nolocked \<and> m_resume_list_head m = nullptr
      | Some q \<Rightarrow> mtx_state m \<noteq> nolocked \<and>
          (\<exists>taken pushed. chain (next_of w) (m_resume_list_head m) taken \<and>
             chain (next_of w) (mtx_state m) pushed \<and> q = taken @ rev pushed) \<and>
          distinct q \<and> nolocked \<notin> set q \<and> (\<forall>a \<in> set q. m_await_coro (waiters w a) \<noteq> nullptr))"

lemma nolocked_nonnull [simp]: "nolocked \<noteq> nullptr" "nullptr \<noteq> nolocked" "0 < nolocked"
  by (simp_all add: nolocked_def)

lemma mtx_state_same: "mtx_state m = st \<Longrightarrow> m\<lparr>mtx_state := st\<rparr> = m"
  by simp

lemmas mutex_defs =
  locked_no_waiting_def lock_load_def lock_cas_def try_lock_def unlock_enter_def
  unlock_release_def unlock_take_def unlock_pop_def atomic_defs

section \<open>The mutex refines the FIFO lock\<close>

lemma mutex_rep_SomeI:
  assumes "mtx_state m \<noteq> nolocked" and "chain (next_of w) (m_resume_list_head m) taken"
    and "chain (next_of w) (mtx_state m) pushed" and "q = taken @ rev pushed"
    and "distinct q" and "nolocked \<notin> set q" and "\<forall>a \<in> set q. m_await_coro (waiters w a) \<noteq> nullptr"
  shows "mutex_rep m w (Some q)"
  unfolding mutex_rep_def option.case using assms by blast

lemma mutex_rep_SomeE:
  assumes "mutex_rep m w (Some q)"
  obtains taken pushed where "mtx_state m \<noteq> nolocked"
    and "chain (next_of w) (m_resume_list_head m) taken" and "chain (next_of w) (mtx_state m) pushed"
    and "q = taken @ rev pushed" and "distinct q" and "nolocked \<notin> set q"
    and "\<forall>a \<in> set q. m_await_coro (waiters w a) \<noteq> nullptr"
  using assms unfolding mutex_rep_def option.case by blast

lemma rep_same_waiters:
  assumes "mutex_rep m w l" and "next_of w' = next_of w"
    and "\<And>q a. l = Some q \<Longrightarrow> a \<in> set q \<Longrightarrow> m_await_coro (waiters w' a) = m_await_coro (waiters w a)"
  shows "mutex_rep m w' l"
  using assms by (auto simp: mutex_rep_def split: option.splits)

lemma register_lock_free:
  assumes "mutex_rep m w None" and "False \<in> set sps"
  shows "\<exists>m1 w1. register_lock sps a m w = Inr (False, m1, w1) \<and> mutex_rep m1 w1 (Some []) \<and>
    ctx_of w1 = ctx_of w \<and> same_but_next w w1 \<and> (\<forall>c. c \<noteq> a \<longrightarrow> next_of w1 c = next_of w c)"
  using assms
proof (induction sps arbitrary: w)
  case Nil
  then show ?case by simp
next
  case (Cons sp sps)
  have st: "mtx_state m = nolocked" "m_resume_list_head m = nullptr"
    using Cons.prems(1) by (auto simp: mutex_rep_def)
  show ?case
  proof (cases sp)
    case True
    have "mutex_rep m (set_next a nullptr w) None" using st by (simp add: mutex_rep_def)
    from Cons.IH [OF this] True Cons.prems(2) obtain m1 w1
      where r: "register_lock sps a m (set_next a nullptr w) = Inr (False, m1, w1)" "mutex_rep m1 w1 (Some [])"
        "ctx_of w1 = ctx_of w" "same_but_next (set_next a nullptr w) w1"
        "\<forall>c. c \<noteq> a \<longrightarrow> next_of w1 c = next_of (set_next a nullptr w) c" by auto
    have "same_but_next w w1" by (rule same_but_next_trans [OF same_but_next_set r(4)])
    with r True st show ?thesis by (simp add: mutex_defs Let_def mtx_state_same [OF st(1)])
  next
    case False
    with st show ?thesis by (auto simp: mutex_defs Let_def mutex_rep_def)
  qed
qed

lemma register_lock_held:
  assumes "mutex_rep m w (Some q)" and "False \<in> set sps" and "a \<notin> set q" "a \<noteq> nullptr" "a \<noteq> nolocked"
    and "m_await_coro (waiters w a) \<noteq> nullptr"
  shows "\<exists>m1 w1. register_lock sps a m w = Inr (True, m1, w1) \<and> mutex_rep m1 w1 (Some (q @ [a])) \<and>
    ctx_of w1 = ctx_of w \<and> same_but_next w w1 \<and> (\<forall>c. c \<noteq> a \<longrightarrow> next_of w1 c = next_of w c)"
  using assms
proof (induction sps arbitrary: w)
  case Nil
  then show ?case by simp
next
  case (Cons sp sps)
  obtain taken pushed where st: "mtx_state m \<noteq> nolocked"
    and t: "chain (next_of w) (m_resume_list_head m) taken" and p: "chain (next_of w) (mtx_state m) pushed"
    and q: "q = taken @ rev pushed" "distinct q" "nolocked \<notin> set q"
    and h: "\<forall>a \<in> set q. m_await_coro (waiters w a) \<noteq> nullptr"
    by (rule mutex_rep_SomeE [OF Cons.prems(1)])
  let ?w = "set_next a (mtx_state m) (set_next a nullptr w)"
  have out: "a \<notin> set taken" "a \<notin> set pushed" using Cons.prems(3) q by auto
  have sw: "same_but_next w ?w"
    by (rule same_but_next_trans [OF same_but_next_set same_but_next_set])
  have load: "lock_load a m w = (mtx_state m, ?w)" using st by (simp add: lock_load_def Let_def)
  have ct: "chain (next_of ?w) (m_resume_list_head m) taken" and cp: "chain (next_of ?w) (mtx_state m) pushed"
    using t p out by simp_all
  show ?case
  proof (cases sp)
    case True
    have "mutex_rep m ?w (Some q)" by (rule mutex_rep_SomeI [OF st ct cp q]) (simp add: h)
    from Cons.IH [OF this] True Cons.prems obtain m1 w1
      where r: "register_lock sps a m ?w = Inr (True, m1, w1)" "mutex_rep m1 w1 (Some (q @ [a]))"
        "ctx_of w1 = ctx_of w" "same_but_next ?w w1" "\<forall>c. c \<noteq> a \<longrightarrow> next_of w1 c = next_of ?w c" by auto
    have "same_but_next w w1" by (rule same_but_next_trans [OF sw r(4)])
    with r True load show ?thesis by (simp add: lock_cas_def atomic_defs)
  next
    case False
    have "chain (next_of ?w) a (a # pushed)" using cp Cons.prems(4) by simp
    moreover have "q @ [a] = taken @ rev (a # pushed)" using q by simp
    ultimately have "mutex_rep (m\<lparr>mtx_state := a\<rparr>) ?w (Some (q @ [a]))"
      using ct q(2,3) h Cons.prems(3-6)
      by (intro mutex_rep_SomeI [where taken = taken and pushed = "a # pushed"])
         (simp_all del: chain.simps)
    with False load st sw show ?thesis by (auto simp: lock_cas_def atomic_defs)
  qed
qed

lemma unlock_pick_free: "mutex_rep m w None \<Longrightarrow> unlock_pick fuel m w = Inl Assertion"
  by (simp add: unlock_pick_def mutex_rep_def unlock_enter_def)

lemma unlock_pick_last:
  assumes "mutex_rep m w (Some [])"
  shows "\<exists>m1. unlock_pick fuel m w = Inr (None, m1, w) \<and> mutex_rep m1 w None"
  using assms by (auto simp: unlock_pick_def mutex_rep_def mutex_defs Let_def)

lemma unlock_pick_next:
  assumes "mutex_rep m w (Some (a # q))" and "length q < fuel"
  shows "\<exists>m1 w1. unlock_pick fuel m w = Inr (Some a, m1, w1) \<and> mutex_rep m1 w1 (Some q) \<and>
    ctx_of w1 = ctx_of w \<and> same_but_next w w1 \<and>
    (\<forall>c. c \<notin> set (a # q) \<longrightarrow> next_of w1 c = next_of w c)"
proof -
  obtain taken pushed where st: "mtx_state m \<noteq> nolocked"
    and t: "chain (next_of w) (m_resume_list_head m) taken" and p: "chain (next_of w) (mtx_state m) pushed"
    and q: "a # q = taken @ rev pushed" "distinct (a # q)" "nolocked \<notin> set (a # q)"
    and h: "\<forall>b \<in> set (a # q). m_await_coro (waiters w b) \<noteq> nullptr"
    by (rule mutex_rep_SomeE [OF assms(1)])
  show ?thesis
  proof (cases taken)
    case (Cons a' taken')
    with t q have a: "a' = a" "m_resume_list_head m = a" "a \<noteq> nullptr"
      and t': "chain (next_of w) (m_next (waiters w a)) taken'" and q': "q = taken' @ rev pushed" by auto
    have "unlock_pick fuel m w = Inr (Some a, m\<lparr>m_resume_list_head := m_next (waiters w a)\<rparr>, w)"
      using st a by (simp add: unlock_pick_def unlock_enter_def unlock_pop_def)
    moreover have "mutex_rep (m\<lparr>m_resume_list_head := m_next (waiters w a)\<rparr>) w (Some q)"
      using st t' p q(2,3) q' h by (intro mutex_rep_SomeI [where taken = taken' and pushed = pushed]) auto
    ultimately show ?thesis using same_but_next_refl by blast
  next
    case Nil
    then have r: "m_resume_list_head m = nullptr" and rq: "rev pushed = a # q" using t q by auto
    then obtain b bs where pb: "pushed = b # bs" by (cases pushed) auto
    then have b: "mtx_state m = b" "b \<noteq> nullptr" using p by auto
    have len: "length bs = length q" using rq pb by (metis length_Cons length_rev old.nat.inject)
    have dist: "distinct (b # bs @ [])" using rq q(2) pb by (metis append_Nil2 distinct_rev append_Cons)
    have c: "chain (next_of w) b (b # bs)" using p pb b by simp
    from reverse_waiters_chain [OF c _ dist, of nullptr fuel] assms(2) len
    obtain w1 where w1: "reverse_waiters fuel b nullptr w = Inr (a, w1)"
      and ch: "chain (next_of w1) a (a # q)" and ctx: "ctx_of w1 = ctx_of w"
      and same: "same_but_next w w1" and fr: "\<forall>c. c \<notin> set (b # bs) \<longrightarrow> next_of w1 c = next_of w c"
      using rq pb by fastforce
    let ?m = "m\<lparr>mtx_state := nullptr, m_resume_list_head := m_next (waiters w1 a)\<rparr>"
    have "unlock_pick fuel m w = Inr (Some a, ?m, w1)"
      using st r b w1 ch by (simp add: unlock_pick_def mutex_defs)
    moreover have "mutex_rep ?m w1 (Some q)"
      using ch q(2,3) h same_but_nextD(1) [OF same]
      by (intro mutex_rep_SomeI [where taken = q and pushed = "[]"]) auto
    moreover have "set (b # bs) = set (a # q)" using rq pb by (metis set_rev)
    ultimately show ?thesis using ctx same fr by metis
  qed
qed

text \<open>A sequence of operations on the mutex, each as the code runs it without interference.\<close>

fun mutex_step ::
    "nat \<Rightarrow> 'q queue_ops \<Rightarrow> lock_op \<Rightarrow> mutex \<times> ('q, 'v, 'm) world \<Rightarrow>
     (lock_out \<times> mutex \<times> ('q, 'v, 'm) world) res" where
  "mutex_step fuel Q (Lock a h sps) (m, w) =
     bindE (mutex_await_suspend sps a h m w) (\<lambda>(susp, m1, w1).
       Inr (if susp then Queued else Acquired, m1, w1))"
| "mutex_step fuel Q Try_lock (m, w) = (case try_lock m of (ok, m1) \<Rightarrow> Inr (Tried ok, m1, w))"
| "mutex_step fuel Q Unlock (m, w) =
     bindE (unlock fuel Q m w) (\<lambda>(p, m1, w1).
       Inr (case p of None \<Rightarrow> Released | Some a \<Rightarrow> Handed a, m1, w1))"

fun run_ops :: "('o \<Rightarrow> 's \<Rightarrow> ('r \<times> 's) res) \<Rightarrow> 'o list \<Rightarrow> 's \<Rightarrow> ('r list \<times> 's) res" where
  "run_ops f [] s = Inr ([], s)"
| "run_ops f (x # xs) s =
     bindE (f x s) (\<lambda>(r, s1). bindE (run_ops f xs s1) (\<lambda>(rs, s2). Inr (r # rs, s2)))"

text \<open>
  What callers guarantee: a coroutine does not lock through an awaiter that is waiting, and its
  compare-exchange loop gets through. Queues have room for \<open>n\<close> more tasks.
\<close>

fun ops_ok :: "lock_op list \<Rightarrow> fifo \<Rightarrow> bool" where
  "ops_ok [] l \<longleftrightarrow> True"
| "ops_ok (x # xs) l \<longleftrightarrow>
     (case x of
        Lock a h sps \<Rightarrow> a \<noteq> nullptr \<and> a \<noteq> nolocked \<and> h \<noteq> nullptr \<and> False \<in> set sps \<and>
          (case l of None \<Rightarrow> True | Some q \<Rightarrow> a \<notin> set q)
      | _ \<Rightarrow> True) \<and>
     (case fifo_step x l of Inl _ \<Rightarrow> True | Inr (_, l') \<Rightarrow> ops_ok xs l')"

definition roomy :: "'q queue_ops \<Rightarrow> ('q \<Rightarrow> handle list) \<Rightarrow> nat \<Rightarrow> ('q, 'v, 'm) world \<Rightarrow> bool" where
  "roomy Q ql n w \<longleftrightarrow>
     (\<forall>i. context_running Q ql (ctx_of w i) \<and> length (queued ql w i) + n \<le> kQueCap)"

lemma roomy_submit:
  assumes "roomy Q ql (Suc n) w" and "m_await_coro (waiters w a) \<noteq> nullptr"
  shows "\<exists>w1. waiter_submit Q a w = Inr w1 \<and> roomy Q ql n w1"
proof -
  have r: "\<forall>i. context_running Q ql (ctx_of w i)" and l: "\<And>i. length (queued ql w i) + Suc n \<le> kQueCap"
    using assms(1) by (auto simp: roomy_def)
  have "length (queued ql w i) + length (handles_for i w [a]) \<le> kQueCap" for i
    using l [of i] by simp
  then have "room_for Q ql [a] w" using r assms(2) by (simp add: room_for_def)
  then obtain w1 where w1: "waiter_submit Q a w = Inr w1" using room_for_hd by blast
  note q = waiter_submit_queued [OF r w1]
  have "length (queued ql w1 i) + n \<le> kQueCap" for i
    using q l [of i] by (cases "m_ctx (waiters w a) = i") simp_all
  then have "roomy Q ql n w1" using q by (simp add: roomy_def)
  with w1 show ?thesis by blast
qed

lemma lock_prepare_frames:
  "m_await_coro (waiters (lock_prepare a h w) b) = (if b = a then h else m_await_coro (waiters w b))"
  "next_of (lock_prepare a h w) = next_of w"
  "queued ql (lock_prepare a h w) i = queued ql w i"
  "context_running Q ql (ctx_of (lock_prepare a h w) i) = context_running Q ql (ctx_of w i)"
  by (auto simp: lock_prepare_def set_coro_def waiter_register_def upd_ctx_def register_wait_def
      context_running_def)

lemma roomy_prepare: "roomy Q ql n w \<Longrightarrow> roomy Q ql n (lock_prepare a h w)"
  unfolding roomy_def by (simp add: lock_prepare_frames)

lemma roomy_mono: "roomy Q ql (Suc n) w \<Longrightarrow> roomy Q ql n w"
  unfolding roomy_def add_Suc_right by (meson Suc_leD)

lemma roomy_ctx: "ctx_of w1 = ctx_of w \<Longrightarrow> roomy Q ql n w1 = roomy Q ql n w"
  by (simp add: roomy_def)

definition waiting_in :: "fifo \<Rightarrow> nat" where
  "waiting_in l = (case l of None \<Rightarrow> 0 | Some q \<Rightarrow> length q)"

lemma mutex_step_simulates:
  assumes rep: "mutex_rep m w l" and ok: "ops_ok (x # xs) l" and room: "roomy Q ql (Suc n) w"
    and fuel: "waiting_in l \<le> fuel"
  shows "case fifo_step x l of
      Inl e \<Rightarrow> mutex_step fuel Q x (m, w) = Inl e
    | Inr (r, l1) \<Rightarrow> \<exists>m1 w1. mutex_step fuel Q x (m, w) = Inr (r, m1, w1) \<and>
        mutex_rep m1 w1 l1 \<and> roomy Q ql n w1 \<and> waiting_in l1 \<le> Suc (waiting_in l)"
proof (cases x)
  case (Lock a h sps)
  let ?w = "lock_prepare a h w"
  have a: "a \<noteq> nullptr" "a \<noteq> nolocked" "h \<noteq> nullptr" "False \<in> set sps"
    and fresh: "\<And>q. l = Some q \<Longrightarrow> a \<notin> set q"
    using ok Lock by auto
  have rep1: "mutex_rep m ?w l"
    by (rule rep_same_waiters [OF rep]) (use fresh in \<open>auto simp: lock_prepare_frames\<close>)
  note room1 = roomy_mono [OF roomy_prepare [OF room, of a h]]
  show ?thesis
  proof (cases l)
    case None
    from register_lock_free [OF rep1 [unfolded None] a(4), of a] obtain m1 w1
      where r: "register_lock sps a m ?w = Inr (False, m1, w1)" "mutex_rep m1 w1 (Some [])"
        "ctx_of w1 = ctx_of ?w" by blast
    have "roomy Q ql n w1" using room1 roomy_ctx [OF r(3), of Q ql n] by simp
    with r show ?thesis by (simp add: Lock None mutex_await_suspend_def waiting_in_def)
  next
    case (Some q)
    have "m_await_coro (waiters ?w a) \<noteq> nullptr" using a(3) by (simp add: lock_prepare_frames)
    from register_lock_held [OF rep1 [unfolded Some] a(4) fresh [OF Some] a(1,2) this] obtain m1 w1
      where r: "register_lock sps a m ?w = Inr (True, m1, w1)" "mutex_rep m1 w1 (Some (q @ [a]))"
        "ctx_of w1 = ctx_of ?w" by blast
    have "roomy Q ql n w1" using room1 roomy_ctx [OF r(3), of Q ql n] by simp
    with r show ?thesis by (simp add: Lock Some mutex_await_suspend_def waiting_in_def)
  qed
next
  case Try_lock
  show ?thesis
  proof (cases l)
    case None
    then have "mtx_state m = nolocked" "m_resume_list_head m = nullptr"
      using rep by (simp_all add: mutex_rep_def)
    with None roomy_mono [OF room] Try_lock show ?thesis
      by (simp add: mutex_rep_def mutex_defs waiting_in_def)
  next
    case (Some q)
    with rep have "mtx_state m \<noteq> nolocked" by (auto elim: mutex_rep_SomeE)
    then have "try_lock m = (False, m)" by (simp add: try_lock_def atomic_defs)
    with Some rep roomy_mono [OF room] Try_lock show ?thesis by (simp add: waiting_in_def)
  qed
next
  case Unlock
  show ?thesis
  proof (cases l)
    case None
    with unlock_pick_free [of m w fuel] rep Unlock show ?thesis by (simp add: unlock_def)
  next
    case (Some q)
    show ?thesis
    proof (cases q)
      case Nil
      with unlock_pick_last [of m w fuel] rep Some obtain m1
        where "unlock_pick fuel m w = Inr (None, m1, w)" "mutex_rep m1 w None" by blast
      with Nil Some Unlock roomy_mono [OF room] show ?thesis
        by (simp add: unlock_def waiting_in_def)
    next
      case (Cons a q')
      have "length q' < fuel" using fuel Some Cons by (simp add: waiting_in_def)
      from unlock_pick_next [OF rep [unfolded Some Cons] this]
      obtain m1 w1 where p: "unlock_pick fuel m w = Inr (Some a, m1, w1)" "mutex_rep m1 w1 (Some q')"
        "ctx_of w1 = ctx_of w" and sw: "same_but_next w w1"
        by blast
      note h = same_but_nextD(1) [OF sw, of a]
      have "m_await_coro (waiters w1 a) \<noteq> nullptr"
        using rep Some Cons h by (simp add: mutex_rep_def)
      moreover have "roomy Q ql (Suc n) w1" using room roomy_ctx [OF p(3), of Q ql "Suc n"] by simp
      ultimately obtain w2 where w2: "waiter_submit Q a w1 = Inr w2" "roomy Q ql n w2"
        using roomy_submit by blast
      have "mutex_rep m1 w2 (Some q')"
        by (rule rep_same_waiters [OF p(2)]) (simp_all add: waiter_submit_waiters [OF w2(1)])
      with p w2 Some Cons Unlock show ?thesis
        by (simp add: unlock_def mutex_resume_def waiting_in_def)
    qed
  qed
qed

text \<open>What a guard and a condition variable rely on.\<close>

locale lock_contract =
  fixes rep :: "'s \<Rightarrow> fifo \<Rightarrow> bool"
    and try_op :: "'s \<Rightarrow> bool \<times> 's"
    and unlock_op :: "'s \<Rightarrow> (addr option \<times> 's) res"
  assumes try_free: "rep s None \<Longrightarrow> \<exists>s'. try_op s = (True, s') \<and> rep s' (Some [])"
    and try_held: "rep s (Some q) \<Longrightarrow> try_op s = (False, s)"
    and unlock_free: "rep s None \<Longrightarrow> unlock_op s = Inl Assertion"
    and unlock_last: "rep s (Some []) \<Longrightarrow> \<exists>s'. unlock_op s = Inr (None, s') \<and> rep s' None"
begin

lemma try_then_unlock:
  assumes "rep s None"
  shows "\<exists>s1 s2. try_op s = (True, s1) \<and> unlock_op s1 = Inr (None, s2) \<and> rep s2 None"
  using try_free [OF assms] unlock_last by blast

lemma unlock_twice_fails:
  assumes "rep s (Some [])"
  shows "bindE (unlock_op s) (\<lambda>(_, s1). unlock_op s1) = Inl Assertion"
  using unlock_last [OF assms] unlock_free by auto

end

interpretation mtx: lock_contract "\<lambda>(m, w). mutex_rep m w"
  "\<lambda>(m, w). case try_lock m of (ok, m1) \<Rightarrow> (ok, m1, w)" "\<lambda>(m, w). unlock fuel Q m w" for fuel Q
proof unfold_locales
  show "\<exists>s'. (case s of (m, w) \<Rightarrow> case try_lock m of (ok, m1) \<Rightarrow> (ok, m1, w)) = (True, s') \<and>
      (case s' of (m, w) \<Rightarrow> mutex_rep m w) (Some [])"
    if "(case s of (m, w) \<Rightarrow> mutex_rep m w) None" for s :: "mutex \<times> ('a, 'b, 'c) world"
    using that by (cases s) (auto simp: mutex_rep_def mutex_defs)
  show "(case s of (m, w) \<Rightarrow> case try_lock m of (ok, m1) \<Rightarrow> (ok, m1, w)) = (False, s)"
    if "(case s of (m, w) \<Rightarrow> mutex_rep m w) (Some q)" for s :: "mutex \<times> ('a, 'b, 'c) world" and q
    using that by (cases s) (auto simp: mutex_rep_def mutex_defs)
  show "(case s of (m, w) \<Rightarrow> unlock fuel Q m w) = Inl Assertion"
    if "(case s of (m, w) \<Rightarrow> mutex_rep m w) None" for s :: "mutex \<times> ('a, 'b, 'c) world"
    using that by (cases s) (auto simp: unlock_def unlock_pick_free)
  show "\<exists>s'. (case s of (m, w) \<Rightarrow> unlock fuel Q m w) = Inr (None, s') \<and>
      (case s' of (m, w) \<Rightarrow> mutex_rep m w) None"
    if "(case s of (m, w) \<Rightarrow> mutex_rep m w) (Some [])" for s :: "mutex \<times> ('a, 'b, 'c) world"
  proof -
    obtain m w where s: "s = (m, w)" by (cases s)
    with that obtain m1 where "unlock_pick fuel m w = Inr (None, m1, w)" "mutex_rep m1 w None"
      using unlock_pick_last [of m w fuel] by auto
    then show ?thesis by (simp add: s unlock_def)
  qed
qed

section \<open>The lock guard\<close>

text \<open>
  A guard holds a reference to its mutex. The move constructor copies the reference and leaves the
  source as it is; a destructor unlocks. A guard is modelled as the address of its mutex.
\<close>

definition guard_ctor :: "addr \<Rightarrow> addr" where
  "guard_ctor mtx = mtx"

definition guard_move :: "addr \<Rightarrow> addr \<times> addr" where
  "guard_move other = (other, other)"

definition guard_dtor ::
    "nat \<Rightarrow> 'q queue_ops \<Rightarrow> addr \<Rightarrow> (addr \<Rightarrow> mutex) \<times> ('q, 'v, 'm) world \<Rightarrow>
     ((addr \<Rightarrow> mutex) \<times> ('q, 'v, 'm) world) res" where
  "guard_dtor fuel Q g s =
     (case s of (ms, w) \<Rightarrow>
        bindE (unlock fuel Q (ms g) w) (\<lambda>(_, m1, w1). Inr (ms(g := m1), w1)))"

text \<open>\<open>mutex_guard_awaiter::await_resume\<close> deregisters and makes the guard.\<close>

definition guard_await_resume :: "addr \<Rightarrow> addr \<Rightarrow> ('q, 'v, 'm) world \<Rightarrow> addr \<times> ('q, 'v, 'm) world" where
  "guard_await_resume mtx a w = (let w1 = mutex_await_resume a w in (guard_ctor mtx, w1))"

section \<open>Properties\<close>

lemma mutex_run_simulates:
  "mutex_rep m w l \<Longrightarrow> ops_ok xs l \<Longrightarrow> roomy Q ql (length xs) w \<Longrightarrow>
   waiting_in l + length xs \<le> fuel \<Longrightarrow>
   case run_ops fifo_step xs l of
     Inl e \<Rightarrow> run_ops (mutex_step fuel Q) xs (m, w) = Inl e
   | Inr (rs, l1) \<Rightarrow> \<exists>m1 w1. run_ops (mutex_step fuel Q) xs (m, w) = Inr (rs, m1, w1) \<and> mutex_rep m1 w1 l1"
proof (induction xs arbitrary: m w l)
  case Nil
  then show ?case by simp
next
  case (Cons x xs)
  have room: "roomy Q ql (Suc (length xs)) w" and f: "waiting_in l \<le> fuel" using Cons.prems by simp_all
  note sim = mutex_step_simulates [OF Cons.prems(1,2) room f]
  show ?case
  proof (cases "fifo_step x l")
    case (Inl e)
    with sim show ?thesis by simp
  next
    case (Inr rl)
    obtain r l1 where rl: "rl = (r, l1)" by (cases rl)
    with sim Inr obtain m1 w1 where s: "mutex_step fuel Q x (m, w) = Inr (r, m1, w1)"
      "mutex_rep m1 w1 l1" "roomy Q ql (length xs) w1" "waiting_in l1 \<le> Suc (waiting_in l)"
      by auto
    have "ops_ok xs l1" using Cons.prems(2) Inr rl by simp
    moreover have "waiting_in l1 + length xs \<le> fuel" using s(4) Cons.prems(4) by simp
    ultimately have "case run_ops fifo_step xs l1 of
        Inl e \<Rightarrow> run_ops (mutex_step fuel Q) xs (m1, w1) = Inl e
      | Inr (rs, l2) \<Rightarrow> \<exists>m2 w2. run_ops (mutex_step fuel Q) xs (m1, w1) = Inr (rs, m2, w2) \<and> mutex_rep m2 w2 l2"
      using Cons.IH [OF s(2) _ s(3)] by blast
    with Inr rl s(1) show ?thesis by (auto split: sum.splits prod.splits)
  qed
qed

text \<open>
  C1. The mutex implements a FIFO lock: a sequence of locks, try-locks and unlocks gives, one by
  one, the answers of the abstract lock (who acquires, who waits, which waiter the lock is handed
  to), fails exactly where it fails (unlocking a free mutex), and ends in a state that represents
  the abstract one.
\<close>

theorem mutex_refines_fifo:
  assumes "ops_ok xs None" and "roomy Q ql (length xs) w" and "length xs \<le> fuel"
  shows "case run_ops fifo_step xs None of
     Inl e \<Rightarrow> run_ops (mutex_step fuel Q) xs (new_mutex, w) = Inl e
   | Inr (rs, l1) \<Rightarrow> \<exists>m1 w1. run_ops (mutex_step fuel Q) xs (new_mutex, w) = Inr (rs, m1, w1) \<and>
       mutex_rep m1 w1 l1"
  by (rule mutex_run_simulates [OF _ assms(1,2)])
     (use assms(3) in \<open>simp_all add: mutex_rep_def new_mutex_def waiting_in_def\<close>)

definition demo_lock_ops :: "lock_op list" where
  "demo_lock_ops = [Lock 4 104 [False], Lock 5 105 [True, False], Lock 6 106 [False], Try_lock,
     Unlock, Lock 7 107 [False], Unlock, Unlock, Unlock]"

lemma demo_world_roomy: "n \<le> 100 \<Longrightarrow> roomy list_queue (\<lambda>q. q) n demo_world"
  using demo_context_running demo_context_queue by (simp add: roomy_def demo_world_def kQueCap_def)

theorem mutex_refines_fifo_witness:
  "\<exists>m1 w1. run_ops (mutex_step 9 list_queue) demo_lock_ops (new_mutex, demo_world) =
     Inr ([Acquired, Queued, Queued, Tried False, Handed 5, Queued, Handed 6, Handed 7, Released], m1, w1) \<and>
     mutex_rep m1 w1 None"
proof -
  have "ops_ok demo_lock_ops None" by (simp add: demo_lock_ops_def nolocked_def)
  moreover have "roomy list_queue (\<lambda>q. q) (length demo_lock_ops) demo_world"
    by (rule demo_world_roomy) (simp add: demo_lock_ops_def)
  ultimately show ?thesis
    using mutex_refines_fifo [of demo_lock_ops list_queue "\<lambda>q. q" demo_world 9]
    by (simp add: demo_lock_ops_def)
qed

fun handed_in :: "addr \<Rightarrow> lock_out list \<Rightarrow> bool" where
  "handed_in a [] \<longleftrightarrow> False"
| "handed_in a (r # rs) \<longleftrightarrow> r = Handed a \<or> handed_in a rs"

lemma fifo_serves:
  "run_ops fifo_step xs (Some (pre @ a # post)) = Inr (rs, l) \<Longrightarrow>
   length pre < length (filter (\<lambda>x. x = Unlock) xs) \<Longrightarrow> handed_in a rs"
proof (induction xs arbitrary: pre post rs)
  case Nil
  then show ?case by simp
next
  case (Cons x xs)
  show ?case
  proof (cases x)
    case (Lock b h sps)
    with Cons.prems Cons.IH [of pre "post @ [b]"] show ?thesis by (auto simp: bindE_Inr_iff)
  next
    case Try_lock
    with Cons.prems Cons.IH [of pre post] show ?thesis by (auto simp: bindE_Inr_iff)
  next
    case Unlock
    show ?thesis
    proof (cases pre)
      case Nil
      with Unlock Cons.prems show ?thesis by (auto simp: bindE_Inr_iff)
    next
      case (Cons b bs)
      with Unlock Cons.prems Cons.IH [of bs post] show ?thesis by (auto simp: bindE_Inr_iff)
    qed
  qed
qed

text \<open>
  C5. No waiter starves: a coroutine with \<open>n\<close> others in front of it is handed the mutex by the
  \<open>n + 1\<close>-st unlock at the latest, whatever locks and try-locks come in between.
\<close>

theorem mutex_serves_every_waiter:
  assumes "mutex_rep m w (Some (pre @ a # post))" and "ops_ok xs (Some (pre @ a # post))"
    and "roomy Q ql (length xs) w" and "length (pre @ a # post) + length xs \<le> fuel"
    and "run_ops (mutex_step fuel Q) xs (m, w) = Inr (rs, s)"
    and "length pre < length (filter (\<lambda>x. x = Unlock) xs)"
  shows "handed_in a rs"
proof -
  have "waiting_in (Some (pre @ a # post)) + length xs \<le> fuel" using assms(4) by (simp add: waiting_in_def)
  from mutex_run_simulates [OF assms(1-3) this] assms(5)
  obtain l where "run_ops fifo_step xs (Some (pre @ a # post)) = Inr (rs, l)"
    by (auto split: sum.splits)
  from fifo_serves [OF this assms(6)] show ?thesis .
qed

theorem mutex_serves_every_waiter_witness:
  "\<exists>rs s. run_ops (mutex_step 9 list_queue) [Unlock, Lock 6 106 [False], Unlock]
     (\<lparr>mtx_state = 5, m_resume_list_head = 0\<rparr>, set_next 4 0 (set_next 5 4 demo_world)) = Inr (rs, s) \<and>
     handed_in 5 rs"
proof -
  let ?m = "\<lparr>mtx_state = 5, m_resume_list_head = 0\<rparr>" and ?w = "set_next 4 0 (set_next 5 4 demo_world)"
  let ?xs = "[Unlock, Lock 6 106 [False], Unlock]"
  have rep: "mutex_rep ?m ?w (Some [4, 5])"
    by (rule mutex_rep_SomeI [where taken = "[]" and pushed = "[5, 4]"])
       (simp_all add: nolocked_def demo_world_def)
  have ok: "ops_ok ?xs (Some [4, 5])" by (simp add: nolocked_def)
  have room: "roomy list_queue (\<lambda>q. q) (length ?xs) ?w"
    using demo_world_roomy [of 3] roomy_ctx [of ?w demo_world list_queue "\<lambda>q. q" 3]
    by (simp add: numeral_3_eq_3)
  obtain rs s where run: "run_ops (mutex_step 9 list_queue) ?xs (?m, ?w) = Inr (rs, s)"
    using mutex_run_simulates [OF rep ok room, of 9] by (auto simp: waiting_in_def)
  have "handed_in 5 rs"
    by (rule mutex_serves_every_waiter [where pre = "[4]" and post = "[]", OF _ _ room _ run])
       (use rep ok in simp_all)
  with run show ?thesis by blast
qed

text \<open>
  Moving a lock guard unlocks twice: the moved-from guard keeps its reference. When nobody
  waits, the second destructor trips the assertion; when one coroutine waits, the first destructor
  hands it the lock and the second one frees the mutex under it.
\<close>

lemma guard_move_unlocks_twice:
  assumes "mutex_rep (ms g) w (Some q)" and "guard_move (guard_ctor g) = (g1, g2)"
    and "length q \<le> fuel" and "roomy Q ql 1 w"
  shows "(q = [] \<longrightarrow> bindE (guard_dtor fuel Q g1 (ms, w)) (guard_dtor fuel Q g2) = Inl Assertion) \<and>
    (\<forall>a. q = [a] \<longrightarrow> (\<exists>m1 w1 ms2 w2. unlock fuel Q (ms g) w = Inr (Some a, m1, w1) \<and>
      mutex_rep m1 w1 (Some []) \<and>
      bindE (guard_dtor fuel Q g1 (ms, w)) (guard_dtor fuel Q g2) = Inr (ms2, w2) \<and>
      mutex_rep (ms2 g) w2 None))"
proof (intro conjI impI allI)
  have g: "g1 = g" "g2 = g" using assms(2) by (auto simp: guard_move_def guard_ctor_def)
  show "bindE (guard_dtor fuel Q g1 (ms, w)) (guard_dtor fuel Q g2) = Inl Assertion" if q0: "q = []"
  proof -
    obtain m1 w1 where u: "unlock fuel Q (ms g) w = Inr (None, m1, w1)" "mutex_rep m1 w1 None"
      using mtx.unlock_last [of "(ms g, w)" fuel Q] assms(1) q0 by auto
    then have "unlock fuel Q m1 w1 = Inl Assertion"
      using mtx.unlock_free [of "(m1, w1)" fuel Q] by simp
    with u(1) show ?thesis by (simp add: g guard_dtor_def)
  qed
  fix a assume q: "q = [a]"
  have "ops_ok [Unlock] (Some q)" and fuel: "waiting_in (Some q) \<le> fuel"
    using assms(3) by (simp_all add: q waiting_in_def)
  from mutex_step_simulates [OF assms(1) this(1) assms(4) [unfolded One_nat_def] this(2)]
  obtain m1 w1 where "mutex_step fuel Q Unlock (ms g, w) = Inr (Handed a, m1, w1)"
    and r1: "mutex_rep m1 w1 (Some [])" by (auto simp: q)
  then have u1: "unlock fuel Q (ms g) w = Inr (Some a, m1, w1)"
    by (auto simp: bindE_Inr_iff split: option.splits)
  obtain m2 w2 where u2: "unlock fuel Q m1 w1 = Inr (None, m2, w2)" "mutex_rep m2 w2 None"
    using mtx.unlock_last [of "(m1, w1)" fuel Q] r1 by auto
  have "bindE (guard_dtor fuel Q g1 (ms, w)) (guard_dtor fuel Q g2) = Inr (ms(g := m2), w2)"
    using u1 u2 by (simp add: g guard_dtor_def)
  with u1 r1 u2(2) show "\<exists>m1 w1 ms2 w2. unlock fuel Q (ms g) w = Inr (Some a, m1, w1) \<and>
      mutex_rep m1 w1 (Some []) \<and>
      bindE (guard_dtor fuel Q g1 (ms, w)) (guard_dtor fuel Q g2) = Inr (ms2, w2) \<and>
      mutex_rep (ms2 g) w2 None"
    by (metis fun_upd_same)
qed

lemma guard_move_unlocks_twice_witness:
  "\<exists>m1 w1. unlock 1 list_queue \<lparr>mtx_state = 4, m_resume_list_head = 0\<rparr> (set_next 4 0 demo_world) =
      Inr (Some 4, m1, w1) \<and>
   (\<exists>ms2 w2. bindE (guard_dtor 1 list_queue 3 (\<lambda>_. \<lparr>mtx_state = 4, m_resume_list_head = 0\<rparr>, set_next 4 0 demo_world))
      (guard_dtor 1 list_queue 3) = Inr (ms2, w2) \<and> mutex_rep (ms2 3) w2 None)"
proof -
  let ?m = "\<lparr>mtx_state = 4, m_resume_list_head = 0\<rparr>" and ?w = "set_next 4 0 demo_world"
  have "mutex_rep ?m ?w (Some [4])"
    by (rule mutex_rep_SomeI [where taken = "[]" and pushed = "[4]"])
       (simp_all add: nolocked_def demo_world_def)
  moreover have "roomy list_queue (\<lambda>q. q) 1 ?w"
    using demo_world_roomy [of 1] roomy_ctx [of ?w demo_world list_queue "\<lambda>q. q" 1] by simp
  moreover have "guard_move (guard_ctor 3) = (3, 3)" by (simp add: guard_move_def guard_ctor_def)
  ultimately show ?thesis
    using guard_move_unlocks_twice [of "\<lambda>_. ?m" 3 ?w "[4]" 3 3 1 list_queue "\<lambda>q. q"] by auto
qed

end
