(* ===== verification/Mutex_Steps.thy ===== *)
theory Mutex_Steps
  imports Mutex
begin

text \<open>
  The mutex under interleaving: coroutines lock, wait, hold and unlock at the same time, each step
  one atomic access with the local code around it. A coroutine is named by its awaiter. The taken
  list \<open>m_resume_list_head\<close> is not atomic: only the owner touches it.
\<close>

section \<open>The step relation\<close>

text \<open>
  Outside, at the top of the loop of \<open>register_lock\<close>, between its load and its compare-exchange,
  parked, made owner, in the critical section, and in \<open>unlock\<close>: behind the first assertion,
  behind the failed release, with a waiter picked, and with the waiter removed from the list.
\<close>

datatype mtx_pc =
  M_out | M_trying | M_loaded addr | M_parked | M_granted | M_holding
  | M_unlocking | M_taking | M_picked addr | M_handing addr

fun owning :: "mtx_pc \<Rightarrow> bool" where
  "owning M_out = False"
| "owning M_trying = False"
| "owning (M_loaded st) = False"
| "owning M_parked = False"
| "owning M_granted = True"
| "owning M_holding = True"
| "owning M_unlocking = True"
| "owning M_taking = True"
| "owning (M_picked p) = True"
| "owning (M_handing p) = True"

record ('q, 'v, 'm) mtx_system =
  sys_mutex :: mutex
  mtx_world :: "('q, 'v, 'm) world"
  mpc :: "addr \<Rightarrow> mtx_pc"
  arrivals :: "addr list"
  grants :: "addr list"

inductive mtx_step ::
    "'q queue_ops \<Rightarrow> ('q, 'v, 'm) mtx_system \<Rightarrow> ('q, 'v, 'm) mtx_system \<Rightarrow> bool" for Q where
  K_suspend: "mpc s a = M_out \<Longrightarrow> a \<noteq> nullptr \<Longrightarrow> a \<noteq> nolocked \<Longrightarrow>
    mtx_step Q s (s\<lparr>mtx_world := lock_prepare a h (mtx_world s), mpc := (mpc s)(a := M_trying)\<rparr>)"
| K_load: "mpc s a = M_trying \<Longrightarrow> lock_load a (sys_mutex s) (mtx_world s) = (st, w) \<Longrightarrow>
    mtx_step Q s (s\<lparr>mtx_world := w, mpc := (mpc s)(a := M_loaded st)\<rparr>)"
| K_cas_fail: "mpc s a = M_loaded st \<Longrightarrow> lock_cas sp st a (sys_mutex s) = (False, m) \<Longrightarrow>
    mtx_step Q s (s\<lparr>sys_mutex := m, mpc := (mpc s)(a := M_trying)\<rparr>)"
| K_cas_lock: "mpc s a = M_loaded st \<Longrightarrow> st = nolocked \<Longrightarrow>
    lock_cas sp st a (sys_mutex s) = (True, m) \<Longrightarrow>
    mtx_step Q s (s\<lparr>sys_mutex := m, mpc := (mpc s)(a := M_granted)\<rparr>)"
| K_cas_wait: "mpc s a = M_loaded st \<Longrightarrow> st \<noteq> nolocked \<Longrightarrow>
    lock_cas sp st a (sys_mutex s) = (True, m) \<Longrightarrow>
    mtx_step Q s (s\<lparr>sys_mutex := m, mpc := (mpc s)(a := M_parked), arrivals := arrivals s @ [a]\<rparr>)"
| K_resume: "mpc s a = M_granted \<Longrightarrow>
    mtx_step Q s (s\<lparr>mtx_world := mutex_await_resume a (mtx_world s), mpc := (mpc s)(a := M_holding)\<rparr>)"
| K_try: "mpc s a = M_out \<Longrightarrow> a \<noteq> nullptr \<Longrightarrow> a \<noteq> nolocked \<Longrightarrow> try_lock (sys_mutex s) = (ok, m) \<Longrightarrow>
    mtx_step Q s (s\<lparr>sys_mutex := m, mpc := (mpc s)(a := if ok then M_holding else M_out)\<rparr>)"
| K_unlock: "mpc s a = M_holding \<Longrightarrow> unlock_enter (sys_mutex s) = Inr () \<Longrightarrow>
    mtx_step Q s (s\<lparr>mpc := (mpc s)(a := M_unlocking)\<rparr>)"
| K_next: "mpc s a = M_unlocking \<Longrightarrow> m_resume_list_head (sys_mutex s) = p \<Longrightarrow> p \<noteq> nullptr \<Longrightarrow>
    mtx_step Q s (s\<lparr>mpc := (mpc s)(a := M_picked p)\<rparr>)"
| K_release: "mpc s a = M_unlocking \<Longrightarrow> m_resume_list_head (sys_mutex s) = nullptr \<Longrightarrow>
    unlock_release (sys_mutex s) = (ok, m) \<Longrightarrow>
    mtx_step Q s (s\<lparr>sys_mutex := m, mpc := (mpc s)(a := if ok then M_out else M_taking)\<rparr>)"
| K_take: "mpc s a = M_taking \<Longrightarrow> unlock_take fuel (sys_mutex s) (mtx_world s) = Inr (p, m, w) \<Longrightarrow>
    mtx_step Q s (s\<lparr>sys_mutex := m, mtx_world := w, mpc := (mpc s)(a := M_picked p)\<rparr>)"
| K_pop: "mpc s a = M_picked p \<Longrightarrow> unlock_pop p (sys_mutex s) (mtx_world s) = Inr m \<Longrightarrow>
    mtx_step Q s (s\<lparr>sys_mutex := m, mpc := (mpc s)(a := M_handing p)\<rparr>)"
| K_hand: "mpc s a = M_handing p \<Longrightarrow> mutex_resume Q p (mtx_world s) = Inr w \<Longrightarrow>
    mtx_step Q s (s\<lparr>mtx_world := w, mpc := (mpc s)(a := M_out, p := M_granted),
      grants := grants s @ [p]\<rparr>)"

definition mtx_start :: "('q, 'v, 'm) mtx_system \<Rightarrow> bool" where
  "mtx_start s \<longleftrightarrow>
     sys_mutex s = new_mutex \<and> mpc s = (\<lambda>_. M_out) \<and> arrivals s = [] \<and> grants s = []"

definition mtx_reach :: "'q queue_ops \<Rightarrow> ('q, 'v, 'm) mtx_system \<Rightarrow> bool" where
  "mtx_reach Q s \<longleftrightarrow> (\<exists>s0. mtx_start s0 \<and> (mtx_step Q)\<^sup>*\<^sup>* s0 s)"

section \<open>The invariant\<close>

text \<open>Where the taken awaiters are, by what the owner is doing.\<close>

fun holder_list :: "(addr \<Rightarrow> addr) \<Rightarrow> addr \<Rightarrow> mtx_pc \<Rightarrow> addr list \<Rightarrow> addr list \<Rightarrow> bool" where
  "holder_list nxt head M_taking pushed taken \<longleftrightarrow> head = nullptr \<and> taken = [] \<and> pushed \<noteq> []"
| "holder_list nxt head (M_picked p) pushed taken \<longleftrightarrow> chain nxt p taken \<and> taken \<noteq> []"
| "holder_list nxt head (M_handing p) pushed taken \<longleftrightarrow> (\<exists>r. taken = p # r \<and> chain nxt head r)"
| "holder_list nxt head pc pushed taken \<longleftrightarrow> chain nxt head taken"

lemma holder_list_upd [simp]:
  "a \<notin> set taken \<Longrightarrow> holder_list (nxt(a := v)) head pc pushed taken \<longleftrightarrow> holder_list nxt head pc pushed taken"
  by (cases pc) (auto simp: chain_upd)

lemma holder_list_push: "holder_list nxt head pc pushed taken \<Longrightarrow> holder_list nxt head pc (a # pushed) taken"
  by (cases pc) auto

definition mtx_core ::
    "mutex \<Rightarrow> (addr \<Rightarrow> addr) \<Rightarrow> (addr \<Rightarrow> mtx_pc) \<Rightarrow> addr option \<Rightarrow> addr list \<Rightarrow> addr list \<Rightarrow> bool" where
  "mtx_core m nxt pc ow pushed taken \<longleftrightarrow>
     pc nullptr = M_out \<and> pc nolocked = M_out \<and>
     (\<forall>a. owning (pc a) \<longleftrightarrow> ow = Some a) \<and>
     (case ow of
        None \<Rightarrow> mtx_state m = nolocked \<and> m_resume_list_head m = nullptr \<and> pushed = [] \<and> taken = []
      | Some h \<Rightarrow> mtx_state m \<noteq> nolocked \<and> chain nxt (mtx_state m) pushed \<and>
          holder_list nxt (m_resume_list_head m) (pc h) pushed taken) \<and>
     (\<forall>a. pc a = M_parked \<longleftrightarrow> a \<in> set (taken @ rev pushed)) \<and> distinct (taken @ rev pushed) \<and>
     (\<forall>a st. pc a = M_loaded st \<longrightarrow> nxt a = (if st = nolocked then nullptr else st))"

lemma mtx_coreI:
  assumes "pc nullptr = M_out" "pc nolocked = M_out" "\<And>a. owning (pc a) \<longleftrightarrow> ow = Some a"
    and "case ow of
        None \<Rightarrow> mtx_state m = nolocked \<and> m_resume_list_head m = nullptr \<and> pushed = [] \<and> taken = []
      | Some h \<Rightarrow> mtx_state m \<noteq> nolocked \<and> chain nxt (mtx_state m) pushed \<and>
          holder_list nxt (m_resume_list_head m) (pc h) pushed taken"
    and "\<And>a. pc a = M_parked \<longleftrightarrow> a \<in> set (taken @ rev pushed)" "distinct (taken @ rev pushed)"
    and "\<And>a st. pc a = M_loaded st \<Longrightarrow> nxt a = (if st = nolocked then nullptr else st)"
  shows "mtx_core m nxt pc ow pushed taken"
  using assms unfolding mtx_core_def by - (intro conjI allI impI, assumption+)

lemma mtx_coreD:
  assumes "mtx_core m nxt pc ow pushed taken"
  shows "pc nullptr = M_out" "pc nolocked = M_out" "owning (pc a) \<longleftrightarrow> ow = Some a"
    and "ow = None \<Longrightarrow>
      mtx_state m = nolocked \<and> m_resume_list_head m = nullptr \<and> pushed = [] \<and> taken = []"
    and "ow = Some h \<Longrightarrow> mtx_state m \<noteq> nolocked \<and> chain nxt (mtx_state m) pushed \<and>
          holder_list nxt (m_resume_list_head m) (pc h) pushed taken"
    and "pc a = M_parked \<longleftrightarrow> a \<in> set (taken @ rev pushed)" and "distinct (taken @ rev pushed)"
    and "pc a = M_loaded st \<Longrightarrow> nxt a = (if st = nolocked then nullptr else st)"
proof -
  have c: "\<forall>a. owning (pc a) \<longleftrightarrow> ow = Some a"
    "\<forall>a. pc a = M_parked \<longleftrightarrow> a \<in> set (taken @ rev pushed)"
    "\<forall>a st. pc a = M_loaded st \<longrightarrow> nxt a = (if st = nolocked then nullptr else st)"
    using assms unfolding mtx_core_def by - (elim conjE, assumption)+
  show "owning (pc a) \<longleftrightarrow> ow = Some a" using c(1) by (rule spec)
  show "pc a = M_parked \<longleftrightarrow> a \<in> set (taken @ rev pushed)" using c(2) by (rule spec)
  show "pc a = M_loaded st \<Longrightarrow> nxt a = (if st = nolocked then nullptr else st)" using c(3) by blast
  show "pc nullptr = M_out" "pc nolocked = M_out" "distinct (taken @ rev pushed)"
    using assms unfolding mtx_core_def by - (elim conjE, assumption)+
  show "ow = None \<Longrightarrow>
      mtx_state m = nolocked \<and> m_resume_list_head m = nullptr \<and> pushed = [] \<and> taken = []"
    using assms unfolding mtx_core_def by simp
  show "ow = Some h \<Longrightarrow> mtx_state m \<noteq> nolocked \<and> chain nxt (mtx_state m) pushed \<and>
          holder_list nxt (m_resume_list_head m) (pc h) pushed taken"
    using assms unfolding mtx_core_def by simp
qed

lemma mtx_core_valid: "mtx_core m nxt pc ow pushed taken \<Longrightarrow> pc a \<noteq> M_out \<Longrightarrow> a \<noteq> nullptr \<and> a \<noteq> nolocked"
  using mtx_coreD(1,2) by metis

text \<open>A coroutine that neither owns the mutex nor waits moves, possibly rewriting its own link.\<close>

lemma mtx_core_local:
  assumes I: "mtx_core m nxt pc ow pushed taken"
    and a: "\<not> owning (pc a)" "pc a \<noteq> M_parked" "a \<noteq> nullptr" "a \<noteq> nolocked"
    and p: "\<not> owning p" "p \<noteq> M_parked"
    and n: "\<And>st. p = M_loaded st \<Longrightarrow> n = (if st = nolocked then nullptr else st)"
  shows "mtx_core m (nxt(a := n)) (pc(a := p)) ow pushed taken"
proof (rule mtx_coreI)
  note D = mtx_coreD [OF I]
  have out: "a \<notin> set taken" "a \<notin> set pushed" using D(6) [of a] a(2) by auto
  have ow: "ow \<noteq> Some a" using D(3) [of a] a(1) by simp
  show "(pc(a := p)) nullptr = M_out" "(pc(a := p)) nolocked = M_out" using D(1,2) a by auto
  show "owning ((pc(a := p)) b) \<longleftrightarrow> ow = Some b" for b using D(3) [of b] a(1) p(1) ow by auto
  show "case ow of
        None \<Rightarrow> mtx_state m = nolocked \<and> m_resume_list_head m = nullptr \<and> pushed = [] \<and> taken = []
      | Some h \<Rightarrow> mtx_state m \<noteq> nolocked \<and> chain (nxt(a := n)) (mtx_state m) pushed \<and>
          holder_list (nxt(a := n)) (m_resume_list_head m) ((pc(a := p)) h) pushed taken"
    using D(4,5) out ow by (cases ow) auto
  show "(pc(a := p)) b = M_parked \<longleftrightarrow> b \<in> set (taken @ rev pushed)" for b
    using D(6) [of b] a(2) p(2) by (cases "b = a") auto
  show "distinct (taken @ rev pushed)" by (rule D(7))
  show "(nxt(a := n)) b = (if st = nolocked then nullptr else st)" if "(pc(a := p)) b = M_loaded st" for b st
    using that n [of st] D(8) [of b st] by (cases "b = a") auto
qed

text \<open>The owner moves inside its critical section or inside \<open>unlock\<close>.\<close>

lemma mtx_core_owner:
  assumes I: "mtx_core m nxt pc (Some h) pushed taken" and p: "owning p"
    and m': "mtx_state m' \<noteq> nolocked" "chain nxt' (mtx_state m') pushed'"
      "holder_list nxt' (m_resume_list_head m') p pushed' taken'"
    and same: "taken' @ rev pushed' = taken @ rev pushed"
    and nx: "\<And>b st. pc b = M_loaded st \<Longrightarrow> nxt' b = nxt b"
  shows "mtx_core m' nxt' (pc(h := p)) (Some h) pushed' taken'"
proof (rule mtx_coreI)
  note D = mtx_coreD [OF I]
  have h: "owning (pc h)" using D(3) [of h] by simp
  then have hv: "h \<noteq> nullptr" "h \<noteq> nolocked" using D(1,2) by (metis owning.simps(1))+
  show "(pc(h := p)) nullptr = M_out" "(pc(h := p)) nolocked = M_out" using D(1,2) hv by auto
  show "owning ((pc(h := p)) b) \<longleftrightarrow> Some h = Some b" for b using D(3) [of b] p by auto
  show "case Some h of
        None \<Rightarrow> mtx_state m' = nolocked \<and> m_resume_list_head m' = nullptr \<and> pushed' = [] \<and> taken' = []
      | Some k \<Rightarrow> mtx_state m' \<noteq> nolocked \<and> chain nxt' (mtx_state m') pushed' \<and>
          holder_list nxt' (m_resume_list_head m') ((pc(h := p)) k) pushed' taken'"
    using m' by simp
  have "p \<noteq> M_parked" "pc h \<noteq> M_parked" using p h by auto
  then show "(pc(h := p)) b = M_parked \<longleftrightarrow> b \<in> set (taken' @ rev pushed')" for b
    unfolding same using D(6) [of b] by (cases "b = h") auto
  show "distinct (taken' @ rev pushed')" unfolding same by (rule D(7))
  show "nxt' b = (if st = nolocked then nullptr else st)" if "(pc(h := p)) b = M_loaded st" for b st
  proof (cases "b = h")
    case True
    with that p show ?thesis by auto
  next
    case False
    with that nx [of b st] D(8) [of b st] show ?thesis by simp
  qed
qed

text \<open>The steps that change who owns the mutex or who waits.\<close>

lemma mtx_core_acquire:
  assumes I: "mtx_core m nxt pc None pushed taken" and a: "pc a \<noteq> M_out \<or> a \<noteq> nullptr \<and> a \<noteq> nolocked"
    and p: "p = M_granted \<or> p = M_holding"
  shows "mtx_core (m\<lparr>mtx_state := nullptr\<rparr>) nxt (pc(a := p)) (Some a) [] []"
proof (rule mtx_coreI)
  note D = mtx_coreD [OF I]
  have e: "pushed = []" "taken = []" "m_resume_list_head m = nullptr" using D(4) by auto
  have v: "a \<noteq> nullptr" "a \<noteq> nolocked" using a mtx_core_valid [OF I, of a] by blast+
  show "(pc(a := p)) nullptr = M_out" "(pc(a := p)) nolocked = M_out" using D(1,2) v by auto
  show "owning ((pc(a := p)) b) \<longleftrightarrow> Some a = Some b" for b using D(3) [of b] p by auto
  show "case Some a of
        None \<Rightarrow> mtx_state (m\<lparr>mtx_state := nullptr\<rparr>) = nolocked \<and>
          m_resume_list_head (m\<lparr>mtx_state := nullptr\<rparr>) = nullptr \<and> [] = [] \<and> [] = []
      | Some k \<Rightarrow> mtx_state (m\<lparr>mtx_state := nullptr\<rparr>) \<noteq> nolocked \<and>
          chain nxt (mtx_state (m\<lparr>mtx_state := nullptr\<rparr>)) [] \<and>
          holder_list nxt (m_resume_list_head (m\<lparr>mtx_state := nullptr\<rparr>)) ((pc(a := p)) k) [] []"
    using e p by auto
  show "(pc(a := p)) b = M_parked \<longleftrightarrow> b \<in> set ([] @ rev [])" for b
    using D(6) [of b] e p by auto
  show "nxt b = (if st = nolocked then nullptr else st)" if "(pc(a := p)) b = M_loaded st" for b st
    using that D(8) [of b st] p by (cases "b = a") auto
qed simp

lemma mtx_core_enqueue:
  assumes I: "mtx_core m nxt pc ow pushed taken" and a: "pc a = M_loaded (mtx_state m)"
    and st: "mtx_state m \<noteq> nolocked"
  shows "mtx_core (m\<lparr>mtx_state := a\<rparr>) nxt (pc(a := M_parked)) ow (a # pushed) taken"
proof -
  note D = mtx_coreD [OF I]
  obtain h where ow: "ow = Some h" using D(4) st by (cases ow) auto
  note O = D(5) [OF ow]
  have v: "a \<noteq> nullptr" "a \<noteq> nolocked" using mtx_core_valid [OF I, of a] a by simp_all
  have h: "h \<noteq> a" using D(3) [of h] a ow by auto
  have out: "a \<notin> set taken" "a \<notin> set pushed" using D(6) [of a] a by auto
  have nx: "nxt a = mtx_state m" using D(8) [OF a] st by simp
  show ?thesis
    unfolding ow
  proof (rule mtx_coreI)
    show "(pc(a := M_parked)) nullptr = M_out" "(pc(a := M_parked)) nolocked = M_out"
      using D(1,2) v by auto
    show "owning ((pc(a := M_parked)) b) \<longleftrightarrow> Some h = Some b" for b
      using D(3) [of b] a h ow by auto
    show "case Some h of
        None \<Rightarrow> mtx_state (m\<lparr>mtx_state := a\<rparr>) = nolocked \<and>
          m_resume_list_head (m\<lparr>mtx_state := a\<rparr>) = nullptr \<and> a # pushed = [] \<and> taken = []
      | Some k \<Rightarrow> mtx_state (m\<lparr>mtx_state := a\<rparr>) \<noteq> nolocked \<and>
          chain nxt (mtx_state (m\<lparr>mtx_state := a\<rparr>)) (a # pushed) \<and>
          holder_list nxt (m_resume_list_head (m\<lparr>mtx_state := a\<rparr>)) ((pc(a := M_parked)) k) (a # pushed) taken"
      using O v h nx holder_list_push by auto
    show "(pc(a := M_parked)) b = M_parked \<longleftrightarrow> b \<in> set (taken @ rev (a # pushed))" for b
      using D(6) [of b] by auto
    show "distinct (taken @ rev (a # pushed))" using D(7) out by auto
    show "nxt b = (if st = nolocked then nullptr else st)" if "(pc(a := M_parked)) b = M_loaded st" for b st
      using that D(8) [of b st] by (cases "b = a") auto
  qed
qed

lemma mtx_core_release:
  assumes I: "mtx_core m nxt pc (Some h) pushed taken" and h: "pc h = M_unlocking"
    and m: "mtx_state m = nullptr" "m_resume_list_head m = nullptr"
  shows "mtx_core (m\<lparr>mtx_state := nolocked\<rparr>) nxt (pc(h := M_out)) None [] []"
proof (rule mtx_coreI)
  note D = mtx_coreD [OF I]
  have e: "pushed = []" "taken = []" using D(5) [OF refl] m h by auto
  show "(pc(h := M_out)) nullptr = M_out" "(pc(h := M_out)) nolocked = M_out" using D(1,2) by auto
  show "owning ((pc(h := M_out)) b) \<longleftrightarrow> None = Some b" for b using D(3) [of b] by auto
  show "(pc(h := M_out)) b = M_parked \<longleftrightarrow> b \<in> set ([] @ rev [])" for b
    using D(6) [of b] e by (cases "b = h") auto
  show "nxt b = (if st = nolocked then nullptr else st)" if "(pc(h := M_out)) b = M_loaded st" for b st
    using that D(8) [of b st] by (cases "b = h") auto
qed (use m in simp_all)

lemma mtx_core_hand:
  assumes I: "mtx_core m nxt pc (Some h) pushed taken" and h: "pc h = M_handing p"
  shows "\<exists>r. taken = p # r \<and> mtx_core m nxt (pc(h := M_out, p := M_granted)) (Some p) pushed r"
proof -
  note D = mtx_coreD [OF I]
  obtain r where r: "taken = p # r" "chain nxt (m_resume_list_head m) r" using D(5) [OF refl] h by auto
  have pp: "pc p = M_parked" using D(6) [of p] r by simp
  then have ph: "p \<noteq> h" "p \<noteq> nullptr" "p \<noteq> nolocked"
    using h mtx_core_valid [OF I, of p] by auto
  let ?pc = "pc(h := M_out, p := M_granted)"
  have "mtx_core m nxt ?pc (Some p) pushed r"
  proof (rule mtx_coreI)
    show "?pc nullptr = M_out" "?pc nolocked = M_out" using D(1,2) ph by auto
    show "owning (?pc b) \<longleftrightarrow> Some p = Some b" for b using D(3) [of b] ph by auto
    show "case Some p of
        None \<Rightarrow> mtx_state m = nolocked \<and> m_resume_list_head m = nullptr \<and> pushed = [] \<and> r = []
      | Some k \<Rightarrow> mtx_state m \<noteq> nolocked \<and> chain nxt (mtx_state m) pushed \<and>
          holder_list nxt (m_resume_list_head m) (?pc k) pushed r"
      using D(5) [OF refl] r by simp
    show "?pc b = M_parked \<longleftrightarrow> b \<in> set (r @ rev pushed)" for b
      using D(6) [of b] D(7) r h by (cases "b = p"; cases "b = h") auto
    show "distinct (r @ rev pushed)" using D(7) r by auto
    show "nxt b = (if st = nolocked then nullptr else st)" if "?pc b = M_loaded st" for b st
      using that D(8) [of b st] by (cases "b = p"; cases "b = h") auto
  qed
  with r show ?thesis by blast
qed

section \<open>Every step keeps the invariant\<close>

definition mtx_inv :: "('q, 'v, 'm) mtx_system \<Rightarrow> addr option \<Rightarrow> addr list \<Rightarrow> addr list \<Rightarrow> bool" where
  "mtx_inv s ow pushed taken \<longleftrightarrow>
     mtx_core (sys_mutex s) (next_of (mtx_world s)) (mpc s) ow pushed taken \<and>
     arrivals s = grants s @ taken @ rev pushed"

lemma reverse_waiters_mono:
  "reverse_waiters n a t w = Inr r \<Longrightarrow> reverse_waiters (n + k) a t w = Inr r"
  by (induction n arbitrary: a t w) (auto simp: Let_def split: if_splits)

lemma unlock_take_chain:
  assumes "unlock_take fuel m w = Inr (p, m1, w1)" and "chain (next_of w) (mtx_state m) as"
  shows "m1 = m\<lparr>mtx_state := nullptr\<rparr> \<and> chain (next_of w1) p (rev as) \<and> as \<noteq> [] \<and>
    (\<forall>c. c \<notin> set as \<longrightarrow> next_of w1 c = next_of w c)"
proof -
  have head: "mtx_state m \<noteq> nullptr" and m1: "m1 = m\<lparr>mtx_state := nullptr\<rparr>"
    and rev: "reverse_waiters fuel (mtx_state m) nullptr w = Inr (p, w1)"
    using assms(1) by (auto simp: unlock_take_def bindE_Inr_iff atomic_defs locked_no_waiting_def)
  obtain b bs where as: "as = b # bs" using head assms(2) by (cases as) auto
  have "distinct (b # bs @ [])" using chain_distinct [OF assms(2)] as by simp
  from reverse_waiters_chain [OF assms(2) [unfolded as] _ this, of nullptr "fuel + Suc (length bs)"]
  obtain p' w1' where r: "reverse_waiters (fuel + Suc (length bs)) (mtx_state m) nullptr w = Inr (p', w1')"
    and c: "chain (next_of w1') p' (rev as)" "\<forall>c. c \<notin> set as \<longrightarrow> next_of w1' c = next_of w c"
    unfolding as by auto
  have "p' = p" "w1' = w1"
    using r reverse_waiters_mono [OF rev, of "Suc (length bs)"] by simp_all
  with m1 c as show ?thesis by simp
qed

lemma lock_load_next:
  "lock_load a m w = (st, w1) \<Longrightarrow>
   st = mtx_state m \<and> next_of w1 = (next_of w)(a := if st = nolocked then nullptr else st)"
  by (auto simp: lock_load_def Let_def)

lemma lock_cas_fail: "lock_cas sp st a m = (False, m1) \<Longrightarrow> m1 = m"
  by (auto simp: lock_cas_def atomic_defs split: if_splits)

lemma lock_cas_ok:
  "lock_cas sp st a m = (True, m1) \<Longrightarrow>
   mtx_state m = st \<and> m1 = m\<lparr>mtx_state := if st = nolocked then nullptr else a\<rparr>"
  by (auto simp: lock_cas_def atomic_defs locked_no_waiting_def split: if_splits)

lemma mtx_step_inv:
  assumes "mtx_step Q s s'" and inv: "mtx_inv s ow pushed taken"
  shows "\<exists>ow' pushed' taken'. mtx_inv s' ow' pushed' taken'"
proof -
  let ?nx = "next_of (mtx_world s)"
  have I: "mtx_core (sys_mutex s) ?nx (mpc s) ow pushed taken"
    and A: "arrivals s = grants s @ taken @ rev pushed"
    using inv by (auto simp: mtx_inv_def)
  note D = mtx_coreD [OF I] and V = mtx_core_valid [OF I]
  have own: "ow = Some a" if "owning (mpc s a)" for a using D(3) that by simp
  from assms(1) show ?thesis
  proof cases
    case (K_suspend a h)
    have "next_of (lock_prepare a h (mtx_world s)) = ?nx" by (simp add: lock_prepare_frames(2))
    with mtx_core_local [OF I, of a M_trying "?nx a"] K_suspend A show ?thesis
      by (auto simp: mtx_inv_def)
  next
    case (K_load a st w)
    let ?n = "if st = nolocked then nullptr else st"
    have "next_of w = ?nx(a := ?n)" using lock_load_next [OF K_load(3)] by simp
    moreover have "mtx_core (sys_mutex s) (?nx(a := ?n)) ((mpc s)(a := M_loaded st)) ow pushed taken"
      using mtx_core_local [OF I, of a "M_loaded st" ?n] V [of a] K_load(2) by simp
    ultimately have "mtx_inv s' ow pushed taken" using A K_load(1) by (simp add: mtx_inv_def)
    then show ?thesis by blast
  next
    case (K_cas_fail a st sp m)
    with mtx_core_local [OF I, of a M_trying "?nx a"] V [of a] lock_cas_fail [OF K_cas_fail(3)] A
    show ?thesis by (auto simp: mtx_inv_def)
  next
    case (K_cas_lock a st sp m)
    note c = lock_cas_ok [OF K_cas_lock(4)]
    have "ow = None" using D(5) c K_cas_lock(3) by (cases ow) auto
    with mtx_core_acquire [OF I [unfolded this], of a M_granted] V [of a] K_cas_lock c D(4) A
    show ?thesis by (auto simp: mtx_inv_def)
  next
    case (K_cas_wait a st sp m)
    note c = lock_cas_ok [OF K_cas_wait(4)]
    have st: "st = mtx_state (sys_mutex s)" using c by simp
    from mtx_core_enqueue [OF I K_cas_wait(2) [unfolded st]] K_cas_wait c A
    have "mtx_inv s' ow (a # pushed) taken" by (auto simp: mtx_inv_def)
    then show ?thesis by blast
  next
    case (K_resume a)
    have o: "ow = Some a" using own [of a] K_resume by simp
    have "next_of (mutex_await_resume a (mtx_world s)) = ?nx" by (simp add: mutex_await_resume_def)
    with mtx_core_owner [OF I [unfolded o], of M_holding "sys_mutex s" ?nx pushed taken]
      D(5) [OF o] K_resume A show ?thesis by (auto simp: mtx_inv_def)
  next
    case (K_try a ok m)
    show ?thesis
    proof (cases "mtx_state (sys_mutex s) = nolocked")
      case True
      then have "ow = None" using D(5) by (cases ow) auto
      with mtx_core_acquire [OF I [unfolded this], of a M_holding] True K_try D(4) A show ?thesis
        by (auto simp: mtx_inv_def try_lock_def atomic_defs locked_no_waiting_def)
    next
      case False
      with K_try have "\<not> ok" "m = sys_mutex s" by (auto simp: try_lock_def atomic_defs)
      moreover have "(mpc s)(a := M_out) = mpc s" using K_try(2) by auto
      ultimately show ?thesis using inv K_try(1) by (auto simp: mtx_inv_def)
    qed
  next
    case (K_unlock a)
    have o: "ow = Some a" using own [of a] K_unlock by simp
    with mtx_core_owner [OF I [unfolded o], of M_unlocking "sys_mutex s" ?nx pushed taken]
      D(5) [OF o] K_unlock A show ?thesis by (auto simp: mtx_inv_def)
  next
    case (K_next a p)
    have o: "ow = Some a" using own [of a] K_next by simp
    have "taken \<noteq> []" using D(5) [OF o] K_next by auto
    with mtx_core_owner [OF I [unfolded o], of "M_picked p" "sys_mutex s" ?nx pushed taken]
      D(5) [OF o] K_next A show ?thesis by (auto simp: mtx_inv_def)
  next
    case (K_release a ok m)
    have o: "ow = Some a" using own [of a] K_release by simp
    show ?thesis
    proof (cases "mtx_state (sys_mutex s) = nullptr")
      case True
      then have e: "pushed = []" "taken = []" using D(5) [OF o] K_release by auto
      from mtx_core_release [OF I [unfolded o] K_release(2) True K_release(3)] True K_release e A
      show ?thesis by (auto simp: mtx_inv_def unlock_release_def atomic_defs locked_no_waiting_def)
    next
      case False
      then have m: "\<not> ok" "m = sys_mutex s"
        using K_release by (auto simp: unlock_release_def atomic_defs locked_no_waiting_def)
      have "taken = []" "pushed \<noteq> []" using D(5) [OF o] K_release False by auto
      with mtx_core_owner [OF I [unfolded o], of M_taking "sys_mutex s" ?nx pushed taken]
        D(5) [OF o] K_release m A show ?thesis by (auto simp: mtx_inv_def)
    qed
  next
    case (K_take a fuel p m w)
    have o: "ow = Some a" using own [of a] K_take by simp
    have st: "chain ?nx (mtx_state (sys_mutex s)) pushed" "taken = []" using D(5) [OF o] K_take(2) by auto
    note t = unlock_take_chain [OF K_take(3) st(1)]
    have nx: "next_of w b = ?nx b" if "mpc s b = M_loaded st" for b st
      using t D(6) [of b] that by auto
    have "mtx_core m (next_of w) ((mpc s)(a := M_picked p)) (Some a) [] (rev pushed)"
      using t st(2) by (intro mtx_core_owner [OF I [unfolded o]] nx) auto
    then have "mtx_inv s' (Some a) [] (rev pushed)" using A K_take(1) st(2) by (simp add: mtx_inv_def)
    then show ?thesis by blast
  next
    case (K_pop a p m)
    have o: "ow = Some a" using own [of a] K_pop by simp
    have c: "chain ?nx p taken" "taken \<noteq> []" using D(5) [OF o] K_pop by auto
    then obtain r where r: "taken = p # r" "chain ?nx (m_next (waiters (mtx_world s) p)) r"
      by (cases taken) auto
    have m: "m = (sys_mutex s)\<lparr>m_resume_list_head := m_next (waiters (mtx_world s) p)\<rparr>"
      using K_pop(3) by (auto simp: unlock_pop_def bindE_Inr_iff)
    from mtx_core_owner [OF I [unfolded o], of "M_handing p" m ?nx pushed taken]
      D(5) [OF o] K_pop r m A have "mtx_inv s' (Some a) pushed taken" by (auto simp: mtx_inv_def)
    then show ?thesis by blast
  next
    case (K_hand a p w)
    have o: "ow = Some a" using own [of a] K_hand by simp
    have "waiter_submit Q p (mtx_world s) = Inr w" using K_hand(3) by (simp add: mutex_resume_def)
    from waiter_submit_waiters [OF this] have nx: "next_of w = ?nx" by simp
    obtain r where "taken = p # r"
      and "mtx_core (sys_mutex s) ?nx ((mpc s)(a := M_out, p := M_granted)) (Some p) pushed r"
      using mtx_core_hand [OF I [unfolded o] K_hand(2)] by blast
    then have "mtx_inv s' (Some p) pushed r" using K_hand(1) A nx by (simp add: mtx_inv_def)
    then show ?thesis by blast
  qed
qed

lemma mtx_reach_step: "mtx_reach Q s \<Longrightarrow> mtx_step Q s s' \<Longrightarrow> mtx_reach Q s'"
  unfolding mtx_reach_def by (meson rtranclp.rtrancl_into_rtrancl)

lemma mtx_reach_inv:
  assumes "mtx_reach Q s"
  shows "\<exists>ow pushed taken. mtx_inv s ow pushed taken"
proof -
  obtain s0 where s0: "mtx_start s0" and run: "(mtx_step Q)\<^sup>*\<^sup>* s0 s"
    using assms by (auto simp: mtx_reach_def)
  have "mtx_inv s0 None [] []"
    using s0 by (simp add: mtx_start_def mtx_inv_def mtx_core_def new_mutex_def)
  then have I0: "\<exists>ow pushed taken. mtx_inv s0 ow pushed taken" by blast
  from run show ?thesis
  proof (induction rule: rtranclp_induct)
    case base
    from I0 show ?case .
  next
    case (step s1 s2)
    then obtain ow pushed taken where "mtx_inv s1 ow pushed taken" by blast
    from mtx_step_inv [OF step.hyps(2) this] show ?case .
  qed
qed

section \<open>Properties\<close>

text \<open>
  C3. Mutual exclusion: in every interleaving at most one coroutine owns the mutex; the mutex word
  reads as free exactly when nobody does, and then nobody is left waiting.
\<close>

theorem mutex_mutual_exclusion:
  assumes "mtx_reach Q s"
  shows "(owning (mpc s a) \<and> owning (mpc s b) \<longrightarrow> a = b) \<and>
    (mtx_state (sys_mutex s) = nolocked \<longleftrightarrow> (\<forall>c. \<not> owning (mpc s c))) \<and>
    (mpc s c = M_parked \<longrightarrow> (\<exists>h. owning (mpc s h)))"
proof -
  obtain ow pushed taken where "mtx_inv s ow pushed taken" using mtx_reach_inv [OF assms] by blast
  then have I: "mtx_core (sys_mutex s) (next_of (mtx_world s)) (mpc s) ow pushed taken"
    by (simp add: mtx_inv_def)
  note D = mtx_coreD [OF I]
  show ?thesis
  proof (cases ow)
    case None
    then have "pushed = []" "taken = []" "mtx_state (sys_mutex s) = nolocked" using D(4) by auto
    with None D(3,6) show ?thesis by simp
  next
    case (Some h)
    then have "mtx_state (sys_mutex s) \<noteq> nolocked" "owning (mpc s h)" using D(3,5) by auto
    moreover have "owning (mpc s a) \<and> owning (mpc s b) \<longrightarrow> a = b" using D(3) Some by simp
    ultimately show ?thesis by blast
  qed
qed

text \<open>
  C4. First come, first served: the coroutines that had to wait receive the mutex in the order in
  which they were put into the list, each exactly once, and those that have not received it yet are
  exactly the parked ones.
\<close>

theorem mutex_grants_in_order:
  assumes "mtx_reach Q s"
  shows "\<exists>ws. arrivals s = grants s @ ws \<and> distinct ws \<and> (\<forall>a. a \<in> set ws \<longleftrightarrow> mpc s a = M_parked)"
proof -
  obtain ow pushed taken where I: "mtx_core (sys_mutex s) (next_of (mtx_world s)) (mpc s) ow pushed taken"
    and A: "arrivals s = grants s @ taken @ rev pushed"
    using mtx_reach_inv [OF assms] by (auto simp: mtx_inv_def)
  with mtx_coreD(6,7) [OF I] show ?thesis by (intro exI [of _ "taken @ rev pushed"]) simp
qed

text \<open>
  C6. The assertions in \<open>unlock\<close> never fail for an owner: the mutex is locked when it starts,
  there are awaiters to take when the release failed and the walk that reverses them ends, and the
  awaiter it picks is not null.
\<close>

theorem mutex_unlock_never_asserts:
  assumes "mtx_reach Q s"
  shows "(mpc s a = M_holding \<longrightarrow> unlock_enter (sys_mutex s) = Inr ()) \<and>
    (mpc s a = M_taking \<longrightarrow> (\<exists>fuel r. unlock_take fuel (sys_mutex s) (mtx_world s) = Inr r)) \<and>
    (mpc s a = M_picked p \<longrightarrow> (\<exists>m. unlock_pop p (sys_mutex s) (mtx_world s) = Inr m))"
proof -
  obtain ow pushed taken where "mtx_inv s ow pushed taken" using mtx_reach_inv [OF assms] by blast
  then have I: "mtx_core (sys_mutex s) (next_of (mtx_world s)) (mpc s) ow pushed taken"
    by (simp add: mtx_inv_def)
  have O: "mtx_state (sys_mutex s) \<noteq> nolocked \<and> chain (next_of (mtx_world s)) (mtx_state (sys_mutex s)) pushed \<and>
      holder_list (next_of (mtx_world s)) (m_resume_list_head (sys_mutex s)) (mpc s a) pushed taken"
    if "owning (mpc s a)"
    using mtx_coreD(5) [OF I] mtx_coreD(3) [OF I] that by simp
  have "\<exists>fuel r. unlock_take fuel (sys_mutex s) (mtx_world s) = Inr r" if t: "mpc s a = M_taking"
  proof -
    have c: "chain (next_of (mtx_world s)) (mtx_state (sys_mutex s)) pushed" "pushed \<noteq> []"
      and st: "mtx_state (sys_mutex s) \<noteq> nolocked" using O t by auto
    then obtain b bs where p: "pushed = b # bs" by (cases pushed) auto
    then have nz: "mtx_state (sys_mutex s) \<noteq> nullptr" using c by auto
    have "distinct (b # bs @ [])" using chain_distinct [OF c(1)] p by simp
    from reverse_waiters_chain [OF c(1) [unfolded p] _ this, of nullptr "Suc (length bs)"]
    obtain q w where "reverse_waiters (Suc (length bs)) (mtx_state (sys_mutex s)) nullptr (mtx_world s) = Inr (q, w)"
      by auto
    then have "unlock_take (Suc (length bs)) (sys_mutex s) (mtx_world s) =
        Inr (q, (sys_mutex s)\<lparr>mtx_state := nullptr\<rparr>, w)"
      using st nz by (simp add: unlock_take_def atomic_defs locked_no_waiting_def)
    then show ?thesis by blast
  qed
  moreover have "\<exists>m. unlock_pop p (sys_mutex s) (mtx_world s) = Inr m" if "mpc s a = M_picked p"
  proof -
    have "chain (next_of (mtx_world s)) p taken" "taken \<noteq> []" using O that by auto
    then have "p \<noteq> nullptr" by (cases taken) auto
    then show ?thesis by (simp add: unlock_pop_def)
  qed
  moreover have "unlock_enter (sys_mutex s) = Inr ()" if "mpc s a = M_holding"
    using O that by (simp add: unlock_enter_def)
  ultimately show ?thesis by blast
qed

section \<open>A run\<close>

definition demo_mtx_system :: "(handle list, nat, unit) mtx_system" where
  "demo_mtx_system = \<lparr>sys_mutex = new_mutex, mtx_world = demo_world, mpc = (\<lambda>_. M_out),
     arrivals = [], grants = []\<rparr>"

lemma demo_mtx_reach: "mtx_reach list_queue demo_mtx_system"
  unfolding mtx_reach_def
  by (rule exI [of _ demo_mtx_system]) (simp add: mtx_start_def demo_mtx_system_def)

text \<open>
  Coroutine 4 acquires by \<open>try_lock\<close>, coroutine 5 locks and is parked, coroutine 4 starts to unlock
  and fails to release.
\<close>

lemma demo_mtx_run:
  "\<exists>s :: (handle list, nat, unit) mtx_system. mtx_reach list_queue s \<and> mpc s 4 = M_taking \<and>
     mpc s 5 = M_parked \<and> arrivals s = [5] \<and> grants s = []"
proof -
  let ?Q = list_queue
  note sys = demo_mtx_system_def new_mutex_def
  define m1 where "m1 = \<lparr>mtx_state = nullptr, m_resume_list_head = nullptr\<rparr>"
  define s1 where "s1 = demo_mtx_system\<lparr>sys_mutex := m1, mpc := (\<lambda>_. M_out)(4 := M_holding)\<rparr>"
  have "mtx_step ?Q demo_mtx_system s1"
    using K_try [of demo_mtx_system 4 True m1 ?Q]
    by (simp add: s1_def m1_def sys nolocked_def try_lock_def atomic_defs locked_no_waiting_def)
  then have r1: "mtx_reach ?Q s1" by (rule mtx_reach_step [OF demo_mtx_reach])
  define w2 where "w2 = lock_prepare 5 105 demo_world"
  define s2 where "s2 = s1\<lparr>mtx_world := w2, mpc := (mpc s1)(5 := M_trying)\<rparr>"
  have "mtx_step ?Q s1 s2"
    using K_suspend [of s1 5 ?Q 105] by (simp add: s2_def s1_def w2_def sys nolocked_def)
  then have r2: "mtx_reach ?Q s2" by (rule mtx_reach_step [OF r1])
  define s3 where "s3 = s2\<lparr>mtx_world := set_next 5 0 (set_next 5 0 w2), mpc := (mpc s2)(5 := M_loaded 0)\<rparr>"
  have "mtx_step ?Q s2 s3"
    unfolding s3_def
    by (rule K_load) (simp_all add: s2_def s1_def m1_def lock_load_def)
  then have r3: "mtx_reach ?Q s3" by (rule mtx_reach_step [OF r2])
  define m4 where "m4 = \<lparr>mtx_state = 5, m_resume_list_head = nullptr\<rparr>"
  define s4 where "s4 = s3\<lparr>sys_mutex := m4, mpc := (mpc s3)(5 := M_parked), arrivals := arrivals s3 @ [5]\<rparr>"
  have "mtx_step ?Q s3 s4"
    unfolding s4_def
    by (rule K_cas_wait [where st = 0 and sp = False])
       (simp_all add: s3_def s2_def s1_def m1_def m4_def lock_cas_def atomic_defs)
  then have r4: "mtx_reach ?Q s4" by (rule mtx_reach_step [OF r3])
  define s5 where "s5 = s4\<lparr>mpc := (mpc s4)(4 := M_unlocking)\<rparr>"
  have "mtx_step ?Q s4 s5"
    unfolding s5_def
    by (rule K_unlock) (simp_all add: s4_def s3_def s2_def s1_def m4_def unlock_enter_def nolocked_def)
  then have r5: "mtx_reach ?Q s5" by (rule mtx_reach_step [OF r4])
  define s6 where "s6 = s5\<lparr>sys_mutex := m4, mpc := (mpc s5)(4 := if False then M_out else M_taking)\<rparr>"
  have "mtx_step ?Q s5 s6"
    unfolding s6_def
    by (rule K_release) (simp_all add: s5_def s4_def m4_def unlock_release_def atomic_defs locked_no_waiting_def)
  then have r6: "mtx_reach ?Q s6" by (rule mtx_reach_step [OF r5])
  moreover have "mpc s6 4 = M_taking" "mpc s6 5 = M_parked" "arrivals s6 = [5]" "grants s6 = []"
    by (simp_all add: s6_def s5_def s4_def s3_def s2_def s1_def sys)
  ultimately show ?thesis by blast
qed

theorem mutex_mutual_exclusion_witness:
  "\<exists>s :: (handle list, nat, unit) mtx_system. mtx_reach list_queue s \<and> owning (mpc s 4) \<and>
     \<not> owning (mpc s 5) \<and> mtx_state (sys_mutex s) \<noteq> nolocked"
proof -
  obtain s :: "(handle list, nat, unit) mtx_system" where s: "mtx_reach list_queue s" "mpc s 4 = M_taking"
    "mpc s 5 = M_parked" using demo_mtx_run by blast
  from mutex_mutual_exclusion [OF s(1), of 4 5 5] s show ?thesis by auto
qed

theorem mutex_grants_in_order_witness:
  "\<exists>s :: (handle list, nat, unit) mtx_system. mtx_reach list_queue s \<and> arrivals s = [5] \<and>
     (\<exists>ws. [5] = grants s @ ws \<and> (\<forall>a. a \<in> set ws \<longleftrightarrow> mpc s a = M_parked))"
proof -
  obtain s :: "(handle list, nat, unit) mtx_system" where s: "mtx_reach list_queue s" "arrivals s = [5]"
    using demo_mtx_run by blast
  from mutex_grants_in_order [OF s(1)] s show ?thesis by metis
qed

theorem mutex_unlock_never_asserts_witness:
  "\<exists>s :: (handle list, nat, unit) mtx_system. mtx_reach list_queue s \<and> mpc s 4 = M_taking \<and>
     (\<exists>fuel r. unlock_take fuel (sys_mutex s) (mtx_world s) = Inr r)"
proof -
  obtain s :: "(handle list, nat, unit) mtx_system" where s: "mtx_reach list_queue s" "mpc s 4 = M_taking"
    using demo_mtx_run by blast
  from mutex_unlock_never_asserts [OF s(1), of 4] s show ?thesis by blast
qed

end
