(* ===== verification/Wakeup.thy ===== *)
theory Wakeup
  imports Context
begin

text \<open>
  How the worker thread of a context sleeps and is woken (src/context.cpp, src/engine.cpp,
  include/coro/uring_proxy.hpp): the loop \<open>run\<close> with \<open>process_work\<close> and \<open>poll_submit\<close>, other
  threads that submit coroutines or call \<open>notify_stop\<close>, and the kernel that completes I/O,
  interleaved at the level of the single atomic operations. The shared objects are the task queue
  and the counter behind the eventfd. The counter has the 64 bits the kernel gives it, the queue its
  \<open>kQueCap\<close> places, so the model shows when a write to either blocks.
\<close>

section \<open>The event counter\<close>

text \<open>
  \<open>eventfd(0, 0)\<close> belongs to the kernel: the argument \<open>E\<close> of the model, of which the code
  relies on the documented behaviour \<open>efd_laws\<close>, seen through its value \<open>ev\<close>. A read blocks (None)
  at 0 and otherwise takes the whole value; a write adds, and blocks when the sum would exceed
  \<open>2 ^ 64 - 2\<close>.
\<close>

record 'e efd_ops =
  efd_read :: "'e \<Rightarrow> (u64 \<times> 'e) option"
  efd_write :: "u64 \<Rightarrow> 'e \<Rightarrow> 'e option"

definition efd_laws :: "'e efd_ops \<Rightarrow> ('e \<Rightarrow> nat) \<Rightarrow> bool" where
  "efd_laws E ev \<longleftrightarrow>
     (\<forall>e. ev e < 2 ^ 64 - 1) \<and>
     (\<forall>e. efd_read E e = None \<longleftrightarrow> ev e = 0) \<and>
     (\<forall>e u e'. efd_read E e = Some (u, e') \<longrightarrow> u = word_of_nat (ev e) \<and> ev e' = 0) \<and>
     (\<forall>v e. efd_write E v e = None \<longleftrightarrow> 2 ^ 64 - 1 \<le> ev e + unat v) \<and>
     (\<forall>v e e'. efd_write E v e = Some e' \<longrightarrow> ev e' = ev e + unat v)"

lemma efd_lawsD:
  assumes "efd_laws E ev"
  shows "ev e < 2 ^ 64 - 1" and "efd_read E e = None \<longleftrightarrow> ev e = 0"
    and "efd_read E e = Some (u, e') \<Longrightarrow> u = word_of_nat (ev e) \<and> ev e' = 0"
    and "efd_write E v e = None \<longleftrightarrow> 2 ^ 64 - 1 \<le> ev e + unat v"
    and "efd_write E v e = Some e' \<Longrightarrow> ev e' = ev e + unat v"
  using assms by (simp_all add: efd_laws_def)

text \<open>A bounded number satisfies the laws.\<close>

typedef counter = "{n :: nat. n < 2 ^ 64 - 1}"
  by (rule exI [of _ 0]) simp

setup_lifting type_definition_counter

lift_definition counter_val :: "counter \<Rightarrow> nat" is "\<lambda>n. n" .

lift_definition counter_of :: "nat \<Rightarrow> counter" is "\<lambda>n. if n < 2 ^ 64 - 1 then n else 0"
  by simp

definition counter_efd :: "counter efd_ops" where
  "counter_efd = \<lparr>
     efd_read = (\<lambda>c. if counter_val c = 0 then None
                     else Some (word_of_nat (counter_val c), counter_of 0)),
     efd_write = (\<lambda>v c. if 2 ^ 64 - 1 \<le> counter_val c + unat v then None
                        else Some (counter_of (counter_val c + unat v)))\<rparr>"

lemma counter_val_of: "counter_val (counter_of n) = (if n < 2 ^ 64 - 1 then n else 0)"
  by transfer simp

lemma counter_val_less: "counter_val c < 2 ^ 64 - 1"
  by transfer simp

lemma counter_efd_laws: "efd_laws counter_efd counter_val"
  using counter_val_less by (auto simp: efd_laws_def counter_efd_def counter_val_of not_le split: if_splits)

section \<open>State\<close>

text \<open>
  Where a thread is in a call into the context: behind the assertion of \<open>submit_task\<close>, behind
  its push, behind the \<open>request_stop\<close> of \<open>notify_stop\<close>, or in none of them. Thread 0 is the worker itself.
\<close>

datatype caller = In_none | In_push handle | In_write | In_notify

text \<open>
  Where the worker is in \<open>run\<close>: before \<open>was_size\<close>; in the loop of \<open>process_work\<close> with tasks
  left; inside a task; behind the first stop test, taken and not taken; behind the second; before
  the callback; before \<open>do_io_submit\<close>; before the read of the eventfd; with the value read;
  handling entry \<open>i\<close> of \<open>num\<close>; out of the loop.
\<close>

datatype wpoint =
    W_loop
  | W_work nat
  | W_run nat
  | W_stop_seen
  | W_go_on
  | W_not_stopped
  | W_idle
  | W_poll
  | W_read
  | W_got u64
  | W_cqes nat nat
  | W_exit

text \<open>
  The last five fields are ghosts: how often the task flag and how often other events were
  written since the last read, how many tasks were taken since then, how often \<open>notify_stop\<close> was
  begun, and whether one of these calls came to its end. \<open>io_max\<close> and \<open>max_notes\<close> bound what the
  programs do: the requests they keep pending and the calls of \<open>notify_stop\<close>.
\<close>

record ('q, 'e) wsys =
  tq :: 'q
  efd :: 'e
  w_at :: wpoint
  n_thr :: nat
  c_at :: "nat \<Rightarrow> caller"
  stop_req :: bool
  on_idle :: stop_cb
  waits :: u64
  io_prep :: nat
  io_run :: nat
  in_kernel :: nat
  in_ring :: nat
  io_max :: nat
  max_notes :: nat
  g_tasks :: nat
  g_sigs :: nat
  g_pops :: nat
  begun :: nat
  notified :: bool

definition resting :: "('q, 'e) wsys \<Rightarrow> bool" where
  "resting s \<longleftrightarrow> waits s = 0 \<and> io_prep s = 0 \<and> io_run s = 0"

abbreviation wk :: "wpoint \<Rightarrow> ('q, 'e) wsys \<Rightarrow> ('q, 'e) wsys" where
  "wk p s \<equiv> s\<lparr>w_at := p\<rparr>"

abbreviation cl :: "nat \<Rightarrow> caller \<Rightarrow> ('q, 'e) wsys \<Rightarrow> ('q, 'e) wsys" where
  "cl k p s \<equiv> s\<lparr>c_at := (c_at s)(k := p)\<rparr>"

section \<open>Steps\<close>

text \<open>
  \<open>submit_task\<close> and \<open>notify_stop\<close>. A null handle ends the program, so it is left out. A thread
  that cannot go on (a full queue, a full counter) stays where it is.
\<close>

definition begin_submit :: "nat \<Rightarrow> handle \<Rightarrow> ('q, 'e) wsys \<Rightarrow> ('q, 'e) wsys" where
  "begin_submit k h s = (if h \<noteq> nullptr then cl k (In_push h) s else s)"

definition begin_notify :: "nat \<Rightarrow> ('q, 'e) wsys \<Rightarrow> ('q, 'e) wsys" where
  "begin_notify k s =
     (if begun s < max_notes s
      then cl k In_notify (s\<lparr>stop_req := True, begun := Suc (begun s)\<rparr>) else s)"

definition call_step :: "'q queue_ops \<Rightarrow> 'e efd_ops \<Rightarrow> nat \<Rightarrow> ('q, 'e) wsys \<Rightarrow> ('q, 'e) wsys" where
  "call_step Q E k s =
     (case c_at s k of
        In_none \<Rightarrow> s
      | In_push h \<Rightarrow> (case q_push Q h (tq s) of
            None \<Rightarrow> s
          | Some q \<Rightarrow> cl k In_write (s\<lparr>tq := q\<rparr>))
      | In_write \<Rightarrow> (case efd_write E task_flag (efd s) of
            None \<Rightarrow> s
          | Some e \<Rightarrow> cl k In_none (s\<lparr>efd := e, g_tasks := Suc (g_tasks s)\<rparr>))
      | In_notify \<Rightarrow> (case efd_write E 1 (efd s) of
            None \<Rightarrow> s
          | Some e \<Rightarrow> cl k In_none (s\<lparr>efd := e, g_sigs := Suc (g_sigs s), notified := True\<rparr>)))"

text \<open>
  What the running code decides: a task may submit, prepare I/O, change the count of waiting
  coroutines of its own context or hand control back; a completion callback may submit or not; the
  scheduler's callback may find that all contexts are idle and stop this one.
\<close>

datatype choice = Submit handle | Prepare | Wait | Unwait | Back | Stop_all

text \<open>The loop of \<open>context::run\<close> with \<open>process_work\<close>, up to the poll.\<close>

definition run_part :: "'q queue_ops \<Rightarrow> choice \<Rightarrow> ('q, 'e) wsys \<Rightarrow> ('q, 'e) wsys" where
  "run_part Q act s =
     (case w_at s of
        W_loop \<Rightarrow> wk (W_work (q_was_size Q (tq s))) s
      | W_work n \<Rightarrow>
          if n = 0 then wk (if stop_req s \<and> resting s then W_stop_seen else W_go_on) s
          else (case q_pop Q (tq s) of
              None \<Rightarrow> s
            | Some (h, q) \<Rightarrow> wk (W_run (n - 1)) (s\<lparr>tq := q, g_pops := Suc (g_pops s)\<rparr>))
      | W_run n \<Rightarrow> (case act of
            Submit h \<Rightarrow> begin_submit 0 h s
          | Prepare \<Rightarrow> if io_prep s + io_run s < io_max s then s\<lparr>io_prep := Suc (io_prep s)\<rparr> else s
          | Wait \<Rightarrow> s\<lparr>waits := waits s + 1\<rparr>
          | Unwait \<Rightarrow> s\<lparr>waits := waits s - 1\<rparr>
          | _ \<Rightarrow> wk (W_work n) s)
      | W_stop_seen \<Rightarrow> wk (if q_was_empty Q (tq s) then W_exit else W_loop) s
      | W_go_on \<Rightarrow> wk (if \<not> stop_req s \<and> resting s then W_not_stopped else W_poll) s
      | W_not_stopped \<Rightarrow> wk (if q_was_empty Q (tq s) then W_idle else W_poll) s
      | W_idle \<Rightarrow> (case on_idle s of
            No_callback \<Rightarrow> wk W_poll s
          | Request_stop \<Rightarrow> wk W_poll (s\<lparr>stop_req := True\<rparr>)
          | Scheduler_callback i \<Rightarrow>
              wk W_poll (if act = Stop_all then begin_notify 0 s else s))
      | _ \<Rightarrow> s)"

text \<open>\<open>poll_submit\<close>.\<close>

definition poll_part :: "'e efd_ops \<Rightarrow> choice \<Rightarrow> ('q, 'e) wsys \<Rightarrow> ('q, 'e) wsys" where
  "poll_part E act s =
     (case w_at s of
        W_poll \<Rightarrow> wk W_read
          (s\<lparr>in_kernel := in_kernel s + io_prep s, io_run := io_run s + io_prep s, io_prep := 0\<rparr>)
      | W_read \<Rightarrow> (case efd_read E (efd s) of
            None \<Rightarrow> s
          | Some (u, e) \<Rightarrow> wk (W_got u) (s\<lparr>efd := e, g_tasks := 0, g_sigs := 0, g_pops := 0\<rparr>))
      | W_got u \<Rightarrow>
          if \<not> wake_by_cqe u then wk W_loop s
          else let num = min (in_ring s) (io_run s) in
            if num \<noteq> 0 then wk (W_cqes num 0) s else wk W_loop s
      | W_cqes num i \<Rightarrow>
          if i < num then
            (case act of
               Submit h \<Rightarrow> wk (W_cqes num (Suc i)) (begin_submit 0 h s)
             | _ \<Rightarrow> wk (W_cqes num (Suc i)) s)
          else wk W_loop (s\<lparr>in_ring := in_ring s - num, io_run := io_run s - num\<rparr>)
      | _ \<Rightarrow> s)"

definition polling :: "wpoint \<Rightarrow> bool" where
  "polling p \<longleftrightarrow> (case p of W_poll \<Rightarrow> True | W_read \<Rightarrow> True | W_got u \<Rightarrow> True | W_cqes n i \<Rightarrow> True | _ \<Rightarrow> False)"

definition loop_step ::
    "'q queue_ops \<Rightarrow> 'e efd_ops \<Rightarrow> choice \<Rightarrow> ('q, 'e) wsys \<Rightarrow> ('q, 'e) wsys" where
  "loop_step Q E act s =
     (if c_at s 0 \<noteq> In_none then call_step Q E 0 s
      else if polling (w_at s) then poll_part E act s else run_part Q act s)"

text \<open>
  The steps of the whole: of the worker, of another thread that goes on with its call, begins to
  submit or begins to stop the context, and of the kernel, which completes \<open>n\<close> requests and
  adds \<open>k\<close> to the counter, 1 for each or fewer when it reports several at once.
\<close>

datatype event =
    Worker choice
  | Caller nat
  | Begin_submit nat handle
  | Begin_notify nat
  | Complete nat nat

fun wake_step :: "'q queue_ops \<Rightarrow> 'e efd_ops \<Rightarrow> event \<Rightarrow> ('q, 'e) wsys \<Rightarrow> ('q, 'e) wsys" where
  "wake_step Q E (Worker act) s = loop_step Q E act s"
| "wake_step Q E (Caller k) s = (if 0 < k \<and> k < n_thr s then call_step Q E k s else s)"
| "wake_step Q E (Begin_submit k h) s =
     (if 0 < k \<and> k < n_thr s \<and> c_at s k = In_none then begin_submit k h s else s)"
| "wake_step Q E (Begin_notify k) s =
     (if 0 < k \<and> k < n_thr s \<and> c_at s k = In_none then begin_notify k s else s)"
| "wake_step Q E (Complete n k) s =
     (if 0 < k \<and> k \<le> n \<and> n \<le> in_kernel s then
        (case efd_write E (word_of_nat k) (efd s) of
           None \<Rightarrow> s\<lparr>in_kernel := in_kernel s - n, in_ring := in_ring s + n\<rparr>
         | Some e \<Rightarrow> s\<lparr>in_kernel := in_kernel s - n, in_ring := in_ring s + n,
                       efd := e, g_sigs := g_sigs s + k\<rparr>)
      else s)"

fun wake_run :: "'q queue_ops \<Rightarrow> 'e efd_ops \<Rightarrow> event list \<Rightarrow> ('q, 'e) wsys \<Rightarrow> ('q, 'e) wsys" where
  "wake_run Q E [] s = s"
| "wake_run Q E (x # xs) s = wake_run Q E xs (wake_step Q E x s)"

text \<open>
  The start: the worker is about to enter its loop, nothing is submitted and nobody is inside a call.
\<close>

definition wake_start ::
    "('q \<Rightarrow> handle list) \<Rightarrow> ('e \<Rightarrow> nat) \<Rightarrow> ('q, 'e) wsys \<Rightarrow> bool" where
  "wake_start ql ev s \<longleftrightarrow>
     w_at s = W_loop \<and> ql (tq s) = [] \<and> ev (efd s) = 0 \<and> 0 < n_thr s \<and> (\<forall>k. c_at s k = In_none) \<and>
     \<not> stop_req s \<and> io_prep s = 0 \<and> io_run s = 0 \<and> in_kernel s = 0 \<and> in_ring s = 0 \<and>
     io_max s \<le> kQueCap \<and> max_notes s < 2 ^ 23 \<and>
     g_tasks s = 0 \<and> g_sigs s = 0 \<and> g_pops s = 0 \<and> begun s = 0 \<and> \<not> notified s"

section \<open>The invariant\<close>

text \<open>How many of the threads are at a point of a call.\<close>

definition calls_at :: "nat \<Rightarrow> (nat \<Rightarrow> caller) \<Rightarrow> caller \<Rightarrow> nat" where
  "calls_at n f p = card {k. k < n \<and> f k = p}"

lemma calls_at_bound: "calls_at n f p \<le> n"
proof -
  have "card {k. k < n \<and> f k = p} \<le> card {..<n}" by (rule card_mono) auto
  then show ?thesis by (simp add: calls_at_def)
qed

lemma calls_at_enter:
  assumes "k < n" and "f k \<noteq> p"
  shows "calls_at n (f(k := p)) p = Suc (calls_at n f p)"
proof -
  have "{j. j < n \<and> (f(k := p)) j = p} = insert k {j. j < n \<and> f j = p}" using assms by auto
  then show ?thesis using assms by (simp add: calls_at_def)
qed

lemma calls_at_other:
  assumes "f k \<noteq> p" and "x \<noteq> p"
  shows "calls_at n (f(k := x)) p = calls_at n f p"
  using assms by (auto simp: calls_at_def intro!: arg_cong [of _ _ card])

lemma calls_at_leave:
  assumes "k < n" and "f k = p" and "x \<noteq> p"
  shows "calls_at n f p = Suc (calls_at n (f(k := x)) p)"
  using calls_at_enter [of k n "f(k := x)" p] assms by (simp add: fun_upd_idem)

lemma calls_at_none: "(\<And>k. f k = x) \<Longrightarrow> x \<noteq> p \<Longrightarrow> calls_at n f p = 0"
  by (simp add: calls_at_def)

text \<open>
  The bookkeeping of the counters: requests are in the kernel, in the ring or waiting to be
  submitted; only \<open>notify_stop\<close> sets the flag \<open>notified\<close>.
\<close>

definition io_ok :: "('q, 'e) wsys \<Rightarrow> bool" where
  "io_ok s \<longleftrightarrow>
     in_kernel s + in_ring s = io_run s \<and> io_run s + io_prep s \<le> io_max s \<and> io_max s \<le> kQueCap \<and>
     begun s \<le> max_notes s \<and> max_notes s < 2 ^ 23 \<and>
     calls_at (n_thr s) (c_at s) In_notify \<le> begun s \<and> (0 < begun s \<longrightarrow> stop_req s) \<and>
     (notified s \<longrightarrow> 0 < begun s) \<and> 0 < n_thr s \<and>
     (w_at s = W_read \<longrightarrow> io_prep s = 0) \<and>
     (\<forall>num i. w_at s = W_cqes num i \<longrightarrow> num \<le> in_ring s)"

text \<open>The value of the eventfd is the sum of what was written since the last read.\<close>

definition ev_ok :: "('e \<Rightarrow> nat) \<Rightarrow> ('q, 'e) wsys \<Rightarrow> bool" where
  "ev_ok ev s \<longleftrightarrow>
     ev (efd s) = g_tasks s * 2 ^ 44 + g_sigs s \<and>
     g_sigs s + in_kernel s + calls_at (n_thr s) (c_at s) In_notify
       \<le> (if w_at s = W_read then 2 else 1) * io_max s + begun s"

text \<open>
  Queued tasks that the worker has not yet counted were announced since its last read, or
  their submitter is about to announce them.
\<close>

fun counted :: "wpoint \<Rightarrow> nat option" where
  "counted (W_work n) = Some n"
| "counted (W_run n) = Some n"
| "counted W_loop = None"
| "counted (W_got u) = None"
| "counted (W_cqes num i) = None"
| "counted W_exit = None"
| "counted _ = Some 0"

definition que_ok :: "('q \<Rightarrow> handle list) \<Rightarrow> ('q, 'e) wsys \<Rightarrow> bool" where
  "que_ok ql s \<longleftrightarrow>
     (\<forall>n. counted (w_at s) = Some n \<longrightarrow> n \<le> length (ql (tq s)) \<and>
        length (ql (tq s)) \<le> n + g_tasks s + calls_at (n_thr s) (c_at s) In_write) \<and>
     length (ql (tq s)) \<le> kQueCap \<and>
     g_tasks s + calls_at (n_thr s) (c_at s) In_write \<le> n_thr s + g_pops s + length (ql (tq s))"

text \<open>Completions the worker does not know of were signalled since its last read.\<close>

fun known :: "wpoint \<Rightarrow> nat \<Rightarrow> bool" where
  "known (W_got u) r \<longleftrightarrow> wake_by_cqe u \<or> r = 0"
| "known (W_cqes num i) r \<longleftrightarrow> r \<le> num"
| "known _ r \<longleftrightarrow> r = 0"

definition ring_ok :: "('q, 'e) wsys \<Rightarrow> bool" where
  "ring_ok s \<longleftrightarrow> 0 < g_sigs s \<or> known (w_at s) (in_ring s)"

text \<open>Behind the first stop test: a notification that preceded it found the context busy.\<close>

definition late :: "wpoint \<Rightarrow> bool" where
  "late p \<longleftrightarrow> p \<in> {W_go_on, W_not_stopped, W_idle, W_poll, W_read}"

definition stop_ok :: "('q, 'e) wsys \<Rightarrow> bool" where
  "stop_ok s \<longleftrightarrow>
     (late (w_at s) \<longrightarrow> notified s \<longrightarrow> g_sigs s = 0 \<longrightarrow> \<not> resting s) \<and>
     (w_at s = W_stop_seen \<longrightarrow> stop_req s)"

text \<open>Until a stop is asked for the worker takes at most one full queue of tasks between two reads.\<close>

fun taken_by :: "wpoint \<Rightarrow> nat \<Rightarrow> nat" where
  "taken_by (W_work n) p = p + n"
| "taken_by (W_run n) p = p + n"
| "taken_by W_loop p = (if p = 0 then 0 else Suc kQueCap)"
| "taken_by (W_got u) p = (if p = 0 then 0 else Suc kQueCap)"
| "taken_by (W_cqes num i) p = (if p = 0 then 0 else Suc kQueCap)"
| "taken_by W_stop_seen p = Suc kQueCap"
| "taken_by W_exit p = Suc kQueCap"
| "taken_by _ p = p"

definition pops_ok :: "('q, 'e) wsys \<Rightarrow> bool" where
  "pops_ok s \<longleftrightarrow> stop_req s \<or> taken_by (w_at s) (g_pops s) \<le> kQueCap"

definition wake_inv ::
    "('q \<Rightarrow> handle list) \<Rightarrow> ('e \<Rightarrow> nat) \<Rightarrow> ('q, 'e) wsys \<Rightarrow> bool" where
  "wake_inv ql ev s \<longleftrightarrow>
     io_ok s \<and> ev_ok ev s \<and> que_ok ql s \<and> ring_ok s \<and> stop_ok s \<and> pops_ok s"

lemmas wake_invs =
  wake_inv_def io_ok_def ev_ok_def que_ok_def ring_ok_def stop_ok_def pops_ok_def late_def resting_def

text \<open>What the counter says: the fields of the value that is read mean what their masks promise.\<close>

lemma counter_fields:
  assumes "t * 2 ^ 44 + c < 2 ^ 64" and "c < 2 ^ 24"
  shows "wake_by_cqe (word_of_nat (t * 2 ^ 44 + c)) \<longleftrightarrow> 0 < c"
    and "wake_by_task (word_of_nat (t * 2 ^ 44 + c)) \<longleftrightarrow> 0 < t"
proof -
  have t: "t < 2 ^ 20" using assms(1) by simp
  have "word_of_nat (t * 2 ^ 44 + c) = word_of_nat t * task_flag + word_of_nat 0 * io_flag + word_of_nat c"
    by (simp add: task_flag_def push_bit_eq_mult)
  from eventfd_fields [OF t _ assms(2) this]
  show "wake_by_cqe (word_of_nat (t * 2 ^ 44 + c)) \<longleftrightarrow> 0 < c"
    and "wake_by_task (word_of_nat (t * 2 ^ 44 + c)) \<longleftrightarrow> 0 < t" by simp_all
qed

lemma task_flag_unat: "unat task_flag = 2 ^ 44"
  by (simp add: task_flag_def)

lemma signals_bound:
  assumes "io_ok s" and "ev_ok ev s"
  shows "g_sigs s + in_kernel s < 2 ^ 24"
  using assms by (auto simp: io_ok_def ev_ok_def kQueCap_def split: if_splits)

lemma tasks_bound:
  assumes "efd_laws E ev" and "ev_ok ev s"
  shows "g_tasks s < 2 ^ 20"
  using efd_lawsD(1) [OF assms(1), of "efd s"] assms(2) by (auto simp: ev_ok_def)

text \<open>So the counter never lacks the room for a completion.\<close>

lemma signal_fits:
  assumes "efd_laws E ev" and "io_ok s" "ev_ok ev s" and "k \<le> in_kernel s"
  shows "\<exists>e. efd_write E (word_of_nat k) (efd s) = Some e \<and> ev e = ev (efd s) + k"
proof -
  have k: "g_sigs s + k < 2 ^ 24" using signals_bound [OF assms(2,3)] assms(4) by simp
  then have u: "unat (word_of_nat k :: u64) = k" by (simp add: unat_of_nat)
  have "g_tasks s \<le> 2 ^ 20 - 1" using tasks_bound [OF assms(1,3)] by simp
  then have "g_tasks s * 2 ^ 44 \<le> (2 ^ 20 - 1) * 2 ^ 44" by simp
  with k assms(3) have "ev (efd s) + k < 2 ^ 64 - 1" by (simp add: ev_ok_def)
  then show ?thesis
    using efd_lawsD(4) [OF assms(1), of "word_of_nat k" "efd s"]
      efd_lawsD(5) [OF assms(1), of "word_of_nat k" "efd s"] u by auto
qed

section \<open>Every step keeps the invariant\<close>

lemma begin_submit_inv:
  assumes I: "wake_inv ql ev s" and k: "c_at s k = In_none"
  shows "wake_inv ql ev (begin_submit k h s)"
proof -
  let ?s = "cl k (In_push h) s"
  have "calls_at (n_thr s) ((c_at s)(k := In_push h)) p = calls_at (n_thr s) (c_at s) p"
    if "p = In_write \<or> p = In_notify" for p
    using that k by (intro calls_at_other) auto
  then have "io_ok ?s = io_ok s" "ev_ok ev ?s = ev_ok ev s" "que_ok ql ?s = que_ok ql s"
    by (simp_all add: io_ok_def ev_ok_def que_ok_def)
  moreover have "ring_ok ?s = ring_ok s" "stop_ok ?s = stop_ok s" "pops_ok ?s = pops_ok s"
    by (simp_all add: ring_ok_def stop_ok_def pops_ok_def resting_def)
  ultimately show ?thesis using I by (simp add: begin_submit_def wake_inv_def)
qed

lemma begin_notify_inv:
  assumes "wake_inv ql ev s" and "k < n_thr s" and "c_at s k = In_none"
  shows "wake_inv ql ev (begin_notify k s)"
proof -
  have "calls_at (n_thr s) ((c_at s)(k := In_notify)) In_notify = Suc (calls_at (n_thr s) (c_at s) In_notify)"
    "calls_at (n_thr s) ((c_at s)(k := In_notify)) In_write = calls_at (n_thr s) (c_at s) In_write"
    using assms(2,3) by (simp_all add: calls_at_enter calls_at_other)
  with assms(1) show ?thesis by (auto simp: begin_notify_def wake_invs)
qed

lemma push_inv:
  assumes Q: "queue_laws Q ql" and I: "wake_inv ql ev s" and k: "k < n_thr s" "c_at s k = In_push h"
    and q: "q_push Q h (tq s) = Some q"
  shows "wake_inv ql ev (cl k In_write (s\<lparr>tq := q\<rparr>))"
proof -
  let ?s = "cl k In_write (s\<lparr>tq := q\<rparr>)"
  have w: "calls_at (n_thr s) ((c_at s)(k := In_write)) In_write = Suc (calls_at (n_thr s) (c_at s) In_write)"
    and n: "calls_at (n_thr s) ((c_at s)(k := In_write)) In_notify = calls_at (n_thr s) (c_at s) In_notify"
    using k by (simp_all add: calls_at_enter calls_at_other)
  have l: "length (ql q) = Suc (length (ql (tq s)))" using queue_lawsD(3) [OF Q q] by simp
  have c: "length (ql (tq s)) < kQueCap"
    using queue_lawsD(2) [OF Q, of h "tq s"] q by simp
  have "io_ok ?s = io_ok s" "ev_ok ev ?s = ev_ok ev s" by (simp_all add: io_ok_def ev_ok_def n)
  moreover have "ring_ok ?s = ring_ok s" "stop_ok ?s = stop_ok s" "pops_ok ?s = pops_ok s"
    by (simp_all add: ring_ok_def stop_ok_def pops_ok_def resting_def)
  moreover have "que_ok ql s" using I by (simp add: wake_inv_def)
  then have "que_ok ql ?s" using w l c by (auto simp: que_ok_def)
  ultimately show ?thesis using I by (simp add: wake_inv_def)
qed

lemma announce_inv:
  assumes E: "efd_laws E ev" and I: "wake_inv ql ev s" and k: "k < n_thr s" "c_at s k = In_write"
    and e: "efd_write E task_flag (efd s) = Some e"
  shows "wake_inv ql ev (cl k In_none (s\<lparr>efd := e, g_tasks := Suc (g_tasks s)\<rparr>))"
proof -
  have "calls_at (n_thr s) (c_at s) In_write = Suc (calls_at (n_thr s) ((c_at s)(k := In_none)) In_write)"
    "calls_at (n_thr s) ((c_at s)(k := In_none)) In_notify = calls_at (n_thr s) (c_at s) In_notify"
    using k by (simp_all add: calls_at_leave calls_at_other)
  moreover have "ev e = ev (efd s) + 2 ^ 44" using efd_lawsD(5) [OF E e] by (simp add: task_flag_unat)
  ultimately show ?thesis using I by (auto simp: wake_invs)
qed

lemma notify_inv:
  assumes E: "efd_laws E ev" and I: "wake_inv ql ev s" and k: "k < n_thr s" "c_at s k = In_notify"
    and e: "efd_write E 1 (efd s) = Some e"
  shows "wake_inv ql ev (cl k In_none (s\<lparr>efd := e, g_sigs := Suc (g_sigs s), notified := True\<rparr>))"
proof -
  have "calls_at (n_thr s) (c_at s) In_notify = Suc (calls_at (n_thr s) ((c_at s)(k := In_none)) In_notify)"
    "calls_at (n_thr s) ((c_at s)(k := In_none)) In_write = calls_at (n_thr s) (c_at s) In_write"
    using k by (simp_all add: calls_at_leave calls_at_other)
  moreover have "ev e = ev (efd s) + 1" using efd_lawsD(5) [OF E e] by simp
  ultimately show ?thesis using I by (auto simp: wake_invs)
qed

lemma call_step_inv:
  assumes "queue_laws Q ql" and "efd_laws E ev" and "wake_inv ql ev s" and "k < n_thr s"
  shows "wake_inv ql ev (call_step Q E k s)"
  using assms push_inv [OF assms(1,3,4)] announce_inv [OF assms(2,3,4)] notify_inv [OF assms(2,3,4)]
  by (auto simp: call_step_def split: caller.splits option.splits)

lemma complete_inv:
  assumes E: "efd_laws E ev" and I: "wake_inv ql ev s"
  shows "wake_inv ql ev (wake_step Q E (Complete n k) s)"
proof (cases "0 < k \<and> k \<le> n \<and> n \<le> in_kernel s")
  case True
  have "io_ok s" "ev_ok ev s" using I by (simp_all add: wake_inv_def)
  from signal_fits [OF E this, of k] True obtain e
    where e: "efd_write E (word_of_nat k) (efd s) = Some e" "ev e = ev (efd s) + k" by auto
  define s' where "s' = s\<lparr>in_kernel := in_kernel s - n, in_ring := in_ring s + n,
    efd := e, g_sigs := g_sigs s + k\<rparr>"
  have "wake_step Q E (Complete n k) s = s'" using e True by (simp add: s'_def)
  moreover have "io_ok s'" using I True by (auto simp: wake_inv_def io_ok_def s'_def)
  moreover have "ev_ok ev s'" using I True e(2) by (auto simp: wake_inv_def ev_ok_def s'_def)
  moreover have "que_ok ql s'" "pops_ok s'" using I by (simp_all add: wake_inv_def que_ok_def pops_ok_def s'_def)
  moreover have "ring_ok s'" "stop_ok s'" using I True by (simp_all add: wake_inv_def ring_ok_def stop_ok_def s'_def)
  ultimately show ?thesis by (simp add: wake_inv_def)
qed (use I in auto)

lemma work_inv:
  assumes Q: "queue_laws Q ql" and I: "wake_inv ql ev s" and w: "w_at s = W_work n" "n \<noteq> 0"
    and p: "q_pop Q (tq s) = Some (h, q)"
  shows "wake_inv ql ev (wk (W_run (n - 1)) (s\<lparr>tq := q, g_pops := Suc (g_pops s)\<rparr>))"
  using I w queue_lawsD(5) [OF Q p] by (auto simp: wake_invs)

lemma run_part_inv:
  assumes Q: "queue_laws Q ql" and I: "wake_inv ql ev s" and c: "c_at s 0 = In_none"
  shows "wake_inv ql ev (run_part Q act s)"
proof (cases "w_at s")
  case (W_work n)
  then show ?thesis
    using I work_inv [OF Q I W_work] by (auto simp: run_part_def wake_invs split: option.splits)
next
  case W_loop
  then show ?thesis using I queue_lawsD(6) [OF Q, of "tq s"] by (auto simp: run_part_def wake_invs)
next
  case (W_run n)
  show ?thesis
  proof (cases act)
    case (Submit h)
    then show ?thesis using W_run begin_submit_inv [OF I c] by (simp add: run_part_def)
  qed (use I W_run in \<open>auto simp: run_part_def wake_invs\<close>)
next
  case W_idle
  have n0: "0 < n_thr s" using I by (simp add: wake_invs)
  have idle: "wake_inv ql ev (wk W_poll s')" if "wake_inv ql ev s'" "w_at s' = W_idle" for s' :: "('a, 'b) wsys"
    using that by (auto simp: wake_invs)
  have "w_at (begin_notify 0 s) = W_idle" using W_idle by (simp add: begin_notify_def)
  with idle [OF begin_notify_inv [OF I n0 c]] idle [OF I W_idle] show ?thesis
    using I W_idle by (auto simp: run_part_def wake_invs split: stop_cb.splits)
qed (use I queue_lawsD(7) [OF Q, of "tq s"] in \<open>auto simp: run_part_def wake_invs\<close>)

text \<open>The read of the eventfd: the worker learns of completions if there were any.\<close>

lemma read_inv:
  assumes E: "efd_laws E ev" and I: "wake_inv ql ev s" and w: "w_at s = W_read"
    and e: "efd_read E (efd s) = Some (u, e)"
  shows "wake_inv ql ev (wk (W_got u) (s\<lparr>efd := e, g_tasks := 0, g_sigs := 0, g_pops := 0\<rparr>))"
proof -
  have ok: "io_ok s" "ev_ok ev s" using I by (simp_all add: wake_inv_def)
  have u: "u = word_of_nat (g_tasks s * 2 ^ 44 + g_sigs s)" "ev e = 0"
    using efd_lawsD(3) [OF E e] ok(2) by (simp_all add: ev_ok_def)
  have "g_sigs s < 2 ^ 24" using signals_bound [OF ok] by simp
  moreover have "g_tasks s * 2 ^ 44 + g_sigs s < 2 ^ 64"
    using efd_lawsD(1) [OF E, of "efd s"] ok(2) by (simp add: ev_ok_def)
  ultimately have c: "wake_by_cqe u \<longleftrightarrow> 0 < g_sigs s" unfolding u(1) by (rule counter_fields(1) [rotated])
  have b: "calls_at (n_thr s) (c_at s) In_write \<le> n_thr s" by (rule calls_at_bound)
  show ?thesis using I w u(2) c b by (auto simp: wake_invs)
qed

lemma poll_part_inv:
  assumes E: "efd_laws E ev" and I: "wake_inv ql ev s" and c: "c_at s 0 = In_none"
  shows "wake_inv ql ev (poll_part E act s)"
proof (cases "w_at s")
  case W_poll
  then show ?thesis using I by (auto simp: poll_part_def wake_invs)
next
  case W_read
  then show ?thesis
    using I read_inv [OF E I W_read] by (auto simp: poll_part_def split: option.splits)
next
  case (W_got u)
  then show ?thesis using I by (auto simp: poll_part_def wake_invs Let_def)
next
  case (W_cqes num i)
  have nxt: "wake_inv ql ev (wk (W_cqes num (Suc i)) s')"
    if "wake_inv ql ev s'" "w_at s' = W_cqes num i" for s' :: "('b, 'a) wsys"
    using that by (auto simp: wake_invs)
  have "w_at (begin_submit 0 h s) = W_cqes num i" for h using W_cqes by (simp add: begin_submit_def)
  with nxt [OF begin_submit_inv [OF I c]] nxt [OF I W_cqes] show ?thesis
    using I W_cqes by (auto simp: poll_part_def wake_invs split: choice.splits)
qed (use I in \<open>auto simp: poll_part_def\<close>)

lemma wake_step_inv:
  assumes Q: "queue_laws Q ql" and E: "efd_laws E ev" and I: "wake_inv ql ev s"
  shows "wake_inv ql ev (wake_step Q E x s)"
proof (cases x)
  case (Worker act)
  have "0 < n_thr s" using I by (simp add: wake_invs)
  then show ?thesis
    using Worker call_step_inv [OF Q E I] poll_part_inv [OF E I] run_part_inv [OF Q I]
    by (simp add: loop_step_def)
next
  case (Complete n k)
  then show ?thesis using complete_inv [OF E I] by simp
qed (use I call_step_inv [OF Q E I] begin_submit_inv [OF I] begin_notify_inv [OF I] in auto)

lemma wake_run_inv:
  assumes "queue_laws Q ql" and "efd_laws E ev"
  shows "wake_inv ql ev s \<Longrightarrow> wake_inv ql ev (wake_run Q E xs s)"
  by (induction xs arbitrary: s) (simp_all add: wake_step_inv [OF assms])

lemma wake_start_inv: "wake_start ql ev s \<Longrightarrow> wake_inv ql ev s"
  by (simp add: wake_start_def wake_invs calls_at_none [of "c_at s" In_none])

section \<open>No wake-up is lost\<close>

lemma wake_reach_inv:
  assumes "queue_laws Q ql" and "efd_laws E ev" and "wake_start ql ev s0"
  shows "wake_inv ql ev (wake_run Q E xs s0)"
  by (rule wake_run_inv [OF assms(1,2) wake_start_inv [OF assms(3)]])

text \<open>
  C10. No wake-up is lost, however submissions, stop requests, completions and the steps of the
  worker interleave: a worker that sleeps in the read of the eventfd, with the counter at 0, has no
  queued task except those whose submitters are about to write the eventfd, no completion it was
  not told of - what it counts as running is with the kernel -, and if a \<open>notify_stop\<close> came to
  its end, then coroutines that wait or I/O still keep the context from stopping.
\<close>

theorem no_lost_wakeup:
  assumes "queue_laws Q ql" and "efd_laws E ev" and "wake_start ql ev s0"
    and "s = wake_run Q E xs s0" and "w_at s = W_read" "c_at s 0 = In_none" "ev (efd s) = 0"
  shows "length (ql (tq s)) \<le> card {k. k < n_thr s \<and> c_at s k = In_write} \<and>
         in_ring s = 0 \<and> in_kernel s = io_run s \<and> io_prep s = 0 \<and>
         (notified s \<longrightarrow> waits s \<noteq> 0 \<or> io_run s \<noteq> 0)"
proof -
  have I: "wake_inv ql ev s" unfolding assms(4) by (rule wake_reach_inv [OF assms(1-3)])
  then have z: "g_tasks s = 0" "g_sigs s = 0" using assms(7) by (auto simp: wake_inv_def ev_ok_def)
  have "length (ql (tq s)) \<le> card {k. k < n_thr s \<and> c_at s k = In_write}"
    using I z assms(5) by (simp add: wake_inv_def que_ok_def calls_at_def)
  moreover have "in_ring s = 0" using I z assms(5) by (simp add: wake_inv_def ring_ok_def)
  moreover have "io_prep s = 0" and "in_kernel s + in_ring s = io_run s"
    using I assms(5) by (simp_all add: wake_inv_def io_ok_def)
  moreover have "notified s \<longrightarrow> \<not> resting s"
    using I z assms(5) by (simp add: wake_inv_def stop_ok_def late_def)
  ultimately show ?thesis by (auto simp: resting_def)
qed

definition demo_wsys :: "nat \<Rightarrow> (handle list, counter) wsys" where
  "demo_wsys n = \<lparr>tq = [], efd = counter_of 0, w_at = W_loop, n_thr = n, c_at = (\<lambda>_. In_none),
     stop_req = False, on_idle = Scheduler_callback 0, waits = 0, io_prep = 0, io_run = 0,
     in_kernel = 0, in_ring = 0, io_max = 8, max_notes = 4, g_tasks = 0, g_sigs = 0, g_pops = 0,
     begun = 0, notified = False\<rparr>"

lemma demo_wsys_start: "0 < n \<Longrightarrow> wake_start (\<lambda>q. q) counter_val (demo_wsys n)"
  by (simp add: wake_start_def demo_wsys_def counter_val_of kQueCap_def)

text \<open>
  A run in which the only task prepares I/O and waits for it: the worker ends asleep, while
  another thread has pushed a task and not yet written.
\<close>

definition demo_sleep :: "event list" where
  "demo_sleep =
     [Begin_submit 1 7, Caller 1, Caller 1, Worker Back, Worker Back, Worker Prepare, Worker Back,
      Worker Back, Worker Back, Worker Back, Worker Back, Worker Back, Worker Back, Worker Back,
      Worker Back, Worker Back, Begin_submit 1 7, Caller 1]"

lemmas wake_evals =
  loop_step_def call_step_def run_part_def poll_part_def begin_submit_def begin_notify_def
  polling_def demo_wsys_def list_queue_def counter_efd_def counter_val_of task_flag_unat kQueCap_def
  resting_def wake_by_cqe_def cqe_mask_def Let_def

theorem no_lost_wakeup_witness:
  "\<exists>s :: (handle list, counter) wsys. w_at s = W_read \<and> tq s = [7] \<and> io_run s = 1 \<and>
     length (tq s) \<le> card {k. k < n_thr s \<and> c_at s k = In_write} \<and> in_kernel s = 1 \<and> in_ring s = 0"
proof -
  define s where "s = wake_run list_queue counter_efd demo_sleep (demo_wsys 2)"
  have e: "w_at s = W_read" "c_at s 0 = In_none" "counter_val (efd s) = 0" "tq s = [7]" "io_run s = 1"
    by (simp_all add: s_def demo_sleep_def wake_evals)
  have "wake_start (\<lambda>q. q) counter_val (demo_wsys 2)" by (rule demo_wsys_start) simp
  from no_lost_wakeup [OF list_queue_laws counter_efd_laws this s_def e(1-3)] e
  show ?thesis by (intro exI [of _ s]) simp
qed

lemma call_step_n_thr [simp]: "n_thr (call_step Q E k s) = n_thr s"
  by (simp add: call_step_def split: caller.splits option.splits)

lemma wake_step_n_thr: "n_thr (wake_step Q E x s) = n_thr s"
  by (cases x) (auto simp: loop_step_def run_part_def poll_part_def begin_submit_def begin_notify_def
      Let_def split: wpoint.splits option.splits choice.splits stop_cb.splits)

lemma wake_run_n_thr: "n_thr (wake_run Q E xs s) = n_thr s"
  by (induction xs arbitrary: s) (simp_all add: wake_step_n_thr)

text \<open>
  C21. Until the context is asked to stop the eventfd counter never fills up: with \<open>n\<close> threads
  that use the context at most \<open>n + 2 * kQueCap\<close> task flags and fewer than \<open>2 ^ 24\<close> other events
  are in it, so the fields do not run into each other, the masks read them correctly, and no write
  of a task flag blocks.
\<close>

theorem eventfd_never_full:
  assumes "queue_laws Q ql" and "efd_laws E ev" and "wake_start ql ev s0"
    and "s = wake_run Q E xs s0" and "\<not> stop_req s" and "n_thr s0 + 2 * kQueCap < 2 ^ 20 - 1"
  shows "ev (efd s) = g_tasks s * 2 ^ 44 + g_sigs s \<and>
         g_tasks s \<le> n_thr s0 + 2 * kQueCap \<and> g_sigs s < 2 ^ 24 \<and>
         (wake_by_task (word_of_nat (ev (efd s))) \<longleftrightarrow> 0 < g_tasks s) \<and>
         (wake_by_cqe (word_of_nat (ev (efd s))) \<longleftrightarrow> 0 < g_sigs s) \<and>
         efd_write E task_flag (efd s) \<noteq> None"
proof -
  have I: "wake_inv ql ev s" unfolding assms(4) by (rule wake_reach_inv [OF assms(1-3)])
  then have ok: "io_ok s" "ev_ok ev s" "que_ok ql s" "pops_ok s" by (simp_all add: wake_inv_def)
  have v: "ev (efd s) = g_tasks s * 2 ^ 44 + g_sigs s" using ok(2) by (simp add: ev_ok_def)
  have "g_pops s \<le> kQueCap" using ok(4) assms(5) by (cases "w_at s") (auto simp: pops_ok_def split: if_splits)
  then have t: "g_tasks s \<le> n_thr s0 + 2 * kQueCap"
    using ok(3) wake_run_n_thr [of Q E xs s0] assms(4) by (simp add: que_ok_def)
  have c: "g_sigs s < 2 ^ 24" using signals_bound [OF ok(1,2)] by simp
  have w: "ev (efd s) < 2 ^ 64" using efd_lawsD(1) [OF assms(2), of "efd s"] by simp
  have "g_tasks s \<le> 2 ^ 20 - 2" using t assms(6) by simp
  then have "g_tasks s * 2 ^ 44 \<le> (2 ^ 20 - 2) * 2 ^ 44" by simp
  with c v have "ev (efd s) + unat task_flag < 2 ^ 64 - 1" by (simp add: task_flag_unat)
  then have f: "efd_write E task_flag (efd s) \<noteq> None"
    using efd_lawsD(4) [OF assms(2), of task_flag "efd s"] by simp
  show ?thesis using v t c f counter_fields [OF _ c, of "g_tasks s"] w by simp
qed

theorem eventfd_never_full_witness:
  "\<exists>s :: (handle list, counter) wsys. \<not> stop_req s \<and> g_tasks s = 3 \<and> wake_by_task (word_of_nat (counter_val (efd s))) \<and>
     \<not> wake_by_cqe (word_of_nat (counter_val (efd s)))"
proof -
  define xs where "xs = [Begin_submit 1 7, Caller 1, Caller 1, Begin_submit 2 8, Caller 2, Caller 2,
    Begin_submit 1 9, Caller 1, Caller 1]"
  define s where "s = wake_run list_queue counter_efd xs (demo_wsys 3)"
  have e: "\<not> stop_req s" "g_tasks s = 3" "g_sigs s = 0"
    by (simp_all add: s_def xs_def wake_evals)
  have "wake_start (\<lambda>q. q) counter_val (demo_wsys 3)" by (rule demo_wsys_start) simp
  moreover have "n_thr (demo_wsys 3) + 2 * kQueCap < 2 ^ 20 - 1" by (simp add: demo_wsys_def kQueCap_def)
  ultimately have "(wake_by_task (word_of_nat (counter_val (efd s))) \<longleftrightarrow> 0 < g_tasks s) \<and>
      (wake_by_cqe (word_of_nat (counter_val (efd s))) \<longleftrightarrow> 0 < g_sigs s)"
    using eventfd_never_full [OF list_queue_laws counter_efd_laws _ s_def e(1)] by blast
  with e have "wake_by_task (word_of_nat (counter_val (efd s)))" "\<not> wake_by_cqe (word_of_nat (counter_val (efd s)))"
    by (simp_all only: zero_less_numeral less_irrefl simp_thms)
  with e(1,2) show ?thesis by blast
qed

section \<open>A stop is answered\<close>

text \<open>How far a worker that shall stop is from the end of its loop, with \<open>l\<close> tasks queued.\<close>

fun stop_rank :: "wpoint \<Rightarrow> nat \<Rightarrow> nat" where
  "stop_rank W_exit l = 0"
| "stop_rank (W_work n) l = 3 * l + (if n < l then 6 else 3)"
| "stop_rank (W_run n) l = 3 * l + (if n < l then 7 else 4)"
| "stop_rank W_stop_seen l = 3 * l + (if l = 0 then 2 else 5)"
| "stop_rank W_loop l = 3 * l + 4"
| "stop_rank (W_got u) l = 3 * l + 5"
| "stop_rank (W_cqes num i) l = 3 * l + 5"
| "stop_rank W_read l = 3 * l + 6"
| "stop_rank W_poll l = 3 * l + 7"
| "stop_rank W_idle l = 3 * l + 8"
| "stop_rank W_not_stopped l = 3 * l + 9"
| "stop_rank W_go_on l = 3 * l + 10"

lemma stop_rank_bound: "stop_rank p l \<le> 3 * l + 10"
  by (cases p) auto

definition stopping :: "('q \<Rightarrow> handle list) \<Rightarrow> ('e \<Rightarrow> nat) \<Rightarrow> ('q, 'e) wsys \<Rightarrow> bool" where
  "stopping ql ev s \<longleftrightarrow> wake_inv ql ev s \<and> notified s \<and> resting s \<and> c_at s 0 = In_none"

lemma stopping_step:
  assumes Q: "queue_laws Q ql" and E: "efd_laws E ev" and S: "stopping ql ev s" and x: "w_at s \<noteq> W_exit"
  defines "s' \<equiv> wake_step Q E (Worker Back) s"
  shows "stopping ql ev s'"
    and "stop_rank (w_at s') (length (ql (tq s'))) < stop_rank (w_at s) (length (ql (tq s)))"
    and "w_at s' = W_exit \<Longrightarrow> ql (tq s') = []"
proof -
  have I: "wake_inv ql ev s" and c: "c_at s 0 = In_none" and r: "resting s" and n: "notified s"
    using S by (simp_all add: stopping_def)
  then have req: "stop_req s" and ring: "in_ring s = 0"
    by (simp_all add: wake_inv_def io_ok_def resting_def)
  have pop: "\<exists>h q. q_pop Q (tq s) = Some (h, q) \<and> length (ql (tq s)) = Suc (length (ql q))"
    if "w_at s = W_work (Suc m)" for m
  proof -
    have "ql (tq s) \<noteq> []" using I that by (auto simp: wake_inv_def que_ok_def)
    then obtain h q where "q_pop Q (tq s) = Some (h, q)"
      using queue_lawsD(4) [OF Q, of "tq s"] by (cases "q_pop Q (tq s)") auto
    with queue_lawsD(5) [OF Q this] show ?thesis by simp
  qed
  have rd: "\<exists>u e. efd_read E (efd s) = Some (u, e)" if "w_at s = W_read"
  proof -
    have "0 < g_sigs s" using I n r that by (auto simp: wake_inv_def stop_ok_def late_def)
    then have "ev (efd s) \<noteq> 0" using I by (simp add: wake_inv_def ev_ok_def)
    then show ?thesis using efd_lawsD(2) [OF E, of "efd s"] by (cases "efd_read E (efd s)") auto
  qed
  have le: "k \<le> length (ql (tq s))" if "w_at s = W_work k \<or> w_at s = W_run k" for k
    using I that by (auto simp: wake_inv_def que_ok_def)
  have cq: "num = 0" if "w_at s = W_cqes num i" for num i
    using I that ring by (auto simp: wake_inv_def io_ok_def)
  have "wake_inv ql ev s'" unfolding s'_def by (rule wake_step_inv [OF Q E I])
  moreover have "notified s' \<and> resting s' \<and> c_at s' 0 = In_none"
    using n r c by (auto simp: s'_def loop_step_def run_part_def poll_part_def resting_def Let_def
        split: wpoint.splits option.splits stop_cb.splits)
  ultimately show "stopping ql ev s'" by (simp add: stopping_def)
  show "stop_rank (w_at s') (length (ql (tq s'))) < stop_rank (w_at s) (length (ql (tq s)))"
  proof (cases "w_at s")
    case (W_work k)
    then show ?thesis using c r req pop [of "k - 1"] le [of k]
      by (cases k) (auto simp: s'_def loop_step_def polling_def run_part_def)
  next
    case W_read
    then show ?thesis using c rd by (auto simp: s'_def loop_step_def polling_def poll_part_def)
  next
    case (W_cqes num i)
    then show ?thesis using c cq by (auto simp: s'_def loop_step_def polling_def poll_part_def)
  qed (use x c r req ring le queue_lawsD(6,7) [OF Q, of "tq s"] in
      \<open>auto simp: s'_def loop_step_def polling_def run_part_def poll_part_def Let_def
        split: stop_cb.splits\<close>)
  show "ql (tq s') = []" if "w_at s' = W_exit"
    using that x c queue_lawsD(7) [OF Q, of "tq s"]
    by (auto simp: s'_def loop_step_def polling_def run_part_def poll_part_def Let_def
        split: wpoint.splits option.splits stop_cb.splits if_splits)
qed

lemma stopping_exits:
  assumes Q: "queue_laws Q ql" and E: "efd_laws E ev"
  shows "stopping ql ev s \<Longrightarrow> w_at s \<noteq> W_exit \<Longrightarrow>
    \<exists>n \<le> stop_rank (w_at s) (length (ql (tq s))).
      w_at (wake_run Q E (replicate n (Worker Back)) s) = W_exit \<and>
      ql (tq (wake_run Q E (replicate n (Worker Back)) s)) = []"
proof (induction "stop_rank (w_at s) (length (ql (tq s)))" arbitrary: s rule: less_induct)
  case less
  let ?s = "wake_step Q E (Worker Back) s"
  note st = stopping_step [OF Q E less.prems]
  show ?case
  proof (cases "w_at ?s = W_exit")
    case True
    with st(2,3) show ?thesis by (intro exI [of _ "Suc 0"]) auto
  next
    case False
    with less.hyps [OF st(2) st(1)] obtain n
      where n: "n \<le> stop_rank (w_at ?s) (length (ql (tq ?s)))"
        and e: "w_at (wake_run Q E (replicate n (Worker Back)) ?s) = W_exit \<and>
          ql (tq (wake_run Q E (replicate n (Worker Back)) ?s)) = []" by blast
    have "Suc n \<le> stop_rank (w_at s) (length (ql (tq s)))" using n st(2) by linarith
    with e show ?thesis by (intro exI [of _ "Suc n"]) (simp add: replicate_Suc)
  qed
qed

text \<open>
  C11. A stop is answered: once \<open>notify_stop\<close> has come to its end on a context without waiting
  coroutines and I/O, the worker leaves its loop after at most \<open>3 * l + 10\<close> of its own steps,
  wherever it was - also asleep in the read of the eventfd - with all \<open>l\<close> queued tasks taken, if
  these tasks submit no others.
\<close>

theorem stop_is_answered:
  assumes "queue_laws Q ql" and "efd_laws E ev" and "wake_start ql ev s0"
    and "s = wake_run Q E xs s0" and "notified s" "resting s" "c_at s 0 = In_none" "w_at s \<noteq> W_exit"
  shows "\<exists>n \<le> 3 * length (ql (tq s)) + 10.
    w_at (wake_run Q E (replicate n (Worker Back)) s) = W_exit \<and>
    ql (tq (wake_run Q E (replicate n (Worker Back)) s)) = []"
proof -
  have "stopping ql ev s"
    using wake_reach_inv [OF assms(1-3), of xs] assms(4-7) by (simp add: stopping_def)
  from stopping_exits [OF assms(1,2) this assms(8)] stop_rank_bound show ?thesis
    by (meson le_trans)
qed

theorem stop_is_answered_witness:
  "\<exists>(s :: (handle list, counter) wsys) n. w_at s = W_read \<and> tq s = [7] \<and> n \<le> 13 \<and>
     w_at (wake_run list_queue counter_efd (replicate n (Worker Back)) s) = W_exit"
proof -
  define xs where "xs = [Worker Back, Worker Back, Worker Back, Worker Back, Worker Back, Worker Back,
    Begin_submit 1 7, Caller 1, Caller 1, Begin_notify 1, Caller 1]"
  define s where "s = wake_run list_queue counter_efd xs (demo_wsys 2)"
  have e: "notified s" "resting s" "c_at s 0 = In_none" "w_at s = W_read" "tq s = [7]"
    by (simp_all add: s_def xs_def wake_evals)
  have "wake_start (\<lambda>q. q) counter_val (demo_wsys 2)" by (rule demo_wsys_start) simp
  from stop_is_answered [OF list_queue_laws counter_efd_laws this s_def e(1-3)] e
  show ?thesis by auto
qed

section \<open>When the worker blocks itself\<close>

lemma wake_run_append: "wake_run Q E (xs @ ys) s = wake_run Q E ys (wake_run Q E xs s)"
  by (induction xs arbitrary: s) simp_all

text \<open>A worker whose own write does not fit, or whose own push finds no place, is stuck.\<close>

definition stuck :: "('q \<Rightarrow> handle list) \<Rightarrow> ('e \<Rightarrow> nat) \<Rightarrow> ('q, 'e) wsys \<Rightarrow> bool" where
  "stuck ql ev s \<longleftrightarrow>
     c_at s 0 = In_write \<and> 2 ^ 64 - 1 \<le> ev (efd s) + 2 ^ 44 \<or>
     (\<exists>h. c_at s 0 = In_push h) \<and> kQueCap \<le> length (ql (tq s))"

lemma stuck_step:
  assumes Q: "queue_laws Q ql" and E: "efd_laws E ev" and S: "stuck ql ev s"
  shows "stuck ql ev (wake_step Q E x s) \<and> w_at (wake_step Q E x s) = w_at s \<and>
    c_at (wake_step Q E x s) 0 = c_at s 0"
proof -
  let ?P = "\<lambda>s'. stuck ql ev s' \<and> w_at s' = w_at s \<and> c_at s' 0 = c_at s 0"
  have c: "?P (call_step Q E k s)" if "0 < k" for k
    using S that efd_lawsD(5) [OF E, of _ "efd s"] queue_lawsD(3) [OF Q, of _ "tq s"]
    by (fastforce simp: stuck_def call_step_def split: caller.splits option.splits)
  have w: "call_step Q E 0 s = s"
    using S efd_lawsD(4) [OF E, of task_flag "efd s"] queue_lawsD(2) [OF Q, of _ "tq s"]
    by (auto simp: stuck_def call_step_def task_flag_unat)
  have m: "?P (begin_submit k h s)" "?P (begin_notify k s)" if "0 < k" for k h
    using S that by (auto simp: stuck_def begin_submit_def begin_notify_def)
  show ?thesis
  proof (cases x)
    case (Worker act)
    have "c_at s 0 \<noteq> In_none" using S by (auto simp: stuck_def)
    then show ?thesis using Worker w S by (simp add: loop_step_def)
  next
    case (Complete n k)
    show ?thesis
      using S efd_lawsD(5) [OF E, of _ "efd s"]
      by (fastforce simp: Complete stuck_def split: option.splits)
  qed (use c m S in auto)
qed

lemma stuck_run:
  assumes "queue_laws Q ql" and "efd_laws E ev"
  shows "stuck ql ev s \<Longrightarrow> stuck ql ev (wake_run Q E ys s) \<and> w_at (wake_run Q E ys s) = w_at s \<and>
    c_at (wake_run Q E ys s) 0 = c_at s 0"
proof (induction ys arbitrary: s)
  case (Cons y ys)
  from Cons.IH [of "wake_step Q E y s"] stuck_step [OF assms Cons.prems, of y] show ?case by simp
qed simp

subsection \<open>A full counter\<close>

text \<open>
  A task is submitted, the context is stopped, and the task submits itself again each time it
  runs: as long as a task is queued the loop goes back to \<open>process_work\<close> without polling.
\<close>

definition spin_cycle :: "event list" where
  "spin_cycle = [Worker Back, Worker Back, Worker (Submit 7), Worker Back, Worker Back, Worker Back,
     Worker Back, Worker Back]"

definition spin_events :: "nat \<Rightarrow> event list" where
  "spin_events n =
     [Begin_submit 1 7, Caller 1, Caller 1, Begin_notify 1, Caller 1] @
     concat (replicate n spin_cycle) @ take 4 spin_cycle"

definition spinning :: "('q \<Rightarrow> handle list) \<Rightarrow> ('e \<Rightarrow> nat) \<Rightarrow> nat \<Rightarrow> ('q, 'e) wsys \<Rightarrow> bool" where
  "spinning ql ev t s \<longleftrightarrow>
     w_at s = W_loop \<and> c_at s 0 = In_none \<and> stop_req s \<and> resting s \<and> ql (tq s) = [7] \<and>
     ev (efd s) = t * 2 ^ 44 + 1"

lemma queue_one:
  assumes Q: "queue_laws Q ql" and q: "ql q = [h]"
  obtains q1 q2 where "q_pop Q q = Some (h, q1)" "q_push Q h q1 = Some q2" "ql q2 = [h]"
proof -
  obtain h' q1 where p: "q_pop Q q = Some (h', q1)"
    using queue_lawsD(4) [OF Q, of q] q by (cases "q_pop Q q") auto
  with queue_lawsD(5) [OF Q this] q have h: "h' = h" "ql q1 = []" by simp_all
  then obtain q2 where "q_push Q h q1 = Some q2"
    using queue_lawsD(2) [OF Q, of h q1] by (cases "q_push Q h q1") (auto simp: kQueCap_def)
  with p h queue_lawsD(3) [OF Q this] show thesis by (intro that) auto
qed

lemma write_one:
  assumes "efd_laws E ev" and "ev e + unat v < 2 ^ 64 - 1"
  obtains e' where "efd_write E v e = Some e'" "ev e' = ev e + unat v"
proof -
  have "efd_write E v e \<noteq> None" using efd_lawsD(4) [OF assms(1), of v e] assms(2) by simp
  then obtain e' where "efd_write E v e = Some e'" by blast
  from that [OF this efd_lawsD(5) [OF assms(1) this]] show thesis .
qed

lemma spin_half:
  assumes Q: "queue_laws Q ql" and S: "spinning ql ev t s"
  obtains q where "ql q = [7]" and "w_at (wake_run Q E (take 4 spin_cycle) s) = W_run 0"
    and "c_at (wake_run Q E (take 4 spin_cycle) s) = (c_at s)(0 := In_write)"
    and "tq (wake_run Q E (take 4 spin_cycle) s) = q"
    and "efd (wake_run Q E (take 4 spin_cycle) s) = efd s"
    and "stop_req (wake_run Q E (take 4 spin_cycle) s)" "resting (wake_run Q E (take 4 spin_cycle) s)"
proof -
  have q: "ql (tq s) = [7]" using S by (simp add: spinning_def)
  obtain q1 q2 where "q_pop Q (tq s) = Some (7, q1)" "q_push Q 7 q1 = Some q2" "ql q2 = [7]"
    by (rule queue_one [OF Q q])
  moreover have "q_was_size Q (tq s) = 1" using queue_lawsD(6) [OF Q, of "tq s"] q by simp
  ultimately show thesis using S
    by (intro that [of q2]) (simp_all add: spin_cycle_def spinning_def loop_step_def polling_def
        run_part_def begin_submit_def call_step_def resting_def)
qed

lemma spin_again:
  assumes Q: "queue_laws Q ql" and E: "efd_laws E ev" and S: "spinning ql ev t s" and t: "t < 2 ^ 20 - 1"
  shows "spinning ql ev (Suc t) (wake_run Q E spin_cycle s)"
proof -
  let ?h = "wake_run Q E (take 4 spin_cycle) s"
  obtain q where h: "ql q = [7]" "w_at ?h = W_run 0" "c_at ?h = (c_at s)(0 := In_write)" "tq ?h = q"
    "efd ?h = efd s" "stop_req ?h" "resting ?h"
    by (rule spin_half [OF Q S])
  have v: "ev (efd s) = t * 2 ^ 44 + 1" using S by (simp add: spinning_def)
  have "t \<le> 2 ^ 20 - 2" using t by simp
  then have "t * 2 ^ 44 \<le> (2 ^ 20 - 2) * 2 ^ 44" by simp
  with v have "ev (efd s) + unat task_flag < 2 ^ 64 - 1" by (simp add: task_flag_unat)
  then obtain e where e: "efd_write E task_flag (efd s) = Some e" "ev e = ev (efd s) + unat task_flag"
    by (rule write_one [OF E])
  have "wake_run Q E spin_cycle s = wake_run Q E (drop 4 spin_cycle) ?h"
    by (simp only: wake_run_append [symmetric] append_take_drop_id)
  moreover have "\<not> q_was_empty Q q" using queue_lawsD(7) [OF Q, of q] h(1) by simp
  ultimately show ?thesis
    using h e v by (simp add: spin_cycle_def spinning_def loop_step_def polling_def run_part_def
        call_step_def task_flag_unat resting_def)
qed

lemma spin_start:
  assumes Q: "queue_laws Q ql" and E: "efd_laws E ev" and S: "wake_start ql ev s"
    and "1 < n_thr s" "0 < max_notes s" "waits s = 0"
  shows "spinning ql ev 1
    (wake_run Q E [Begin_submit 1 7, Caller 1, Caller 1, Begin_notify 1, Caller 1] s)"
proof -
  have z: "ql (tq s) = []" "ev (efd s) = 0" using S by (simp_all add: wake_start_def)
  obtain q where q: "q_push Q 7 (tq s) = Some q"
    using queue_lawsD(2) [OF Q, of 7 "tq s"] z by (cases "q_push Q 7 (tq s)") (auto simp: kQueCap_def)
  have lq: "ql q = [7]" using queue_lawsD(3) [OF Q q] z by simp
  have "ev (efd s) + unat task_flag < 2 ^ 64 - 1" using z by (simp add: task_flag_unat)
  then obtain e where e: "efd_write E task_flag (efd s) = Some e" "ev e = ev (efd s) + unat task_flag"
    by (rule write_one [OF E])
  have "ev e + unat (1 :: u64) < 2 ^ 64 - 1" using e(2) z by (simp add: task_flag_unat)
  then obtain e' where e': "efd_write E 1 e = Some e'" "ev e' = ev e + unat (1 :: u64)"
    by (rule write_one [OF E])
  show ?thesis
    using S assms(4-6) q lq e e'
    by (simp add: wake_start_def spinning_def begin_submit_def begin_notify_def call_step_def
        task_flag_unat resting_def)
qed

lemma spin_many:
  assumes "queue_laws Q ql" and "efd_laws E ev"
  shows "spinning ql ev t s \<Longrightarrow> t + n < 2 ^ 20 \<Longrightarrow>
    spinning ql ev (t + n) (wake_run Q E (concat (replicate n spin_cycle)) s)"
proof (induction n arbitrary: t s)
  case (Suc n)
  then have "spinning ql ev (Suc t) (wake_run Q E spin_cycle s)" by (intro spin_again [OF assms]) auto
  from Suc.IH [OF this] Suc.prems(2) show ?case by (simp add: wake_run_append)
qed simp

text \<open>
  C22. A context that is asked to stop while a coroutine keeps submitting itself hangs for good:
  the loop goes on without reading the eventfd, after \<open>2 ^ 20 - 1\<close> task flags the next write
  blocks, and the only thread that reads the eventfd is the one that writes.
\<close>

theorem stop_fills_eventfd:
  assumes Q: "queue_laws Q ql" and E: "efd_laws E ev" and "wake_start ql ev s"
    and "1 < n_thr s" "0 < max_notes s" "waits s = 0"
  shows "c_at (wake_run Q E ys (wake_run Q E (spin_events (2 ^ 20 - 2)) s)) 0 = In_write \<and>
         w_at (wake_run Q E ys (wake_run Q E (spin_events (2 ^ 20 - 2)) s)) = W_run 0"
proof -
  let ?a = "wake_run Q E [Begin_submit 1 7, Caller 1, Caller 1, Begin_notify 1, Caller 1] s"
  let ?b = "wake_run Q E (concat (replicate (2 ^ 20 - 2) spin_cycle)) ?a"
  let ?c = "wake_run Q E (take 4 spin_cycle) ?b"
  have c: "wake_run Q E (spin_events (2 ^ 20 - 2)) s = ?c"
    unfolding spin_events_def by (simp only: wake_run_append)
  have b: "spinning ql ev (1 + (2 ^ 20 - 2)) ?b"
    by (rule spin_many [OF Q E spin_start [OF assms]]) simp
  obtain q where h: "w_at ?c = W_run 0" "c_at ?c = (c_at ?b)(0 := In_write)" "efd ?c = efd ?b"
    by (rule spin_half [OF Q b])
  have "ev (efd ?b) = (1 + (2 ^ 20 - 2)) * 2 ^ 44 + 1" using b unfolding spinning_def by blast
  then have "2 ^ 64 - 1 \<le> ev (efd ?b) + 2 ^ 44" by simp
  with h have S: "stuck ql ev ?c" by (simp add: stuck_def)
  have "c_at ?c 0 = In_write" using h(2) by simp
  with stuck_run [OF Q E S, of ys] h(1) show ?thesis unfolding c by simp
qed

theorem stop_fills_eventfd_witness:
  "w_at (wake_run list_queue counter_efd (spin_events (2 ^ 20 - 2)) (demo_wsys 2)) = W_run 0 \<and>
   c_at (wake_run list_queue counter_efd (spin_events (2 ^ 20 - 2)) (demo_wsys 2)) 0 = In_write"
proof -
  have "wake_start (\<lambda>q. q) counter_val (demo_wsys 2)" by (rule demo_wsys_start) simp
  moreover have "1 < n_thr (demo_wsys 2)" "0 < max_notes (demo_wsys 2)" "waits (demo_wsys 2) = 0"
    by (simp_all add: demo_wsys_def)
  ultimately show ?thesis
    using stop_fills_eventfd [OF list_queue_laws counter_efd_laws, of "demo_wsys 2" "[]"]
    by (simp only: wake_run.simps simp_thms)
qed

subsection \<open>A full queue\<close>

text \<open>One task that submits \<open>n\<close> others to its own context, one after the other.\<close>

definition fan_round :: "event list" where
  "fan_round = [Worker (Submit 7), Worker Back, Worker Back]"

definition fan_events :: "nat \<Rightarrow> event list" where
  "fan_events n =
     [Begin_submit 1 7, Caller 1, Caller 1, Worker Back, Worker Back] @
     concat (replicate n fan_round) @ [Worker (Submit 7)]"

definition fanning :: "('q \<Rightarrow> handle list) \<Rightarrow> ('e \<Rightarrow> nat) \<Rightarrow> nat \<Rightarrow> ('q, 'e) wsys \<Rightarrow> bool" where
  "fanning ql ev t s \<longleftrightarrow>
     w_at s = W_run 0 \<and> c_at s 0 = In_none \<and> length (ql (tq s)) = t \<and> ev (efd s) = Suc t * 2 ^ 44"

lemma fan_start:
  assumes Q: "queue_laws Q ql" and E: "efd_laws E ev" and S: "wake_start ql ev s" and n: "1 < n_thr s"
  shows "fanning ql ev 0 (wake_run Q E [Begin_submit 1 7, Caller 1, Caller 1, Worker Back, Worker Back] s)"
proof -
  have z: "ql (tq s) = []" "ev (efd s) = 0" using S by (simp_all add: wake_start_def)
  obtain q where q: "q_push Q 7 (tq s) = Some q"
    using queue_lawsD(2) [OF Q, of 7 "tq s"] z by (cases "q_push Q 7 (tq s)") (auto simp: kQueCap_def)
  have lq: "ql q = [7]" using queue_lawsD(3) [OF Q q] z by simp
  obtain q1 where q1: "q_pop Q q = Some (7, q1)" by (rule queue_one [OF Q lq])
  have l1: "ql q1 = []" using queue_lawsD(5) [OF Q q1] lq by simp
  have "ev (efd s) + unat task_flag < 2 ^ 64 - 1" using z by (simp add: task_flag_unat)
  then obtain e where e: "efd_write E task_flag (efd s) = Some e" "ev e = ev (efd s) + unat task_flag"
    by (rule write_one [OF E])
  have "q_was_size Q q = 1" using queue_lawsD(6) [OF Q, of q] lq by simp
  then show ?thesis
    using S n z q q1 l1 e
    by (simp add: wake_start_def fanning_def begin_submit_def call_step_def loop_step_def
        polling_def run_part_def task_flag_unat)
qed

lemma fan_again:
  assumes Q: "queue_laws Q ql" and E: "efd_laws E ev" and S: "fanning ql ev t s" and t: "t < kQueCap"
  shows "fanning ql ev (Suc t) (wake_run Q E fan_round s)"
proof -
  obtain q where q: "q_push Q 7 (tq s) = Some q"
    using queue_lawsD(2) [OF Q, of 7 "tq s"] S t by (cases "q_push Q 7 (tq s)") (auto simp: fanning_def)
  have lq: "length (ql q) = Suc t" using queue_lawsD(3) [OF Q q] S by (simp add: fanning_def)
  have "Suc t * 2 ^ 44 \<le> kQueCap * 2 ^ 44" using t by simp
  then have "ev (efd s) + unat task_flag < 2 ^ 64 - 1"
    using S by (simp add: fanning_def task_flag_unat kQueCap_def)
  then obtain e where e: "efd_write E task_flag (efd s) = Some e" "ev e = ev (efd s) + unat task_flag"
    by (rule write_one [OF E])
  show ?thesis
    using S q lq e
    by (simp add: fanning_def fan_round_def begin_submit_def call_step_def loop_step_def polling_def
        run_part_def task_flag_unat)
qed

lemma fan_many:
  assumes "queue_laws Q ql" and "efd_laws E ev"
  shows "fanning ql ev t s \<Longrightarrow> t + n \<le> kQueCap \<Longrightarrow>
    fanning ql ev (t + n)
      (wake_run Q E (concat (replicate n fan_round)) s)"
proof (induction n arbitrary: t s)
  case (Suc n)
  then have "fanning ql ev (Suc t) (wake_run Q E fan_round s)"
    by (intro fan_again [OF assms]) auto
  from Suc.IH [OF this] Suc.prems(2) show ?case by (simp add: wake_run_append)
qed simp

text \<open>
  C23. A coroutine that submits more than \<open>kQueCap\<close> others to its own context hangs the worker
  for good: the push into the full queue waits for a place that only the worker could make. The
  configuration says such a task is executed directly.
\<close>

theorem self_submit_hangs:
  assumes Q: "queue_laws Q ql" and E: "efd_laws E ev" and "wake_start ql ev s" and "1 < n_thr s"
  shows "c_at (wake_run Q E ys (wake_run Q E (fan_events kQueCap) s)) 0 = In_push 7 \<and>
         w_at (wake_run Q E ys (wake_run Q E (fan_events kQueCap) s)) = W_run 0"
proof -
  let ?a = "wake_run Q E [Begin_submit 1 7, Caller 1, Caller 1, Worker Back, Worker Back] s"
  let ?b = "wake_run Q E (concat (replicate kQueCap fan_round)) ?a"
  let ?c = "wake_run Q E [Worker (Submit 7)] ?b"
  have c: "wake_run Q E (fan_events kQueCap) s = ?c"
    unfolding fan_events_def by (simp only: wake_run_append)
  have b: "fanning ql ev (0 + kQueCap) ?b" by (rule fan_many [OF Q E fan_start [OF assms]]) simp
  have h: "w_at ?c = W_run 0" "c_at ?c 0 = In_push 7" "tq ?c = tq ?b"
    using b by (simp_all add: fanning_def loop_step_def polling_def run_part_def begin_submit_def)
  have "length (ql (tq ?b)) = kQueCap" using b by (simp add: fanning_def)
  with h have "stuck ql ev ?c" by (simp add: stuck_def)
  from stuck_run [OF Q E this, of ys] h show ?thesis unfolding c by simp
qed

theorem self_submit_hangs_witness:
  "w_at (wake_run list_queue counter_efd (fan_events kQueCap) (demo_wsys 2)) = W_run 0 \<and>
   c_at (wake_run list_queue counter_efd (fan_events kQueCap) (demo_wsys 2)) 0 = In_push 7"
proof -
  have "wake_start (\<lambda>q. q) counter_val (demo_wsys 2)" by (rule demo_wsys_start) simp
  moreover have "1 < n_thr (demo_wsys 2)" by (simp add: demo_wsys_def)
  ultimately show ?thesis
    using self_submit_hangs [OF list_queue_laws counter_efd_laws, of "demo_wsys 2" "[]"]
    by (simp only: wake_run.simps simp_thms)
qed

subsection \<open>A context without a scheduler\<close>

text \<open>
  A context that is started on its own and has no task: its callback asks for a stop but wakes
  nobody, so the worker goes to sleep with the counter at 0 until somebody else writes it.
\<close>

lemma lone_context_sleeps:
  assumes Q: "queue_laws Q ql" and E: "efd_laws E ev" and S: "wake_start ql ev s"
    and "on_idle s = Request_stop" "waits s = 0"
  defines "s' \<equiv> wake_run Q E (replicate 6 (Worker Back)) s"
  shows "w_at s' = W_read \<and> stop_req s' \<and> resting s' \<and> wake_step Q E (Worker act) s' = s'"
proof -
  have q: "q_was_size Q (tq s) = 0" "q_was_empty Q (tq s)" "efd_read E (efd s) = None"
    using S queue_lawsD(6,7) [OF Q, of "tq s"] efd_lawsD(2) [OF E, of "efd s"]
    by (simp_all add: wake_start_def)
  let ?r = "s\<lparr>w_at := W_read, stop_req := True, in_kernel := in_kernel s + io_prep s,
    io_run := io_run s + io_prep s, io_prep := 0\<rparr>"
  have "wake_run Q E [Worker Back, Worker Back] s = wk W_go_on s"
    using S q assms(5)
    by (simp add: wake_start_def loop_step_def polling_def run_part_def resting_def)
  moreover have "wake_run Q E [Worker Back, Worker Back] (wk W_go_on s) = wk W_idle s"
    using S q assms(5)
    by (simp add: wake_start_def loop_step_def polling_def run_part_def resting_def)
  moreover have "wake_run Q E [Worker Back, Worker Back] (wk W_idle s) = ?r"
    using S assms(4) by (simp add: wake_start_def loop_step_def polling_def run_part_def poll_part_def)
  moreover have "replicate 6 (Worker Back) = [Worker Back, Worker Back] @ [Worker Back, Worker Back] @
      [Worker Back, Worker Back]" by (simp add: numeral_eq_Suc)
  ultimately have "s' = ?r" by (simp only: s'_def wake_run_append)
  then show ?thesis
    using S q assms(5)
    by (simp add: wake_start_def loop_step_def polling_def poll_part_def resting_def)
qed

end
