(* ===== verification/Io_Awaiter.thy ===== *)
theory Io_Awaiter
  imports Context
begin

text \<open>
  The awaiters of \<open>coro::io\<close> (include/coro/io/base_awaiter.hpp, io_awaiter.hpp,
  src/io/io_awaiter.cpp). Constructing one takes an entry of the submission queue, prepares it and
  counts it; \<open>await_suspend\<close> stores the coroutine; the callback, run by the engine when the
  completion arrives, stores the result and submits the coroutine to the context of the thread. An
  awaiter is identified by the address of its \<open>m_info\<close>; its \<open>m_urs\<close> is used by the
  constructor only. Constructors run on a worker thread, whose engine they use.
\<close>

section \<open>The base awaiter\<close>

definition upd_info :: "addr \<Rightarrow> (io_info \<Rightarrow> io_info) \<Rightarrow> ('q, 'v) coro_context \<Rightarrow> ('q, 'v) coro_context" where
  "upd_info a f c = c\<lparr>infos := (infos c)(a := f (infos c a))\<rparr>"

definition sqe_call :: "kcall \<Rightarrow> ('q, 'v) coro_context \<Rightarrow> ('q, 'v) coro_context" where
  "sqe_call k c = c\<lparr>egn := (egn c)\<lparr>m_upxy := kcall k (m_upxy (egn c))\<rparr>\<rparr>"

definition count_submit :: "('q, 'v) coro_context \<Rightarrow> ('q, 'v) coro_context" where
  "count_submit c = c\<lparr>egn := add_io_submit (egn c)\<rparr>"

text \<open>\<open>submit_to_context(handle)\<close>: through the thread-local pointer.\<close>

definition submit_to_context :: "'q queue_ops \<Rightarrow> handle \<Rightarrow> ('q, 'v) coro_context \<Rightarrow> ('q, 'v) coro_context res" where
  "submit_to_context Q h c = (if linfo_ctx c then context_submit Q h c else Inl Dangling)"

text \<open>
  \<open>urs\<close> is the answer of \<open>get_free_urs\<close>, that is, of \<open>io_uring_get_sqe\<close>: null when the
  submission queue is full. \<open>raw\<close> is what the memory of \<open>m_info\<close> held before; only the handle
  is initialised.
\<close>

definition base_io_awaiter ::
    "addr \<Rightarrow> addr \<Rightarrow> io_info \<Rightarrow> ('q, 'v) coro_context \<Rightarrow> ('q, 'v) coro_context res" where
  "base_io_awaiter urs a raw c =
     bindE (assertE (urs \<noteq> nullptr)) (\<lambda>_. Inr (upd_info a (\<lambda>_. raw\<lparr>info_handle := nullptr\<rparr>) c))"

definition io_await_ready :: bool where
  "io_await_ready = False"

definition io_await_suspend :: "addr \<Rightarrow> handle \<Rightarrow> ('q, 'v) coro_context \<Rightarrow> ('q, 'v) coro_context" where
  "io_await_suspend a h c = upd_info a (\<lambda>i. i\<lparr>info_handle := h\<rparr>) c"

definition io_await_resume :: "addr \<Rightarrow> ('q, 'v) coro_context \<Rightarrow> 32 word" where
  "io_await_resume a c = info_result (infos c a)"

section \<open>No operation and standard input\<close>

definition noop_awaiter ::
    "addr \<Rightarrow> addr \<Rightarrow> io_info \<Rightarrow> ('q, 'v) coro_context \<Rightarrow> ('q, 'v) coro_context res" where
  "noop_awaiter urs a raw c =
     bindE (base_io_awaiter urs a raw c) (\<lambda>c0.
       let c1 = upd_info a (\<lambda>i. i\<lparr>info_type := Io_nop, info_cb := Noop_callback\<rparr>) c0;
           c2 = sqe_call (Sqe_prep Prep_nop) c1;
           c3 = sqe_call (Sqe_set_data a) c2 in
       Inr (count_submit c3))"

definition noop_callback ::
    "'q queue_ops \<Rightarrow> addr \<Rightarrow> 32 word \<Rightarrow> ('q, 'v) coro_context \<Rightarrow> ('q, 'v) coro_context res" where
  "noop_callback Q data res c =
     (let c1 = upd_info data (\<lambda>i. i\<lparr>info_result := res\<rparr>) c in
      submit_to_context Q (info_handle (infos c1 data)) c1)"

text \<open>
  \<open>io_uring_prep_read\<close> takes an \<open>unsigned\<close> length and, last, a file offset: \<open>len\<close> is cut
  to 32 bits and \<open>io_flag\<close> is passed as the offset, sign-extended.
\<close>

definition STDIN_FILENO :: "32 word" where
  "STDIN_FILENO = 0"

definition stdin_awaiter ::
    "addr \<Rightarrow> u64 \<Rightarrow> 32 word \<Rightarrow> 32 word \<Rightarrow> addr \<Rightarrow> addr \<Rightarrow> io_info \<Rightarrow>
     ('q, 'v) coro_context \<Rightarrow> ('q, 'v) coro_context res" where
  "stdin_awaiter buf len io_flags sqe_flag urs a raw c =
     bindE (base_io_awaiter urs a raw c) (\<lambda>c0.
       let c1 = upd_info a (\<lambda>i. i\<lparr>info_type := Io_stdin, info_cb := Stdin_callback\<rparr>) c0;
           c2 = sqe_call (Sqe_set_flags sqe_flag) c1;
           c3 = sqe_call (Sqe_prep (Prep_read STDIN_FILENO buf (ucast len) (scast io_flags))) c2;
           c4 = sqe_call (Sqe_set_data a) c3 in
       Inr (count_submit c4))"

definition stdin_callback ::
    "'q queue_ops \<Rightarrow> addr \<Rightarrow> 32 word \<Rightarrow> ('q, 'v) coro_context \<Rightarrow> ('q, 'v) coro_context res" where
  "stdin_callback Q data res c =
     (let c1 = upd_info data (\<lambda>i. i\<lparr>info_result := res\<rparr>) c in
      submit_to_context Q (info_handle (infos c1 data)) c1)"

section \<open>TCP\<close>

text \<open>The address of the peer is not asked for: the second argument of the accept is null.\<close>

definition tcp_accept_awaiter ::
    "32 word \<Rightarrow> 32 word \<Rightarrow> 32 word \<Rightarrow> addr \<Rightarrow> addr \<Rightarrow> io_info \<Rightarrow>
     ('q, 'v) coro_context \<Rightarrow> ('q, 'v) coro_context res" where
  "tcp_accept_awaiter listenfd io_flags sqe_flag urs a raw c =
     bindE (base_io_awaiter urs a raw c) (\<lambda>c0.
       let c1 = upd_info a (\<lambda>i. i\<lparr>info_type := Io_tcp_accept, info_cb := Accept_callback\<rparr>) c0;
           c2 = sqe_call (Sqe_set_flags sqe_flag) c1;
           c3 = sqe_call (Sqe_prep (Prep_accept listenfd nullptr io_flags)) c2;
           c4 = sqe_call (Sqe_set_data a) c3 in
       Inr (count_submit c4))"

definition tcp_accept_callback ::
    "'q queue_ops \<Rightarrow> addr \<Rightarrow> 32 word \<Rightarrow> ('q, 'v) coro_context \<Rightarrow> ('q, 'v) coro_context res" where
  "tcp_accept_callback Q data res c =
     (let c1 = upd_info data (\<lambda>i. i\<lparr>info_result := res\<rparr>) c in
      submit_to_context Q (info_handle (infos c1 data)) c1)"

definition tcp_read_awaiter ::
    "32 word \<Rightarrow> addr \<Rightarrow> u64 \<Rightarrow> 32 word \<Rightarrow> 32 word \<Rightarrow> addr \<Rightarrow> addr \<Rightarrow> io_info \<Rightarrow>
     ('q, 'v) coro_context \<Rightarrow> ('q, 'v) coro_context res" where
  "tcp_read_awaiter sockfd buf len io_flags sqe_flag urs a raw c =
     bindE (base_io_awaiter urs a raw c) (\<lambda>c0.
       let c1 = upd_info a (\<lambda>i. i\<lparr>info_type := Io_tcp_read, info_cb := Read_callback\<rparr>) c0;
           c2 = sqe_call (Sqe_set_flags sqe_flag) c1;
           c3 = sqe_call (Sqe_prep (Prep_recv sockfd buf len io_flags)) c2;
           c4 = sqe_call (Sqe_set_data a) c3 in
       Inr (count_submit c4))"

definition tcp_read_callback ::
    "'q queue_ops \<Rightarrow> addr \<Rightarrow> 32 word \<Rightarrow> ('q, 'v) coro_context \<Rightarrow> ('q, 'v) coro_context res" where
  "tcp_read_callback Q data res c =
     (let c1 = upd_info data (\<lambda>i. i\<lparr>info_result := res\<rparr>) c in
      submit_to_context Q (info_handle (infos c1 data)) c1)"

definition tcp_write_awaiter ::
    "32 word \<Rightarrow> addr \<Rightarrow> u64 \<Rightarrow> 32 word \<Rightarrow> 32 word \<Rightarrow> addr \<Rightarrow> addr \<Rightarrow> io_info \<Rightarrow>
     ('q, 'v) coro_context \<Rightarrow> ('q, 'v) coro_context res" where
  "tcp_write_awaiter sockfd buf len io_flags sqe_flag urs a raw c =
     bindE (base_io_awaiter urs a raw c) (\<lambda>c0.
       let c1 = upd_info a (\<lambda>i. i\<lparr>info_type := Io_tcp_write, info_cb := Write_callback\<rparr>) c0;
           c2 = sqe_call (Sqe_set_flags sqe_flag) c1;
           c3 = sqe_call (Sqe_prep (Prep_send sockfd buf len io_flags)) c2;
           c4 = sqe_call (Sqe_set_data a) c3 in
       Inr (count_submit c4))"

definition tcp_write_callback ::
    "'q queue_ops \<Rightarrow> addr \<Rightarrow> 32 word \<Rightarrow> ('q, 'v) coro_context \<Rightarrow> ('q, 'v) coro_context res" where
  "tcp_write_callback Q data res c =
     (let c1 = upd_info data (\<lambda>i. i\<lparr>info_result := res\<rparr>) c in
      submit_to_context Q (info_handle (infos c1 data)) c1)"

definition tcp_close_awaiter ::
    "32 word \<Rightarrow> addr \<Rightarrow> addr \<Rightarrow> io_info \<Rightarrow> ('q, 'v) coro_context \<Rightarrow> ('q, 'v) coro_context res" where
  "tcp_close_awaiter sockfd urs a raw c =
     bindE (base_io_awaiter urs a raw c) (\<lambda>c0.
       let c1 = upd_info a (\<lambda>i. i\<lparr>info_type := Io_tcp_close, info_cb := Close_callback\<rparr>) c0;
           c2 = sqe_call (Sqe_prep (Prep_close sockfd)) c1;
           c3 = sqe_call (Sqe_set_data a) c2 in
       Inr (count_submit c3))"

definition tcp_close_callback ::
    "'q queue_ops \<Rightarrow> addr \<Rightarrow> 32 word \<Rightarrow> ('q, 'v) coro_context \<Rightarrow> ('q, 'v) coro_context res" where
  "tcp_close_callback Q data res c =
     (let c1 = upd_info data (\<lambda>i. i\<lparr>info_result := res\<rparr>) c in
      submit_to_context Q (info_handle (infos c1 data)) c1)"

text \<open>
  A connect remembers the socket in \<open>data\<close> (\<open>CASTDATA\<close> converts the \<open>int\<close> to
  \<open>uintptr_t\<close>), and its callback answers with it when the connection succeeded.
\<close>

definition CASTDATA :: "32 word \<Rightarrow> u64" where
  "CASTDATA d = scast d"

definition tcp_connect_awaiter ::
    "32 word \<Rightarrow> 16 word \<times> 16 word \<times> 32 word \<Rightarrow> 32 word \<Rightarrow> addr \<Rightarrow> addr \<Rightarrow> io_info \<Rightarrow>
     ('q, 'v) coro_context \<Rightarrow> ('q, 'v) coro_context res" where
  "tcp_connect_awaiter sockfd sa addrlen urs a raw c =
     bindE (base_io_awaiter urs a raw c) (\<lambda>c0.
       let c1 = upd_info a (\<lambda>i. i\<lparr>info_type := Io_tcp_connect, info_cb := Connect_callback,
                  info_data := CASTDATA sockfd\<rparr>) c0;
           c2 = sqe_call (Sqe_prep (Prep_connect sockfd sa addrlen)) c1;
           c3 = sqe_call (Sqe_set_data a) c2 in
       Inr (count_submit c3))"

definition tcp_connect_callback ::
    "'q queue_ops \<Rightarrow> addr \<Rightarrow> 32 word \<Rightarrow> ('q, 'v) coro_context \<Rightarrow> ('q, 'v) coro_context res" where
  "tcp_connect_callback Q data res c =
     (let c1 = (if res \<noteq> 0 then upd_info data (\<lambda>i. i\<lparr>info_result := res\<rparr>) c
                else upd_info data (\<lambda>i. i\<lparr>info_result := ucast (info_data i)\<rparr>) c) in
      submit_to_context Q (info_handle (infos c1 data)) c1)"

lemmas io_awaiter_defs =
  noop_awaiter_def stdin_awaiter_def tcp_accept_awaiter_def tcp_read_awaiter_def
  tcp_write_awaiter_def tcp_close_awaiter_def tcp_connect_awaiter_def

lemmas io_callback_defs =
  noop_callback_def stdin_callback_def tcp_accept_callback_def tcp_read_callback_def
  tcp_write_callback_def tcp_close_callback_def tcp_connect_callback_def

end
