(* ===== verification/Timer.thy ===== *)
theory Timer
  imports Io_Awaiter
begin

text \<open>
  \<open>coro::time::timer\<close> (include/coro/timer.hpp): a relative timeout that is put together by
  chained calls and awaited. The setters from durations and time points are templates that cannot
  be instantiated (they initialise the integer members of \<open>__kernel_timespec\<close> with
  \<open>std::chrono\<close> durations), so they have no behaviour to model. The program of examples/timer.cpp
  is at the end.
\<close>

section \<open>The timer\<close>

type_synonym timespec = "u64 \<times> u64"

record timer =
  m_ts :: timespec
  m_flag :: "32 word"

text \<open>The constructor sets the flag only; \<open>raw\<close> is what the memory of \<open>m_ts\<close> held before.\<close>

definition new_timer :: "timespec \<Rightarrow> 32 word \<Rightarrow> timer" where
  "new_timer raw flag = \<lparr>m_ts = raw, m_flag = flag\<rparr>"

definition add_seconds :: "u64 \<Rightarrow> timer \<Rightarrow> timer" where
  "add_seconds seconds t = t\<lparr>m_ts := (fst (m_ts t) + seconds, snd (m_ts t))\<rparr>"

definition add_mseconds :: "u64 \<Rightarrow> timer \<Rightarrow> timer" where
  "add_mseconds mseconds t = t\<lparr>m_ts := (fst (m_ts t), snd (m_ts t) + 1000000 * mseconds)\<rparr>"

definition add_useconds :: "u64 \<Rightarrow> timer \<Rightarrow> timer" where
  "add_useconds useconds t = t\<lparr>m_ts := (fst (m_ts t), snd (m_ts t) + 1000 * useconds)\<rparr>"

definition add_nseconds :: "u64 \<Rightarrow> timer \<Rightarrow> timer" where
  "add_nseconds nseconds t = t\<lparr>m_ts := (fst (m_ts t), snd (m_ts t) + nseconds)\<rparr>"

section \<open>Awaiting it\<close>

definition ETIME :: "32 word" where
  "ETIME = 62"

definition timer_awaiter ::
    "timespec \<Rightarrow> 32 word \<Rightarrow> 32 word \<Rightarrow> addr \<Rightarrow> addr \<Rightarrow> io_info \<Rightarrow>
     ('q, 'v) coro_context \<Rightarrow> ('q, 'v) coro_context res" where
  "timer_awaiter ts cnt flags urs a raw c =
     bindE (base_io_awaiter urs a raw c) (\<lambda>c0.
       let c1 = upd_info a (\<lambda>i. i\<lparr>info_type := Io_timer, info_cb := Timer_callback\<rparr>) c0;
           c2 = sqe_call (Sqe_prep (Prep_timeout ts cnt flags)) c1;
           c3 = sqe_call (Sqe_set_data a) c2 in
       Inr (count_submit c3))"

definition timer_callback ::
    "'q queue_ops \<Rightarrow> addr \<Rightarrow> 32 word \<Rightarrow> ('q, 'v) coro_context \<Rightarrow> ('q, 'v) coro_context res" where
  "timer_callback Q data res0 c =
     (let res = (if res0 = - ETIME then 0 else res0);
          c1 = upd_info data (\<lambda>i. i\<lparr>info_result := res\<rparr>) c in
      submit_to_context Q (info_handle (infos c1 data)) c1)"

text \<open>\<open>operator co_await\<close> passes one completion and no flags; \<open>m_flag\<close> is not used.\<close>

definition timer_co_await ::
    "timer \<Rightarrow> addr \<Rightarrow> addr \<Rightarrow> io_info \<Rightarrow> ('q, 'v) coro_context \<Rightarrow> ('q, 'v) coro_context res" where
  "timer_co_await t urs a raw c = timer_awaiter (m_ts t) 1 0 urs a raw c"

section \<open>Chains of calls\<close>

datatype timer_op = Add_s u64 | Add_ms u64 | Add_us u64 | Add_ns u64

fun timer_apply :: "timer_op \<Rightarrow> timer \<Rightarrow> timer" where
  "timer_apply (Add_s n) = add_seconds n"
| "timer_apply (Add_ms n) = add_mseconds n"
| "timer_apply (Add_us n) = add_useconds n"
| "timer_apply (Add_ns n) = add_nseconds n"

text \<open>The duration a call asks for, in nanoseconds, and its parts in seconds and below.\<close>

fun op_seconds :: "timer_op \<Rightarrow> nat" where
  "op_seconds (Add_s n) = unat n"
| "op_seconds _ = 0"

fun op_nanos :: "timer_op \<Rightarrow> nat" where
  "op_nanos (Add_s n) = 0"
| "op_nanos (Add_ms n) = 1000000 * unat n"
| "op_nanos (Add_us n) = 1000 * unat n"
| "op_nanos (Add_ns n) = unat n"

definition op_duration :: "timer_op \<Rightarrow> nat" where
  "op_duration x = 1000000000 * op_seconds x + op_nanos x"

definition nanos_of :: "timespec \<Rightarrow> nat" where
  "nanos_of ts = 1000000000 * unat (fst ts) + unat (snd ts)"

definition timer_chain :: "timer_op list \<Rightarrow> timer \<Rightarrow> timer" where
  "timer_chain xs t = foldl (\<lambda>t x. timer_apply x t) t xs"

lemma timer_chain_simps [simp]:
  "timer_chain [] t = t"
  "timer_chain (x # xs) t = timer_chain xs (timer_apply x t)"
  by (simp_all add: timer_chain_def)

lemma timer_apply_adds:
  "m_ts (timer_apply x t) =
     (fst (m_ts t) + word_of_nat (op_seconds x), snd (m_ts t) + word_of_nat (op_nanos x))"
  by (cases x) (simp_all add: add_seconds_def add_mseconds_def add_useconds_def add_nseconds_def)

lemma timer_chain_adds:
  "m_ts (timer_chain xs t) =
     (fst (m_ts t) + word_of_nat (sum_list (map op_seconds xs)),
      snd (m_ts t) + word_of_nat (sum_list (map op_nanos xs)))"
  by (induction xs arbitrary: t) (simp_all add: timer_apply_adds algebra_simps)

lemma durations_split:
  "sum_list (map op_duration xs) =
     1000000000 * sum_list (map op_seconds xs) + sum_list (map op_nanos xs)"
  by (induction xs) (simp_all add: op_duration_def)

lemma timer_co_await_calls:
  assumes "urs \<noteq> nullptr"
  shows "\<exists>c1. timer_co_await t urs a raw c = Inr c1 \<and>
    kcalls (m_upxy (egn c1)) = kcalls (m_upxy (egn c)) @
      [Sqe_prep (Prep_timeout (m_ts t) 1 0), Sqe_set_data a]"
  using assms
  by (simp add: timer_co_await_def timer_awaiter_def base_io_awaiter_def sqe_call_def upd_info_def
      count_submit_def add_io_submit_def)

section \<open>Properties\<close>

text \<open>
  A timer whose time span was zero waits for the sum of what was added, in whatever order and
  unit it was added, as long as the seconds and the nanoseconds fit their counters: that sum is what
  the timeout request carries, with one completion and no flags.
\<close>

lemma timer_waits_for_sum:
  assumes "sum_list (map op_seconds xs) < 2 ^ 63" and "sum_list (map op_nanos xs) < 2 ^ 63"
    and "urs \<noteq> nullptr"
  shows "\<exists>c1 ts. timer_co_await (timer_chain xs (new_timer (0, 0) flag)) urs a raw c = Inr c1 \<and>
    kcalls (m_upxy (egn c1)) =
      kcalls (m_upxy (egn c)) @ [Sqe_prep (Prep_timeout ts 1 0), Sqe_set_data a] \<and>
    nanos_of ts = sum_list (map op_duration xs) \<and> 0 \<le> sint (fst ts) \<and> 0 \<le> sint (snd ts)"
proof -
  let ?ts = "m_ts (timer_chain xs (new_timer (0, 0) flag))"
  have ts: "?ts = (word_of_nat (sum_list (map op_seconds xs)), word_of_nat (sum_list (map op_nanos xs)))"
    by (simp add: timer_chain_adds new_timer_def)
  have "unat (fst ?ts) = sum_list (map op_seconds xs)" "unat (snd ?ts) = sum_list (map op_nanos xs)"
    unfolding ts using assms(1,2) by (simp_all add: unat_of_nat)
  then have "nanos_of ?ts = sum_list (map op_duration xs)"
    by (simp add: nanos_of_def durations_split)
  moreover have "0 \<le> sint (word_of_nat n :: u64)" if "n < 2 ^ 63" for n
    using that sint_word_of_int [of "int n"] by simp
  then have "0 \<le> sint (fst ?ts)" "0 \<le> sint (snd ?ts)" unfolding ts using assms(1,2) by simp_all
  ultimately show ?thesis using timer_co_await_calls [OF assms(3)] by blast
qed

lemma timer_waits_for_sum_witness:
  "\<exists>c1 ts. timer_co_await (timer_chain [Add_s 3, Add_ms 500] (new_timer (0, 0) 7)) 9 2
      (infos demo_context 2) demo_context = Inr c1 \<and> nanos_of ts = 3500000000 \<and>
    kcalls (m_upxy (egn c1)) =
      kcalls (m_upxy (egn demo_context)) @ [Sqe_prep (Prep_timeout ts 1 0), Sqe_set_data 2]"
  using timer_waits_for_sum [of "[Add_s 3, Add_ms 500]" 9 7 2 "infos demo_context 2" demo_context]
  by (auto simp: op_duration_def)

text \<open>
  What a timer waits for depends on what its memory held before: the constructor does not
  initialise \<open>m_ts\<close>, so the same calls on two timers ask for different time spans exactly when
  the two memories differed.
\<close>

lemma timer_waits_for_garbage:
  "m_ts (timer_chain xs (new_timer raw1 flag1)) = m_ts (timer_chain xs (new_timer raw2 flag2)) \<longleftrightarrow>
   raw1 = raw2"
  by (cases raw1; cases raw2) (simp add: timer_chain_adds new_timer_def)

text \<open>
  examples/timer.cpp: what its coroutine awaits. The request asks for three and a half seconds more
  than what the memory of the timer held.
\<close>

definition timer_func ::
    "timespec \<Rightarrow> addr \<Rightarrow> addr \<Rightarrow> io_info \<Rightarrow> ('q, 'v) coro_context \<Rightarrow> ('q, 'v) coro_context res" where
  "timer_func raw_ts urs a raw c =
     timer_co_await (add_mseconds 500 (add_seconds 3 (new_timer raw_ts 0))) urs a raw c"

lemma timer_func_requests:
  assumes "urs \<noteq> nullptr"
  shows "\<exists>c1. timer_func raw_ts urs a raw c = Inr c1 \<and>
    kcalls (m_upxy (egn c1)) = kcalls (m_upxy (egn c)) @
      [Sqe_prep (Prep_timeout (fst raw_ts + 3, snd raw_ts + 500000000) 1 0), Sqe_set_data a]"
  using timer_co_await_calls [OF assms, of "add_mseconds 500 (add_seconds 3 (new_timer raw_ts 0))" a raw c]
  by (simp add: timer_func_def add_mseconds_def add_seconds_def new_timer_def)

end
