(* ===== verification/Io_System.thy ===== *)
theory Io_System
  imports Timer
begin

text \<open>
  The I/O of a context as a whole: coroutines start requests of every kind, the engine submits them
  and dispatches the completions to the callbacks. Shown are the accounting of requests, on which
  the decision of a worker thread to stop rests, and the delivery of results.
\<close>

section \<open>Requests and callbacks\<close>

datatype io_request =
    Req_noop
  | Req_stdin addr u64 "32 word" "32 word"
  | Req_accept "32 word" "32 word" "32 word"
  | Req_read "32 word" addr u64 "32 word" "32 word"
  | Req_write "32 word" addr u64 "32 word" "32 word"
  | Req_close "32 word"
  | Req_connect "32 word" "16 word \<times> 16 word \<times> 32 word" "32 word"
  | Req_timer timer

fun start_io ::
    "io_request \<Rightarrow> addr \<Rightarrow> addr \<Rightarrow> io_info \<Rightarrow> ('q, 'v) coro_context \<Rightarrow> ('q, 'v) coro_context res" where
  "start_io Req_noop = noop_awaiter"
| "start_io (Req_stdin buf len f g) = stdin_awaiter buf len f g"
| "start_io (Req_accept fd f g) = tcp_accept_awaiter fd f g"
| "start_io (Req_read fd buf len f g) = tcp_read_awaiter fd buf len f g"
| "start_io (Req_write fd buf len f g) = tcp_write_awaiter fd buf len f g"
| "start_io (Req_close fd) = tcp_close_awaiter fd"
| "start_io (Req_connect fd sa len) = tcp_connect_awaiter fd sa len"
| "start_io (Req_timer t) = timer_co_await t"

text \<open>The call through \<open>data->cb\<close>.\<close>

fun invoke_cb ::
    "'q queue_ops \<Rightarrow> io_callback \<Rightarrow> addr \<Rightarrow> 32 word \<Rightarrow> ('q, 'v) coro_context \<Rightarrow> ('q, 'v) coro_context res" where
  "invoke_cb Q Noop_callback = noop_callback Q"
| "invoke_cb Q Stdin_callback = stdin_callback Q"
| "invoke_cb Q Accept_callback = tcp_accept_callback Q"
| "invoke_cb Q Read_callback = tcp_read_callback Q"
| "invoke_cb Q Write_callback = tcp_write_callback Q"
| "invoke_cb Q Close_callback = tcp_close_callback Q"
| "invoke_cb Q Connect_callback = tcp_connect_callback Q"
| "invoke_cb Q Timer_callback = timer_callback Q"

section \<open>What a request does\<close>

fun request_op :: "io_request \<Rightarrow> sqe_op" where
  "request_op Req_noop = Prep_nop"
| "request_op (Req_stdin buf len f g) = Prep_read STDIN_FILENO buf (ucast len) (scast f)"
| "request_op (Req_accept fd f g) = Prep_accept fd nullptr f"
| "request_op (Req_read fd buf len f g) = Prep_recv fd buf len f"
| "request_op (Req_write fd buf len f g) = Prep_send fd buf len f"
| "request_op (Req_close fd) = Prep_close fd"
| "request_op (Req_connect fd sa len) = Prep_connect fd sa len"
| "request_op (Req_timer t) = Prep_timeout (m_ts t) 1 0"

fun request_flags :: "io_request \<Rightarrow> kcall list" where
  "request_flags (Req_stdin buf len f g) = [Sqe_set_flags g]"
| "request_flags (Req_accept fd f g) = [Sqe_set_flags g]"
| "request_flags (Req_read fd buf len f g) = [Sqe_set_flags g]"
| "request_flags (Req_write fd buf len f g) = [Sqe_set_flags g]"
| "request_flags _ = []"

fun request_cb :: "io_request \<Rightarrow> io_callback" where
  "request_cb Req_noop = Noop_callback"
| "request_cb (Req_stdin buf len f g) = Stdin_callback"
| "request_cb (Req_accept fd f g) = Accept_callback"
| "request_cb (Req_read fd buf len f g) = Read_callback"
| "request_cb (Req_write fd buf len f g) = Write_callback"
| "request_cb (Req_close fd) = Close_callback"
| "request_cb (Req_connect fd sa len) = Connect_callback"
| "request_cb (Req_timer t) = Timer_callback"

text \<open>What \<open>co_await\<close> on a request answers when the kernel completes it with \<open>res\<close>.\<close>

fun request_answer :: "io_request \<Rightarrow> 32 word \<Rightarrow> 32 word" where
  "request_answer (Req_connect fd sa len) res = (if res = 0 then fd else res)"
| "request_answer (Req_timer t) res = (if res = - ETIME then 0 else res)"
| "request_answer _ res = res"

text \<open>The same as computed by the callback from the record of the request.\<close>

definition info_answer :: "io_info \<Rightarrow> 32 word \<Rightarrow> 32 word" where
  "info_answer i res =
     (case info_cb i of
        Connect_callback \<Rightarrow> if res \<noteq> 0 then res else ucast (info_data i)
      | Timer_callback \<Rightarrow> if res = - ETIME then 0 else res
      | _ \<Rightarrow> res)"

text \<open>An \<open>int\<close> survives the conversion to \<open>uintptr_t\<close> and back.\<close>

lemma castdata_roundtrip [simp]: "ucast (CASTDATA d) = d"
proof (rule bit_word_eqI)
  fix n
  assume "n < LENGTH(32)"
  then show "bit (ucast (CASTDATA d) :: 32 word) n = bit d n"
    by (simp add: CASTDATA_def bit_unsigned_iff bit_signed_iff)
qed

lemmas io_steps = base_io_awaiter_def upd_info_def sqe_call_def count_submit_def add_io_submit_def

lemma start_io_effect:
  assumes "urs \<noteq> nullptr"
  shows "\<exists>i. start_io r urs a raw c = Inr (c\<lparr>infos := (infos c)(a := i),
      egn := (egn c)\<lparr>m_upxy := (m_upxy (egn c))\<lparr>kcalls := kcalls (m_upxy (egn c)) @
               request_flags r @ [Sqe_prep (request_op r), Sqe_set_data a]\<rparr>,
             m_num_io_wait_submit := m_num_io_wait_submit (egn c) + 1\<rparr>\<rparr>) \<and>
    info_cb i = request_cb r \<and> info_handle i = nullptr \<and>
    (\<forall>res. info_answer i res = request_answer r res)"
  using assms
  by (cases r)
     (auto simp: io_awaiter_defs io_steps timer_co_await_def timer_awaiter_def kcall_def
       info_answer_def Let_def)

lemma start_io_null: "start_io r nullptr a raw c = Inl Assertion"
  by (cases r) (simp_all add: io_awaiter_defs base_io_awaiter_def timer_co_await_def timer_awaiter_def)

lemma invoke_cb_effect:
  "invoke_cb Q (info_cb (infos c a)) a res c =
     submit_to_context Q (info_handle (infos c a))
       (upd_info a (\<lambda>i. i\<lparr>info_result := info_answer i res\<rparr>) c)"
  by (cases "info_cb (infos c a)")
     (auto simp: io_callback_defs timer_callback_def info_answer_def upd_info_def Let_def)

section \<open>Accounting\<close>

text \<open>
  What the history of calls says about requests: prepared since the last submission, submitted,
  completed.
\<close>

fun io_tally :: "nat \<times> nat \<times> nat \<Rightarrow> kcall \<Rightarrow> nat \<times> nat \<times> nat" where
  "io_tally (w, s, d) (Sqe_prep x) = (Suc w, s, d)"
| "io_tally (w, s, d) Uring_submit = (0, s + w, d)"
| "io_tally (w, s, d) (Cq_advance n) = (w, s, d + n)"
| "io_tally (w, s, d) _ = (w, s, d)"

definition tally :: "kcall list \<Rightarrow> nat \<times> nat \<times> nat" where
  "tally ks = foldl io_tally (0, 0, 0) ks"

definition io_counts :: "'q engine \<Rightarrow> bool" where
  "io_counts e \<longleftrightarrow>
     (case tally (kcalls (m_upxy e)) of (w, s, d) \<Rightarrow>
        m_num_io_wait_submit e = word_of_nat w \<and> m_num_io_running e = word_of_nat s - word_of_nat d)"

text \<open>The operations that touch the I/O state of a context.\<close>

datatype io_op =
    Start io_request addr addr io_info
  | Suspend_at addr handle
  | Submit handle
  | Poll u64 "cqe list"

fun io_exec :: "'q queue_ops \<Rightarrow> io_op \<Rightarrow> ('q, 'v) coro_context \<Rightarrow> ('q, 'v) coro_context res" where
  "io_exec Q (Start r urs a raw) c = start_io r urs a raw c"
| "io_exec Q (Suspend_at a h) c = Inr (io_await_suspend a h c)"
| "io_exec Q (Submit h) c = submit_to_context Q h c"
| "io_exec Q (Poll cnt cqes) c = poll_submit (invoke_cb Q) cnt cqes c"

fun io_run :: "'q queue_ops \<Rightarrow> io_op list \<Rightarrow> ('q, 'v) coro_context \<Rightarrow> ('q, 'v) coro_context res" where
  "io_run Q [] c = Inr c"
| "io_run Q (x # xs) c = bindE (io_exec Q x c) (io_run Q xs)"

lemma tally_append: "tally (ks @ ks') = foldl io_tally (tally ks) ks'"
  by (simp add: tally_def)

lemma submit_to_context_Inr:
  assumes "submit_to_context Q h c = Inr c1"
  shows "\<exists>q. c1 = c\<lparr>egn := (egn c)\<lparr>m_task_queue := q,
      m_upxy := kcall (Eventfd_write task_flag) (m_upxy (egn c))\<rparr>\<rparr>"
  using assms by (auto simp: submit_to_context_def context_submit_def bindE_Inr_iff submit_task_Inr
      split: if_splits)

lemma submit_counts:
  assumes "submit_to_context Q h c = Inr c1"
  shows "io_counts (egn c1) = io_counts (egn c)"
  using submit_to_context_Inr [OF assms] by (auto simp: io_counts_def tally_append split: prod.splits)

lemma io_counts_cong:
  "kcalls (m_upxy e') = kcalls (m_upxy e) \<Longrightarrow> m_num_io_wait_submit e' = m_num_io_wait_submit e \<Longrightarrow>
   m_num_io_running e' = m_num_io_running e \<Longrightarrow> io_counts e' = io_counts e"
  by (simp add: io_counts_def)

lemma invoke_counts:
  assumes "invoke_cb Q (info_cb (infos c a)) a res c = Inr c1"
  shows "io_counts (egn c1) = io_counts (egn c)"
  using submit_counts [OF assms [unfolded invoke_cb_effect]] by (simp add: upd_info_def)

lemma handle_cqes_counts:
  "handle_cqes (invoke_cb Q) cqes c = Inr c1 \<Longrightarrow> io_counts (egn c1) = io_counts (egn c)"
proof (induction cqes arbitrary: c)
  case Nil
  then show ?case by simp
next
  case (Cons x xs)
  then obtain c0 where "handle_cqe_entry (invoke_cb Q) x c = Inr c0"
    and r: "handle_cqes (invoke_cb Q) xs c0 = Inr c1" by (auto simp: bindE_Inr_iff)
  then have "io_counts (egn c0) = io_counts (egn c)"
    by (auto simp: handle_cqe_entry_def dest: invoke_counts split: if_splits)
  with Cons.IH [OF r] show ?case by simp
qed

lemma do_io_submit_counts: "io_counts e \<Longrightarrow> io_counts (do_io_submit e)"
  by (auto simp: io_counts_def do_io_submit_def uring_submit_def tally_append split: prod.splits)

lemma poll_counts:
  assumes "io_counts (egn c)" and "poll_submit (invoke_cb Q) cnt cqes c = Inr c1"
  shows "io_counts (egn c1)"
proof -
  let ?c = "c\<lparr>egn := do_io_submit (egn c)\<rparr>" and ?n = "length cqes"
  have I: "io_counts (egn ?c)" using do_io_submit_counts [OF assms(1)] by simp
  show ?thesis
  proof (cases "c1 = ?c")
    case False
    then obtain c2 where h: "handle_cqes (invoke_cb Q) cqes ?c = Inr c2"
      and c1: "c1 = c2\<lparr>egn := (egn c2)\<lparr>m_upxy := cq_advance ?n (m_upxy (egn c2)),
        m_num_io_running := m_num_io_running (egn c2) - word_of_nat ?n\<rparr>\<rparr>"
      using assms(2) by (auto simp: poll_submit_def Let_def bindE_Inr_iff split: if_splits)
    have "io_counts (egn c2)" using handle_cqes_counts [OF h] I by simp
    then show ?thesis
      unfolding c1 by (auto simp: io_counts_def cq_advance_def tally_append split: prod.splits)
  qed (use I in simp)
qed

lemma start_counts:
  assumes "io_counts (egn c)" and "start_io r urs a raw c = Inr c1"
  shows "io_counts (egn c1)"
proof -
  have "urs \<noteq> nullptr" using assms(2) by (cases "urs = nullptr") (auto simp: start_io_null)
  from start_io_effect [OF this, of r a raw c] assms(2)
  obtain i where c1: "c1 = c\<lparr>infos := (infos c)(a := i),
      egn := (egn c)\<lparr>m_upxy := (m_upxy (egn c))\<lparr>kcalls := kcalls (m_upxy (egn c)) @
               request_flags r @ [Sqe_prep (request_op r), Sqe_set_data a]\<rparr>,
             m_num_io_wait_submit := m_num_io_wait_submit (egn c) + 1\<rparr>\<rparr>" by auto
  have "foldl io_tally t (request_flags r) = t" for t by (cases t; cases r) simp_all
  then show ?thesis
    using assms(1) unfolding c1 by (auto simp: io_counts_def tally_append split: prod.splits)
qed

lemma io_exec_counts:
  assumes "io_counts (egn c)" and "io_exec Q x c = Inr c1"
  shows "io_counts (egn c1)"
proof (cases x)
  case (Start r urs a raw)
  then show ?thesis using assms start_counts by auto
next
  case (Suspend_at a h)
  then show ?thesis using assms by (auto simp: io_await_suspend_def upd_info_def)
next
  case (Submit h)
  then show ?thesis using assms submit_counts by auto
next
  case (Poll cnt cqes)
  then show ?thesis using assms poll_counts by auto
qed

lemma io_run_counts:
  "io_counts (egn c) \<Longrightarrow> io_run Q xs c = Inr c1 \<Longrightarrow> io_counts (egn c1)"
proof (induction xs arbitrary: c)
  case Nil
  then show ?case by simp
next
  case (Cons x xs)
  then show ?case using io_exec_counts [of c Q x] by (auto simp: bindE_Inr_iff)
qed

section \<open>Delivery\<close>

text \<open>Requests that are started and awaited one after the other.\<close>

record io_start =
  st_req :: io_request
  st_urs :: addr
  st_addr :: addr
  st_raw :: io_info
  st_coro :: handle

fun await_all :: "io_start list \<Rightarrow> ('q, 'v) coro_context \<Rightarrow> ('q, 'v) coro_context res" where
  "await_all [] c = Inr c"
| "await_all (x # xs) c =
     bindE (start_io (st_req x) (st_urs x) (st_addr x) (st_raw x) c) (\<lambda>c1.
       await_all xs (io_await_suspend (st_addr x) (st_coro x) c1))"

text \<open>What an awaiter at rest in the kernel looks like.\<close>

definition awaits :: "('q, 'v) coro_context \<Rightarrow> io_start \<Rightarrow> bool" where
  "awaits c x \<longleftrightarrow> info_handle (infos c (st_addr x)) = st_coro x \<and>
     (\<forall>res. info_answer (infos c (st_addr x)) res = request_answer (st_req x) res)"

lemma await_all_effect:
  assumes "distinct (map st_addr xs)" and "\<forall>x \<in> set xs. st_urs x \<noteq> nullptr"
  shows "\<exists>c1. await_all xs c = Inr c1 \<and> (\<forall>x \<in> set xs. awaits c1 x) \<and>
    (\<forall>b. b \<notin> set (map st_addr xs) \<longrightarrow> infos c1 b = infos c b) \<and>
    linfo_ctx c1 = linfo_ctx c \<and> m_efd (m_upxy (egn c1)) = m_efd (m_upxy (egn c)) \<and>
    m_task_queue (egn c1) = m_task_queue (egn c)"
  using assms
proof (induction xs arbitrary: c)
  case Nil
  then show ?case by simp
next
  case (Cons x xs)
  have "st_urs x \<noteq> nullptr" using Cons.prems(2) by simp
  from start_io_effect [OF this, of "st_req x" "st_addr x" "st_raw x" c] obtain i c0
    where c0: "start_io (st_req x) (st_urs x) (st_addr x) (st_raw x) c = Inr c0" "infos c0 = (infos c)(st_addr x := i)"
      "linfo_ctx c0 = linfo_ctx c" "m_efd (m_upxy (egn c0)) = m_efd (m_upxy (egn c))"
      "m_task_queue (egn c0) = m_task_queue (egn c)"
      and i: "\<forall>res. info_answer i res = request_answer (st_req x) res" by auto
  let ?c = "io_await_suspend (st_addr x) (st_coro x) c0" and ?i = "i\<lparr>info_handle := st_coro x\<rparr>"
  have c: "infos ?c = (infos c)(st_addr x := ?i)" "egn ?c = egn c0" "linfo_ctx ?c = linfo_ctx c0"
    using c0(2) by (simp_all add: io_await_suspend_def upd_info_def)
  have "distinct (map st_addr xs)" "\<forall>x \<in> set xs. st_urs x \<noteq> nullptr"
    using Cons.prems by simp_all
  from Cons.IH [OF this, of ?c] obtain c1 where c1: "await_all xs ?c = Inr c1"
    "\<forall>x \<in> set xs. awaits c1 x"
    "\<forall>b. b \<notin> set (map st_addr xs) \<longrightarrow> infos c1 b = infos ?c b"
    "linfo_ctx c1 = linfo_ctx ?c" "m_efd (m_upxy (egn c1)) = m_efd (m_upxy (egn ?c))"
    "m_task_queue (egn c1) = m_task_queue (egn ?c)" by blast
  have "st_addr x \<notin> set (map st_addr xs)" using Cons.prems(1) by simp
  then have "infos c1 (st_addr x) = ?i" using c1(3) c(1) by simp
  moreover have "info_answer ?i res = info_answer i res" for res
    by (cases "info_cb i") (simp_all add: info_answer_def)
  ultimately have "awaits c1 x" using i by (simp add: awaits_def)
  moreover have "await_all (x # xs) c = Inr c1" using c0(1) c1(1) by simp
  ultimately show ?case using c1 c c0 by auto
qed

lemma handle_cqes_deliver:
  "context_running Q ql c \<Longrightarrow> linfo_ctx c \<Longrightarrow> distinct (map cqe_data cqes) \<Longrightarrow>
   (\<forall>x \<in> set cqes. cqe_data x \<noteq> nullptr \<and> info_handle (infos c (cqe_data x)) \<noteq> nullptr) \<Longrightarrow>
   length (pending_of ql c) + length cqes \<le> kQueCap \<Longrightarrow>
   \<exists>c1. handle_cqes (invoke_cb Q) cqes c = Inr c1 \<and>
     pending_of ql c1 = pending_of ql c @ map (\<lambda>x. info_handle (infos c (cqe_data x))) cqes \<and>
     (\<forall>x \<in> set cqes. io_await_resume (cqe_data x) c1 = info_answer (infos c (cqe_data x)) (cqe_res x)) \<and>
     (\<forall>a. a \<notin> set (map cqe_data cqes) \<longrightarrow> infos c1 a = infos c a)"
proof (induction cqes arbitrary: c)
  case Nil
  then show ?case by simp
next
  case (Cons x xs)
  let ?a = "cqe_data x"
  let ?c = "upd_info ?a (\<lambda>i. i\<lparr>info_result := info_answer i (cqe_res x)\<rparr>) c"
  let ?h = "info_handle (infos c ?a)"
  have a: "?a \<noteq> nullptr" "?h \<noteq> nullptr" and fresh: "?a \<notin> set (map cqe_data xs)"
    using Cons.prems(3,4) by simp_all
  have run: "context_running Q ql ?c" and p: "pending_of ql ?c = pending_of ql c"
    using Cons.prems(1) by (simp_all add: upd_info_def context_running_def)
  have room: "length (pending_of ql ?c) < kQueCap" using Cons.prems(5) p by simp
  obtain c0 where c0: "context_submit Q ?h ?c = Inr c0"
    using ctx.submit_accepts [OF run a(2) room] by blast
  have ap: "context_running Q ql c0" "pending_of ql c0 = pending_of ql c @ [?h]"
    using ctx.submit_appends [OF run c0] p by simp_all
  have fr: "infos c0 = infos ?c" "linfo_ctx c0"
    using c0 Cons.prems(2) by (auto simp: context_submit_def bindE_Inr_iff upd_info_def)
  have inv: "handle_cqe_entry (invoke_cb Q) x c = Inr c0"
    using a c0 Cons.prems(2) by (simp add: handle_cqe_entry_def invoke_cb_effect submit_to_context_def upd_info_def)
  have same: "infos c0 b = infos c b" if "b \<noteq> ?a" for b using fr(1) that by (simp add: upd_info_def)
  have eq: "infos c0 (cqe_data y) = infos c (cqe_data y)" if "y \<in> set xs" for y
    using same that fresh by (metis image_eqI list.set_map)
  have "distinct (map cqe_data xs)" using Cons.prems(3) by simp
  moreover have "\<forall>y \<in> set xs. cqe_data y \<noteq> nullptr \<and> info_handle (infos c0 (cqe_data y)) \<noteq> nullptr"
    using Cons.prems(4) eq by simp
  moreover have "length (pending_of ql c0) + length xs \<le> kQueCap" using Cons.prems(5) ap(2) by simp
  ultimately obtain c1 where c1: "handle_cqes (invoke_cb Q) xs c0 = Inr c1"
    "pending_of ql c1 = pending_of ql c0 @ map (\<lambda>x. info_handle (infos c0 (cqe_data x))) xs"
    "\<forall>x \<in> set xs. io_await_resume (cqe_data x) c1 = info_answer (infos c0 (cqe_data x)) (cqe_res x)"
    "\<forall>a. a \<notin> set (map cqe_data xs) \<longrightarrow> infos c1 a = infos c0 a"
    using Cons.IH [OF ap(1) fr(2)] by blast
  have "io_await_resume ?a c1 = info_answer (infos c ?a) (cqe_res x)"
    using c1(4) fresh fr(1) by (simp add: io_await_resume_def upd_info_def)
  moreover have "infos c1 b = infos c b" if "b \<notin> set (map cqe_data (x # xs))" for b
    using that c1(4) same by simp
  moreover have "handle_cqes (invoke_cb Q) (x # xs) c = Inr c1" using inv c1(1) by simp
  ultimately show ?case using c1(2,3) ap(2) eq by simp
qed

section \<open>Properties\<close>

text \<open>
  C24. The two counters of the engine account for every request: after any sequence of starting and
  awaiting requests, submitting tasks and polling, \<open>m_num_io_wait_submit\<close> is the number of
  requests prepared since the last submission and \<open>m_num_io_running\<close> the number submitted and
  not yet completed, so that \<open>empty_io\<close> holds exactly when no request is outstanding. The kernel
  must not complete more than was submitted.
\<close>

theorem io_accounting:
  assumes "io_run Q xs c = Inr c1" and "io_counts (egn c)"
    and "tally (kcalls (m_upxy (egn c1))) = (w, s, d)" and "w < 2 ^ 64" "d \<le> s" "s < 2 ^ 64"
  shows "unat (m_num_io_wait_submit (egn c1)) = w \<and> unat (m_num_io_running (egn c1)) = s - d \<and>
    (empty_io (egn c1) \<longleftrightarrow> w = 0 \<and> s = d)"
proof -
  have "io_counts (egn c1)" by (rule io_run_counts [OF assms(2,1)])
  then have e: "m_num_io_wait_submit (egn c1) = word_of_nat w" "m_num_io_running (egn c1) = word_of_nat (s - d)"
    using assms(3,5) by (simp_all add: io_counts_def of_nat_diff)
  have w: "unat (word_of_nat w :: u64) = w" and r: "unat (word_of_nat (s - d) :: u64) = s - d"
    using assms(4,6) by (simp_all add: unat_of_nat)
  have "empty_io (egn c1) \<longleftrightarrow> unat (word_of_nat w :: u64) = 0 \<and> unat (word_of_nat (s - d) :: u64) = 0"
    by (simp only: empty_io_def e unat_eq_0)
  then show ?thesis using w r assms(5) by (auto simp: e)
qed

definition demo_io_ops :: "io_op list" where
  "demo_io_ops = [Start Req_noop 9 2 (demo_infos 0), Suspend_at 2 50,
     Start (Req_timer (new_timer (3, 0) 0)) 9 3 (demo_infos 0), Suspend_at 3 51,
     Poll 1 [\<lparr>cqe_data = 2, cqe_res = 7\<rparr>], Start (Req_close 5) 9 4 (demo_infos 0)]"

theorem io_accounting_witness:
  "\<exists>c1. io_run list_queue demo_io_ops demo_context = Inr c1 \<and>
    unat (m_num_io_wait_submit (egn c1)) = 1 \<and> unat (m_num_io_running (egn c1)) = 1 \<and> \<not> empty_io (egn c1)"
proof -
  have "\<exists>c1. io_run list_queue demo_io_ops demo_context = Inr c1 \<and>
      tally (kcalls (m_upxy (egn c1))) = (1, 2, 1)"
    by (simp add: demo_io_ops_def io_awaiter_defs io_callback_defs timer_co_await_def timer_awaiter_def
        timer_callback_def io_steps io_await_suspend_def poll_submit_def do_io_submit_def
        uring_submit_def cq_advance_def wait_eventfd_def handle_cqe_entry_def submit_to_context_def
        context_submit_def submit_task_def wake_up_def write_eventfd_def list_queue_def
        demo_context_def demo_engine_def demo_proxy_def demo_infos_def wake_by_cqe_def cqe_mask_def
        kQueCap_def tally_def kcall_def Let_def)
  then obtain c1 where c1: "io_run list_queue demo_io_ops demo_context = Inr c1"
    "tally (kcalls (m_upxy (egn c1))) = (1, 2, 1)" by blast
  have "io_counts (egn demo_context)"
    by (simp add: io_counts_def tally_def demo_context_def demo_engine_def demo_proxy_def)
  from io_accounting [OF c1(1) this c1(2)] c1(1) show ?thesis by auto
qed

text \<open>
  C25. I/O results reach the coroutines that asked for them: requests of any kind are started and
  awaited, and one round of polling receives completions of some of them in any order. Then the
  engine queues the awaiting coroutines in the order of the completions, each reads the answer to
  its own request (for a connect the socket if it succeeded, for a timer 0 if it expired, else the
  result of the kernel), and the other requests are left as they are.
\<close>

theorem io_results_delivered:
  assumes "distinct (map st_addr xs)" and "\<forall>x \<in> set xs. st_urs x \<noteq> nullptr"
    and "context_running Q ql c" "linfo_ctx c" "wake_by_cqe cnt"
    and "length (pending_of ql c) + length cqes \<le> kQueCap" and "distinct (map cqe_data cqes)" "cqes \<noteq> []"
    and "\<forall>x \<in> set cqes. cqe_data x \<noteq> nullptr \<and> req (cqe_data x) \<in> set xs \<and>
       st_addr (req (cqe_data x)) = cqe_data x \<and> st_coro (req (cqe_data x)) \<noteq> nullptr"
  shows "\<exists>c1 c2. await_all xs c = Inr c1 \<and> poll_submit (invoke_cb Q) cnt cqes c1 = Inr c2 \<and>
    pending_of ql c2 = pending_of ql c @ map (\<lambda>x. st_coro (req (cqe_data x))) cqes \<and>
    (\<forall>x \<in> set cqes. io_await_resume (cqe_data x) c2 =
       request_answer (st_req (req (cqe_data x))) (cqe_res x)) \<and>
    (\<forall>a. a \<notin> set (map cqe_data cqes) \<longrightarrow> infos c2 a = infos c1 a)"
proof -
  obtain c1 where c1: "await_all xs c = Inr c1" "\<forall>x \<in> set xs. awaits c1 x"
    and fr: "linfo_ctx c1 = linfo_ctx c" "m_efd (m_upxy (egn c1)) = m_efd (m_upxy (egn c))"
      "m_task_queue (egn c1) = m_task_queue (egn c)"
    using await_all_effect [OF assms(1,2), of c] by blast
  let ?c = "c1\<lparr>egn := do_io_submit (egn c1)\<rparr>"
  have run: "context_running Q ql ?c" and p: "pending_of ql ?c = pending_of ql c" and l: "linfo_ctx ?c"
    and efd: "m_efd (m_upxy (egn ?c)) \<noteq> -1"
    using assms(3,4) fr by (auto simp: context_running_def engine_running_def do_io_submit_def uring_submit_def)
  have aw: "info_handle (infos c1 (cqe_data x)) = st_coro (req (cqe_data x)) \<and>
      info_answer (infos c1 (cqe_data x)) (cqe_res x) =
        request_answer (st_req (req (cqe_data x))) (cqe_res x)"
    if "x \<in> set cqes" for x
    using assms(9) that c1(2) by (metis awaits_def)
  have "\<forall>x \<in> set cqes. cqe_data x \<noteq> nullptr \<and> info_handle (infos ?c (cqe_data x)) \<noteq> nullptr"
    using aw assms(9) by simp
  from handle_cqes_deliver [OF run l assms(7) this] assms(6) p obtain c2
    where c2: "handle_cqes (invoke_cb Q) cqes ?c = Inr c2"
      "pending_of ql c2 = pending_of ql c @ map (\<lambda>x. info_handle (infos c1 (cqe_data x))) cqes"
      "\<forall>x \<in> set cqes. io_await_resume (cqe_data x) c2 = info_answer (infos c1 (cqe_data x)) (cqe_res x)"
      "\<forall>a. a \<notin> set (map cqe_data cqes) \<longrightarrow> infos c2 a = infos c1 a" by auto
  let ?d = "c2\<lparr>egn := (egn c2)\<lparr>m_upxy := cq_advance (length cqes) (m_upxy (egn c2)),
      m_num_io_running := m_num_io_running (egn c2) - word_of_nat (length cqes)\<rparr>\<rparr>"
  have "poll_submit (invoke_cb Q) cnt cqes c1 = Inr ?d"
    using efd assms(5,6,8) c2(1) by (simp add: poll_submit_def wait_eventfd_def Let_def)
  moreover have "map (\<lambda>x. info_handle (infos c1 (cqe_data x))) cqes =
      map (\<lambda>x. st_coro (req (cqe_data x))) cqes" using aw by simp
  ultimately show ?thesis
    using c1(1) c2 aw by (intro exI [of _ c1] exI [of _ ?d]) (simp add: io_await_resume_def)
qed

definition demo_starts :: "io_start list" where
  "demo_starts =
     [\<lparr>st_req = Req_connect 5 (2, 0, 0) 16, st_urs = 9, st_addr = 2, st_raw = demo_infos 0, st_coro = 50\<rparr>,
      \<lparr>st_req = Req_noop, st_urs = 9, st_addr = 3, st_raw = demo_infos 0, st_coro = 51\<rparr>,
      \<lparr>st_req = Req_timer (new_timer (3, 0) 0), st_urs = 9, st_addr = 4, st_raw = demo_infos 0, st_coro = 52\<rparr>]"

theorem io_results_delivered_witness:
  "\<exists>c1 c2. await_all demo_starts demo_context = Inr c1 \<and>
    poll_submit (invoke_cb list_queue) 1
      [\<lparr>cqe_data = 4, cqe_res = - ETIME\<rparr>, \<lparr>cqe_data = 2, cqe_res = 0\<rparr>] c1 = Inr c2 \<and>
    pending_of (\<lambda>q. q) c2 = [52, 50] \<and> io_await_resume 2 c2 = 5 \<and> io_await_resume 4 c2 = 0"
proof -
  let ?req = "\<lambda>a. demo_starts ! (a - 2)"
  have l: "linfo_ctx demo_context" by (simp add: demo_context_def)
  have "\<exists>c1 c2. await_all demo_starts demo_context = Inr c1 \<and>
    poll_submit (invoke_cb list_queue) 1
      [\<lparr>cqe_data = 4, cqe_res = - ETIME\<rparr>, \<lparr>cqe_data = 2, cqe_res = 0\<rparr>] c1 = Inr c2 \<and>
    pending_of (\<lambda>q. q) c2 = pending_of (\<lambda>q. q) demo_context @ map (\<lambda>x. st_coro (?req (cqe_data x)))
      [\<lparr>cqe_data = 4, cqe_res = - ETIME\<rparr>, \<lparr>cqe_data = 2, cqe_res = 0\<rparr>] \<and>
    (\<forall>x \<in> set [\<lparr>cqe_data = 4, cqe_res = - ETIME\<rparr>, \<lparr>cqe_data = 2, cqe_res = 0\<rparr>].
       io_await_resume (cqe_data x) c2 = request_answer (st_req (?req (cqe_data x))) (cqe_res x)) \<and>
    (\<forall>a. a \<notin> set (map cqe_data [\<lparr>cqe_data = 4, cqe_res = - ETIME\<rparr>, \<lparr>cqe_data = 2, cqe_res = 0\<rparr>]) \<longrightarrow>
       infos c2 a = infos c1 a)"
    by (rule io_results_delivered)
       (simp_all add: l demo_context_running demo_context_queue demo_starts_def wake_by_cqe_def
          cqe_mask_def kQueCap_def)
  then show ?thesis using demo_context_queue by (simp add: demo_starts_def) blast
qed

end
