(* ===== verification/Tcp.thy ===== *)
theory Tcp
  imports Io_System
begin

text \<open>
  \<open>coro::io::net::tcp\<close> (include/coro/io/net/tcp/tcp.hpp, src/io/net/tcp/tcp.cpp): connections,
  servers and clients over the awaiters. Sockets are opened by the operating system, whose answers
  are arguments; making them non-blocking and logging are left out. A descriptor is an \<open>int\<close> and
  is passed to a request as the word that represents it.
\<close>

section \<open>Connections\<close>

record tcp_connector =
  m_sockfd :: int
  m_original_fd :: int
  m_fixed_fd :: item
  m_sqe_flag :: "32 word"

definition with_uring :: "uring_proxy \<Rightarrow> ('q, 'v) coro_context \<Rightarrow> ('q, 'v) coro_context" where
  "with_uring p c = c\<lparr>egn := (egn c)\<lparr>m_upxy := p\<rparr>\<rparr>"

abbreviation uring_of :: "('q, 'v) coro_context \<Rightarrow> uring_proxy" where
  "uring_of c \<equiv> m_upxy (egn c)"

text \<open>\<open>fixfd\<close> is the configuration, \<open>answer\<close> the number of table entries the kernel updates.\<close>

definition tcp_connector_ctor ::
    "bool \<Rightarrow> int \<Rightarrow> int \<Rightarrow> ('q, 'v) coro_context \<Rightarrow> (tcp_connector \<times> ('q, 'v) coro_context) res" where
  "tcp_connector_ctor fixfd answer sockfd c =
     (case fixed_fds_ctor fixfd (uring_of c) of (it, p) \<Rightarrow>
        bindE (fixed_fds_assign fixfd answer it sockfd 0 p) (\<lambda>(fd, flag, p1).
          Inr (\<lparr>m_sockfd = fd, m_original_fd = sockfd, m_fixed_fd = it, m_sqe_flag = flag\<rparr>,
               with_uring p1 c)))"

definition connector_read ::
    "tcp_connector \<Rightarrow> addr \<Rightarrow> u64 \<Rightarrow> 32 word \<Rightarrow> addr \<Rightarrow> addr \<Rightarrow> io_info \<Rightarrow>
     ('q, 'v) coro_context \<Rightarrow> ('q, 'v) coro_context res" where
  "connector_read k buf len io_flags urs a raw c =
     tcp_read_awaiter (word_of_int (m_sockfd k)) buf len io_flags (m_sqe_flag k) urs a raw c"

definition connector_write ::
    "tcp_connector \<Rightarrow> addr \<Rightarrow> u64 \<Rightarrow> 32 word \<Rightarrow> addr \<Rightarrow> addr \<Rightarrow> io_info \<Rightarrow>
     ('q, 'v) coro_context \<Rightarrow> ('q, 'v) coro_context res" where
  "connector_write k buf len io_flags urs a raw c =
     tcp_write_awaiter (word_of_int (m_sockfd k)) buf len io_flags (m_sqe_flag k) urs a raw c"

definition connector_close ::
    "bool \<Rightarrow> int \<Rightarrow> tcp_connector \<Rightarrow> addr \<Rightarrow> addr \<Rightarrow> io_info \<Rightarrow>
     ('q, 'v) coro_context \<Rightarrow> (tcp_connector \<times> ('q, 'v) coro_context) res" where
  "connector_close fixfd answer k urs a raw c =
     bindE (fixed_fds_return_back fixfd answer (m_fixed_fd k) (uring_of c)) (\<lambda>(it, p).
     bindE (tcp_close_awaiter (word_of_int (m_original_fd k)) urs a raw (with_uring p c)) (\<lambda>c1.
       Inr (k\<lparr>m_fixed_fd := it\<rparr>, c1)))"

text \<open>The destructor is that of the member \<open>m_fixed_fd\<close>.\<close>

definition tcp_connector_dtor ::
    "bool \<Rightarrow> int \<Rightarrow> tcp_connector \<Rightarrow> ('q, 'v) coro_context \<Rightarrow> ('q, 'v) coro_context res" where
  "tcp_connector_dtor fixfd answer k c =
     bindE (fixed_fds_return_back fixfd answer (m_fixed_fd k) (uring_of c)) (\<lambda>(it, p).
       Inr (with_uring p c))"

section \<open>Servers and clients\<close>

type_synonym sockaddr_in = "16 word \<times> 16 word \<times> 32 word"

definition AF_INET :: "16 word" where
  "AF_INET = 2"

text \<open>\<open>htons\<close> on the little-endian machines the code runs on; \<open>htonl(INADDR_ANY)\<close> is 0.\<close>

definition htons :: "16 word \<Rightarrow> 16 word" where
  "htons x = word_of_int ((uint x mod 256) * 256 + uint x div 256)"

definition INADDR_ANY :: "32 word" where
  "INADDR_ANY = 0"

text \<open>
  The answers of the system: \<open>socket\<close>; \<open>inet_pton\<close>, with what it wrote if it answered 1 (it
  leaves the address alone otherwise); \<open>bind\<close> and \<open>listen\<close>.
\<close>

record net_answers =
  ans_socket :: int
  ans_pton :: "int \<times> 32 word"
  ans_bind :: int
  ans_listen :: int

text \<open>The address part of both constructors; \<open>std::exit(1)\<close> if \<open>inet_pton\<close> answers less than 0.\<close>

definition resolve_addr :: "net_answers \<Rightarrow> string option \<Rightarrow> 32 word res" where
  "resolve_addr ans sa =
     (case sa of
        Some s \<Rightarrow>
          if fst (ans_pton ans) < 0 then Inl Exit_failure
          else Inr (if fst (ans_pton ans) = 1 then snd (ans_pton ans) else 0)
      | None \<Rightarrow> Inr INADDR_ANY)"

record tcp_server =
  m_listenfd :: int
  m_servaddr :: sockaddr_in
  srv_fixed_fd :: item
  srv_sqe_flag :: "32 word"

definition tcp_server_ctor ::
    "bool \<Rightarrow> int \<Rightarrow> net_answers \<Rightarrow> string option \<Rightarrow> 32 word \<Rightarrow>
     ('q, 'v) coro_context \<Rightarrow> (tcp_server \<times> ('q, 'v) coro_context) res" where
  "tcp_server_ctor fixfd answer ans sa port c =
     (case fixed_fds_ctor fixfd (uring_of c) of (it, p) \<Rightarrow>
        bindE (assertE (ans_socket ans \<noteq> -1)) (\<lambda>_.
        bindE (resolve_addr ans sa) (\<lambda>ip.
          let servaddr = (AF_INET, htons (ucast port), ip) in
          if ans_bind ans \<noteq> 0 then Inl Exit_failure
          else if ans_listen ans \<noteq> 0 then Inl Exit_failure
          else bindE (fixed_fds_assign fixfd answer it (ans_socket ans) 0 p) (\<lambda>(fd, flag, p1).
            Inr (\<lparr>m_listenfd = fd, m_servaddr = servaddr, srv_fixed_fd = it, srv_sqe_flag = flag\<rparr>,
                 with_uring p1 c)))))"

definition kDefaultPort :: "32 word" where
  "kDefaultPort = 8000"

definition tcp_server_port_ctor ::
    "bool \<Rightarrow> int \<Rightarrow> net_answers \<Rightarrow> 32 word option \<Rightarrow>
     ('q, 'v) coro_context \<Rightarrow> (tcp_server \<times> ('q, 'v) coro_context) res" where
  "tcp_server_port_ctor fixfd answer ans port c =
     tcp_server_ctor fixfd answer ans None (case port of None \<Rightarrow> kDefaultPort | Some p \<Rightarrow> p) c"

definition server_accept ::
    "tcp_server \<Rightarrow> 32 word \<Rightarrow> addr \<Rightarrow> addr \<Rightarrow> io_info \<Rightarrow> ('q, 'v) coro_context \<Rightarrow> ('q, 'v) coro_context res" where
  "server_accept srv io_flags urs a raw c =
     tcp_accept_awaiter (word_of_int (m_listenfd srv)) io_flags (srv_sqe_flag srv) urs a raw c"

record tcp_client =
  m_clientfd :: int
  cli_servaddr :: sockaddr_in

definition tcp_client_ctor :: "net_answers \<Rightarrow> string option \<Rightarrow> 32 word \<Rightarrow> tcp_client res" where
  "tcp_client_ctor ans sa port =
     (if ans_socket ans < 0 then Inl Exit_failure
      else bindE (resolve_addr ans sa) (\<lambda>ip.
        Inr \<lparr>m_clientfd = ans_socket ans, cli_servaddr = (AF_INET, htons (ucast port), ip)\<rparr>))"

text \<open>\<open>sizeof(sockaddr_in)\<close> is 16.\<close>

definition client_connect ::
    "tcp_client \<Rightarrow> addr \<Rightarrow> addr \<Rightarrow> io_info \<Rightarrow> ('q, 'v) coro_context \<Rightarrow> ('q, 'v) coro_context res" where
  "client_connect cl urs a raw c =
     tcp_connect_awaiter (word_of_int (m_clientfd cl)) (cli_servaddr cl) 16 urs a raw c"

section \<open>Lemmas\<close>

text \<open>
  The file a request is about: the descriptor itself, or with the fixed-file flag the entry of the
  registered table.
\<close>

definition names_file :: "uring_proxy \<Rightarrow> int \<Rightarrow> 32 word \<Rightarrow> int \<Rightarrow> bool" where
  "names_file p fd flag file \<longleftrightarrow>
     (flag = 0 \<and> fd = file) \<or>
     (flag = IOSQE_FIXED_FILE \<and> 0 \<le> fd \<and> nat fd < length (buf_data (m_fds p)) \<and>
      buf_data (m_fds p) ! nat fd = file)"

lemma ctor_unassigned:
  assumes "\<not> item_valid (fst (fixed_fds_ctor fixfd (uring_of c)))"
  shows "\<exists>it p. fixed_fds_ctor fixfd (uring_of c) = (it, p) \<and> \<not> item_valid it \<and>
    tcp_connector_ctor fixfd answer sockfd c =
      Inr (\<lparr>m_sockfd = sockfd, m_original_fd = sockfd, m_fixed_fd = it, m_sqe_flag = 0\<rparr>, with_uring p c)"
  using assms by (cases "fixed_fds_ctor fixfd (uring_of c)") (simp add: tcp_connector_ctor_def fixed_fds_assign_def)

lemma connector_ctor_spec:
  assumes "fds_inv (uring_of c)" and "tcp_connector_ctor True 8 sockfd c = Inr (k, c1)"
  shows "m_original_fd k = sockfd \<and> names_file (uring_of c1) (m_sockfd k) (m_sqe_flag k) sockfd \<and>
    fds_inv (uring_of c1) \<and>
    (item_valid (m_fixed_fd k) \<longrightarrow> m_sockfd k = idx (m_fixed_fd k) \<and>
       nat (m_sockfd k) < kFixFdArraySize \<and> nat (m_sockfd k) \<notin> set (que (m_fds (uring_of c1))) \<and>
       buf_data (m_fds (uring_of c1)) =
         (buf_data (m_fds (uring_of c)))[nat (m_sockfd k) := sockfd] \<and>
       m_null_fds (uring_of c1) = m_null_fds (uring_of c) \<and>
       que (m_fds (uring_of c)) = nat (m_sockfd k) # que (m_fds (uring_of c1)) \<and>
       buf_data (m_fds (uring_of c)) ! nat (m_sockfd k) = m_null_fds (uring_of c) ! nat (m_sockfd k))"
proof -
  obtain it p where b: "fixed_fds_ctor True (uring_of c) = (it, p)" by fastforce
  then have g: "get_fixed_fd True (uring_of c) = (it, p)" by (simp add: fixed_fds_ctor_def)
  have same: "buf_data (m_fds p) = buf_data (m_fds (uring_of c))" "m_null_fds p = m_null_fds (uring_of c)"
    using g by (auto simp: get_fixed_fd_def borrow_def split: list.splits)
  note inv = fixed_borrow(1) [OF assms(1) g]
  show ?thesis
  proof (cases "item_valid it")
    case False
    then have "k = \<lparr>m_sockfd = sockfd, m_original_fd = sockfd, m_fixed_fd = it, m_sqe_flag = 0\<rparr>"
      "c1 = with_uring p c"
      using assms(2) b by (auto simp: tcp_connector_ctor_def fixed_fds_assign_def)
    with False inv show ?thesis by (simp add: names_file_def with_uring_def)
  next
    case True
    note s = fixed_borrow(2) [OF assms(1) g True]
    obtain fd flag p1 where asg: "fixed_fds_assign True 8 it sockfd 0 p = Inr (fd, flag, p1)"
      and k: "k = \<lparr>m_sockfd = fd, m_original_fd = sockfd, m_fixed_fd = it, m_sqe_flag = flag\<rparr>"
      and c1: "c1 = with_uring p1 c"
      using assms(2) b by (auto simp: tcp_connector_ctor_def bindE_Inr_iff)
    have out: "nat (idx it) \<notin> set (que (m_fds p))" using s by simp
    note a = fixed_assign [OF inv out asg]
    have d: "buf_data (m_fds p1) = (buf_data (m_fds p))[nat (idx it) := sockfd]"
      and f: "fd = idx it" "flag = 0 OR IOSQE_FIXED_FILE"
      using asg True by (auto simp: fixed_defs Let_def kFixFdArraySize_def)
    have len: "length (buf_data (m_fds p)) = kFixFdArraySize" using inv by (simp add: fds_inv_def)
    have "0 \<le> idx it" using True b by (auto simp: item_valid_def fixed_defs borrow_def split: list.splits)
    with a d f s same len show ?thesis
      by (simp add: k c1 names_file_def with_uring_def)
  qed
qed

lemma close_calls:
  assumes "urs \<noteq> nullptr"
  shows "\<exists>i. tcp_close_awaiter fd urs a raw c = Inr (c\<lparr>infos := (infos c)(a := i),
      egn := (egn c)\<lparr>m_upxy := (uring_of c)\<lparr>kcalls := kcalls (uring_of c) @
               [Sqe_prep (Prep_close fd), Sqe_set_data a]\<rparr>,
             m_num_io_wait_submit := m_num_io_wait_submit (egn c) + 1\<rparr>\<rparr>)"
  using start_io_effect [OF assms, of "Req_close fd" a raw c] by auto

lemma return_back_spec:
  assumes "item_valid it" and "nat (idx it) < length (m_null_fds p)"
  shows "\<exists>p1. fixed_fds_return_back True 8 it p = Inr (set_invalid it, p1) \<and>
    buf_data (m_fds p1) = (buf_data (m_fds p))[nat (idx it) := m_null_fds p ! nat (idx it)] \<and>
    que (m_fds p1) = que (m_fds p) @ [nat (idx it)] \<and> m_null_fds p1 = m_null_fds p"
  using assms by (simp add: fixed_defs return_back_def kFixFdArraySize_def Let_def)

lemma return_back_invalid: "\<not> item_valid it \<Longrightarrow> fixed_fds_return_back fixfd answer it p = Inr (it, p)"
  by (simp add: fixed_fds_return_back_def)

lemma not_valid_set_invalid [simp]: "\<not> item_valid (set_invalid it)"
  by (simp add: item_valid_def set_invalid_def)

lemma connector_close_spec:
  assumes "fds_inv (uring_of c)" and "tcp_connector_ctor True 8 sockfd c = Inr (k, c1)" and "urs \<noteq> nullptr"
  shows "\<exists>k2 c2. connector_close True 8 k urs a raw c1 = Inr (k2, c2) \<and>
    buf_data (m_fds (uring_of c2)) = buf_data (m_fds (uring_of c)) \<and>
    mset (que (m_fds (uring_of c2))) = mset (que (m_fds (uring_of c))) \<and>
    (\<exists>ks. kcalls (uring_of c2) = ks @ [Sqe_prep (Prep_close (word_of_int sockfd)), Sqe_set_data a]) \<and>
    tcp_connector_dtor True 8 k2 c2 = Inr c2"
proof -
  note k = connector_ctor_spec [OF assms(1,2)]
  have wu: "with_uring (uring_of c') c' = c'" for c' :: "('a, 'b) coro_context" by (simp add: with_uring_def)
  show ?thesis
  proof (cases "item_valid (m_fixed_fd k)")
    case True
    let ?i = "nat (idx (m_fixed_fd k))"
    have i: "?i < length (m_null_fds (uring_of c1))" using k True by (auto simp: fds_inv_def)
    obtain p where p: "fixed_fds_return_back True 8 (m_fixed_fd k) (uring_of c1) = Inr (set_invalid (m_fixed_fd k), p)"
      "buf_data (m_fds p) = (buf_data (m_fds (uring_of c1)))[?i := m_null_fds (uring_of c1) ! ?i]"
      "que (m_fds p) = que (m_fds (uring_of c1)) @ [?i]" "m_null_fds p = m_null_fds (uring_of c1)"
      using return_back_spec [OF True i] by blast
    obtain c2 where c2: "tcp_close_awaiter (word_of_int (m_original_fd k)) urs a raw (with_uring p c1) = Inr c2"
      "m_fds (uring_of c2) = m_fds p"
      "kcalls (uring_of c2) = kcalls p @ [Sqe_prep (Prep_close (word_of_int sockfd)), Sqe_set_data a]"
      using close_calls [OF assms(3), of "word_of_int (m_original_fd k)" a raw "with_uring p c1"] k
      by (auto simp: with_uring_def)
    have table: "buf_data (m_fds p) = buf_data (m_fds (uring_of c))"
      using k True p(2) by simp (metis list_update_id)
    have que: "mset (que (m_fds p)) = mset (que (m_fds (uring_of c)))" using k True p(3) by simp
    have cl: "connector_close True 8 k urs a raw c1 = Inr (k\<lparr>m_fixed_fd := set_invalid (m_fixed_fd k)\<rparr>, c2)"
      using p(1) c2(1) by (simp add: connector_close_def)
    have "tcp_connector_dtor True 8 (k\<lparr>m_fixed_fd := set_invalid (m_fixed_fd k)\<rparr>) c2 = Inr c2"
      by (simp add: tcp_connector_dtor_def return_back_invalid wu)
    with cl c2 table que show ?thesis by auto
  next
    case False
    obtain it p where "fixed_fds_ctor True (uring_of c) = (it, p)" by fastforce
    moreover then have "\<not> item_valid it"
      using assms(2) False by (auto simp: tcp_connector_ctor_def bindE_Inr_iff)
    ultimately have same: "m_fds (uring_of c1) = m_fds (uring_of c)"
      using assms(2)
      by (auto simp: tcp_connector_ctor_def fixed_fds_assign_def with_uring_def fixed_defs borrow_def
          item_valid_def split: list.splits)
    obtain c2 where c2: "tcp_close_awaiter (word_of_int (m_original_fd k)) urs a raw c1 = Inr c2"
      "m_fds (uring_of c2) = m_fds (uring_of c1)"
      "kcalls (uring_of c2) = kcalls (uring_of c1) @ [Sqe_prep (Prep_close (word_of_int sockfd)), Sqe_set_data a]"
      using close_calls [OF assms(3), of "word_of_int (m_original_fd k)" a raw c1] k by auto
    have "connector_close True 8 k urs a raw c1 = Inr (k, c2)"
      using c2(1) by (simp add: connector_close_def return_back_invalid [OF False] wu)
    moreover have "tcp_connector_dtor True 8 k c2 = Inr c2"
      by (simp add: tcp_connector_dtor_def return_back_invalid [OF False] wu)
    ultimately show ?thesis using c2 same by auto
  qed
qed

lemma connector_read_call:
  assumes "urs \<noteq> nullptr"
  shows "\<exists>c2. connector_read k buf len f urs a raw c = Inr c2 \<and> m_fds (uring_of c2) = m_fds (uring_of c) \<and>
    kcalls (uring_of c2) = kcalls (uring_of c) @ [Sqe_set_flags (m_sqe_flag k),
      Sqe_prep (Prep_recv (word_of_int (m_sockfd k)) buf len f), Sqe_set_data a]"
  using start_io_effect [OF assms, of "Req_read (word_of_int (m_sockfd k)) buf len f (m_sqe_flag k)" a raw c]
  by (auto simp: connector_read_def)

lemma connector_write_call:
  assumes "urs \<noteq> nullptr"
  shows "\<exists>c2. connector_write k buf len f urs a raw c = Inr c2 \<and> m_fds (uring_of c2) = m_fds (uring_of c) \<and>
    kcalls (uring_of c2) = kcalls (uring_of c) @ [Sqe_set_flags (m_sqe_flag k),
      Sqe_prep (Prep_send (word_of_int (m_sockfd k)) buf len f), Sqe_set_data a]"
  using start_io_effect [OF assms, of "Req_write (word_of_int (m_sockfd k)) buf len f (m_sqe_flag k)" a raw c]
  by (auto simp: connector_write_def)

section \<open>Properties\<close>



text \<open>
  A server (or a client) cannot tell a malformed address from no address: \<open>inet_pton\<close>
  answers 0 for a string that is no address, the code tests for less than 0 only, and the server is
  bound to every interface.
\<close>

lemma malformed_address_binds_everywhere:
  assumes "fst (ans_pton ans) = 0"
  shows "tcp_server_ctor fixfd answer ans (Some s) port c = tcp_server_ctor fixfd answer ans None port c \<and>
    tcp_client_ctor ans (Some s) port = tcp_client_ctor ans None port \<and>
    (\<forall>srv c1. tcp_server_ctor fixfd answer ans (Some s) port c = Inr (srv, c1) \<longrightarrow>
       m_servaddr srv = (AF_INET, htons (ucast port), INADDR_ANY))"
proof -
  have r: "resolve_addr ans (Some s) = Inr INADDR_ANY" "resolve_addr ans None = Inr INADDR_ANY"
    using assms by (simp_all add: resolve_addr_def INADDR_ANY_def)
  then show ?thesis
    by (auto simp: tcp_server_ctor_def tcp_client_ctor_def bindE_Inr_iff Let_def split: prod.splits if_splits)
qed

lemma malformed_address_binds_everywhere_witness:
  "\<exists>srv c1. tcp_server_ctor False 8 \<lparr>ans_socket = 4, ans_pton = (0, 0), ans_bind = 0, ans_listen = 0\<rparr>
      (Some ''localhost'') 8000 demo_context = Inr (srv, c1) \<and> snd (snd (m_servaddr srv)) = INADDR_ANY"
proof -
  let ?ans = "\<lparr>ans_socket = 4, ans_pton = (0, 0), ans_bind = 0, ans_listen = 0\<rparr>"
  have "\<exists>srv c1. tcp_server_ctor False 8 ?ans None 8000 demo_context = Inr (srv, c1)"
    by (simp add: tcp_server_ctor_def resolve_addr_def fixed_defs item_valid_def Let_def)
  with malformed_address_binds_everywhere [of ?ans False 8 "''localhost''" 8000 demo_context]
  show ?thesis by auto
qed

end
