(* ===== verification/Net.thy ===== *)
theory Net
  imports Tcp
begin

text \<open>
  \<open>coro::net\<close> (include/coro/net, src/net): the older namespace that the repository keeps beside
  \<open>coro::io\<close>. It has its own copies of the base awaiter, of all awaiters and callbacks, of the
  fixed descriptors and of the TCP classes. They are translated here from their own files; the
  property says that the copies have not drifted apart. The records are those of the other copy,
  whose members are the same. The engine reads every \<open>io_info\<close> as one of \<open>coro::io\<close>.
\<close>

section \<open>Awaiters\<close>

definition net_base_io_awaiter ::
    "addr \<Rightarrow> addr \<Rightarrow> io_info \<Rightarrow> ('q, 'v) coro_context \<Rightarrow> ('q, 'v) coro_context res" where
  "net_base_io_awaiter urs a raw c =
     bindE (assertE (urs \<noteq> nullptr)) (\<lambda>_. Inr (upd_info a (\<lambda>_. raw\<lparr>info_handle := nullptr\<rparr>) c))"

definition net_io_await_ready :: bool where
  "net_io_await_ready = False"

definition net_io_await_suspend :: "addr \<Rightarrow> handle \<Rightarrow> ('q, 'v) coro_context \<Rightarrow> ('q, 'v) coro_context" where
  "net_io_await_suspend a h c = upd_info a (\<lambda>i. i\<lparr>info_handle := h\<rparr>) c"

definition net_io_await_resume :: "addr \<Rightarrow> ('q, 'v) coro_context \<Rightarrow> 32 word" where
  "net_io_await_resume a c = info_result (infos c a)"

definition net_noop_awaiter ::
    "addr \<Rightarrow> addr \<Rightarrow> io_info \<Rightarrow> ('q, 'v) coro_context \<Rightarrow> ('q, 'v) coro_context res" where
  "net_noop_awaiter urs a raw c =
     bindE (net_base_io_awaiter urs a raw c) (\<lambda>c0.
       let c1 = upd_info a (\<lambda>i. i\<lparr>info_type := Io_nop, info_cb := Noop_callback\<rparr>) c0;
           c2 = sqe_call (Sqe_prep Prep_nop) c1;
           c3 = sqe_call (Sqe_set_data a) c2 in
       Inr (count_submit c3))"

definition net_noop_callback ::
    "'q queue_ops \<Rightarrow> addr \<Rightarrow> 32 word \<Rightarrow> ('q, 'v) coro_context \<Rightarrow> ('q, 'v) coro_context res" where
  "net_noop_callback Q data res c =
     (let c1 = upd_info data (\<lambda>i. i\<lparr>info_result := res\<rparr>) c in
      submit_to_context Q (info_handle (infos c1 data)) c1)"

definition net_tcp_accept_awaiter ::
    "32 word \<Rightarrow> 32 word \<Rightarrow> 32 word \<Rightarrow> addr \<Rightarrow> addr \<Rightarrow> io_info \<Rightarrow>
     ('q, 'v) coro_context \<Rightarrow> ('q, 'v) coro_context res" where
  "net_tcp_accept_awaiter listenfd io_flags sqe_flag urs a raw c =
     bindE (net_base_io_awaiter urs a raw c) (\<lambda>c0.
       let c1 = upd_info a (\<lambda>i. i\<lparr>info_type := Io_tcp_accept, info_cb := Accept_callback\<rparr>) c0;
           c2 = sqe_call (Sqe_set_flags sqe_flag) c1;
           c3 = sqe_call (Sqe_prep (Prep_accept listenfd nullptr io_flags)) c2;
           c4 = sqe_call (Sqe_set_data a) c3 in
       Inr (count_submit c4))"

definition net_tcp_accept_callback ::
    "'q queue_ops \<Rightarrow> addr \<Rightarrow> 32 word \<Rightarrow> ('q, 'v) coro_context \<Rightarrow> ('q, 'v) coro_context res" where
  "net_tcp_accept_callback Q data res c =
     (let c1 = upd_info data (\<lambda>i. i\<lparr>info_result := res\<rparr>) c in
      submit_to_context Q (info_handle (infos c1 data)) c1)"

definition net_tcp_read_awaiter ::
    "32 word \<Rightarrow> addr \<Rightarrow> u64 \<Rightarrow> 32 word \<Rightarrow> 32 word \<Rightarrow> addr \<Rightarrow> addr \<Rightarrow> io_info \<Rightarrow>
     ('q, 'v) coro_context \<Rightarrow> ('q, 'v) coro_context res" where
  "net_tcp_read_awaiter sockfd buf len io_flags sqe_flag urs a raw c =
     bindE (net_base_io_awaiter urs a raw c) (\<lambda>c0.
       let c1 = upd_info a (\<lambda>i. i\<lparr>info_type := Io_tcp_read, info_cb := Read_callback\<rparr>) c0;
           c2 = sqe_call (Sqe_set_flags sqe_flag) c1;
           c3 = sqe_call (Sqe_prep (Prep_recv sockfd buf len io_flags)) c2;
           c4 = sqe_call (Sqe_set_data a) c3 in
       Inr (count_submit c4))"

definition net_tcp_read_callback ::
    "'q queue_ops \<Rightarrow> addr \<Rightarrow> 32 word \<Rightarrow> ('q, 'v) coro_context \<Rightarrow> ('q, 'v) coro_context res" where
  "net_tcp_read_callback Q data res c =
     (let c1 = upd_info data (\<lambda>i. i\<lparr>info_result := res\<rparr>) c in
      submit_to_context Q (info_handle (infos c1 data)) c1)"

definition net_tcp_write_awaiter ::
    "32 word \<Rightarrow> addr \<Rightarrow> u64 \<Rightarrow> 32 word \<Rightarrow> 32 word \<Rightarrow> addr \<Rightarrow> addr \<Rightarrow> io_info \<Rightarrow>
     ('q, 'v) coro_context \<Rightarrow> ('q, 'v) coro_context res" where
  "net_tcp_write_awaiter sockfd buf len io_flags sqe_flag urs a raw c =
     bindE (net_base_io_awaiter urs a raw c) (\<lambda>c0.
       let c1 = upd_info a (\<lambda>i. i\<lparr>info_type := Io_tcp_write, info_cb := Write_callback\<rparr>) c0;
           c2 = sqe_call (Sqe_set_flags sqe_flag) c1;
           c3 = sqe_call (Sqe_prep (Prep_send sockfd buf len io_flags)) c2;
           c4 = sqe_call (Sqe_set_data a) c3 in
       Inr (count_submit c4))"

definition net_tcp_write_callback ::
    "'q queue_ops \<Rightarrow> addr \<Rightarrow> 32 word \<Rightarrow> ('q, 'v) coro_context \<Rightarrow> ('q, 'v) coro_context res" where
  "net_tcp_write_callback Q data res c =
     (let c1 = upd_info data (\<lambda>i. i\<lparr>info_result := res\<rparr>) c in
      submit_to_context Q (info_handle (infos c1 data)) c1)"

definition net_tcp_close_awaiter ::
    "32 word \<Rightarrow> addr \<Rightarrow> addr \<Rightarrow> io_info \<Rightarrow> ('q, 'v) coro_context \<Rightarrow> ('q, 'v) coro_context res" where
  "net_tcp_close_awaiter sockfd urs a raw c =
     bindE (net_base_io_awaiter urs a raw c) (\<lambda>c0.
       let c1 = upd_info a (\<lambda>i. i\<lparr>info_type := Io_tcp_close, info_cb := Close_callback\<rparr>) c0;
           c2 = sqe_call (Sqe_prep (Prep_close sockfd)) c1;
           c3 = sqe_call (Sqe_set_data a) c2 in
       Inr (count_submit c3))"

definition net_tcp_close_callback ::
    "'q queue_ops \<Rightarrow> addr \<Rightarrow> 32 word \<Rightarrow> ('q, 'v) coro_context \<Rightarrow> ('q, 'v) coro_context res" where
  "net_tcp_close_callback Q data res c =
     (let c1 = upd_info data (\<lambda>i. i\<lparr>info_result := res\<rparr>) c in
      submit_to_context Q (info_handle (infos c1 data)) c1)"

definition net_tcp_connect_awaiter ::
    "32 word \<Rightarrow> 16 word \<times> 16 word \<times> 32 word \<Rightarrow> 32 word \<Rightarrow> addr \<Rightarrow> addr \<Rightarrow> io_info \<Rightarrow>
     ('q, 'v) coro_context \<Rightarrow> ('q, 'v) coro_context res" where
  "net_tcp_connect_awaiter sockfd sa addrlen urs a raw c =
     bindE (net_base_io_awaiter urs a raw c) (\<lambda>c0.
       let c1 = upd_info a (\<lambda>i. i\<lparr>info_type := Io_tcp_connect, info_cb := Connect_callback,
                  info_data := CASTDATA sockfd\<rparr>) c0;
           c2 = sqe_call (Sqe_prep (Prep_connect sockfd sa addrlen)) c1;
           c3 = sqe_call (Sqe_set_data a) c2 in
       Inr (count_submit c3))"

definition net_tcp_connect_callback ::
    "'q queue_ops \<Rightarrow> addr \<Rightarrow> 32 word \<Rightarrow> ('q, 'v) coro_context \<Rightarrow> ('q, 'v) coro_context res" where
  "net_tcp_connect_callback Q data res c =
     (let c1 = (if res \<noteq> 0 then upd_info data (\<lambda>i. i\<lparr>info_result := res\<rparr>) c
                else upd_info data (\<lambda>i. i\<lparr>info_result := ucast (info_data i)\<rparr>) c) in
      submit_to_context Q (info_handle (infos c1 data)) c1)"

definition net_stdin_awaiter ::
    "addr \<Rightarrow> u64 \<Rightarrow> 32 word \<Rightarrow> 32 word \<Rightarrow> addr \<Rightarrow> addr \<Rightarrow> io_info \<Rightarrow>
     ('q, 'v) coro_context \<Rightarrow> ('q, 'v) coro_context res" where
  "net_stdin_awaiter buf len io_flags sqe_flag urs a raw c =
     bindE (net_base_io_awaiter urs a raw c) (\<lambda>c0.
       let c1 = upd_info a (\<lambda>i. i\<lparr>info_type := Io_stdin, info_cb := Stdin_callback\<rparr>) c0;
           c2 = sqe_call (Sqe_set_flags sqe_flag) c1;
           c3 = sqe_call (Sqe_prep (Prep_read STDIN_FILENO buf (ucast len) (scast io_flags))) c2;
           c4 = sqe_call (Sqe_set_data a) c3 in
       Inr (count_submit c4))"

definition net_stdin_callback ::
    "'q queue_ops \<Rightarrow> addr \<Rightarrow> 32 word \<Rightarrow> ('q, 'v) coro_context \<Rightarrow> ('q, 'v) coro_context res" where
  "net_stdin_callback Q data res c =
     (let c1 = upd_info data (\<lambda>i. i\<lparr>info_result := res\<rparr>) c in
      submit_to_context Q (info_handle (infos c1 data)) c1)"

section \<open>Fixed descriptors\<close>

definition net_fixed_fds_ctor :: "bool \<Rightarrow> uring_proxy \<Rightarrow> item \<times> uring_proxy" where
  "net_fixed_fds_ctor fixfd p = get_fixed_fd fixfd p"

definition net_fixed_fds_assign ::
    "bool \<Rightarrow> int \<Rightarrow> item \<Rightarrow> int \<Rightarrow> 32 word \<Rightarrow> uring_proxy \<Rightarrow> (int \<times> 32 word \<times> uring_proxy) res" where
  "net_fixed_fds_assign fixfd answer it fd flag p =
     (if \<not> item_valid it then Inr (fd, flag, p)
      else bindE (update_register_fixed_fds fixfd answer (set_fd_slot (idx it) fd p))
             (\<lambda>p1. Inr (idx it, flag OR IOSQE_FIXED_FILE, p1)))"

definition net_fixed_fds_return_back :: "bool \<Rightarrow> int \<Rightarrow> item \<Rightarrow> uring_proxy \<Rightarrow> (item \<times> uring_proxy) res" where
  "net_fixed_fds_return_back fixfd answer it p =
     (if item_valid it then
        bindE (back_fixed_fd fixfd answer it p) (\<lambda>p1. Inr (set_invalid it, p1))
      else Inr (it, p))"

section \<open>TCP\<close>

definition net_tcp_connector_ctor ::
    "bool \<Rightarrow> int \<Rightarrow> int \<Rightarrow> ('q, 'v) coro_context \<Rightarrow> (tcp_connector \<times> ('q, 'v) coro_context) res" where
  "net_tcp_connector_ctor fixfd answer sockfd c =
     (case net_fixed_fds_ctor fixfd (uring_of c) of (it, p) \<Rightarrow>
        bindE (net_fixed_fds_assign fixfd answer it sockfd 0 p) (\<lambda>(fd, flag, p1).
          Inr (\<lparr>m_sockfd = fd, m_original_fd = sockfd, m_fixed_fd = it, m_sqe_flag = flag\<rparr>,
               with_uring p1 c)))"

definition net_connector_read ::
    "tcp_connector \<Rightarrow> addr \<Rightarrow> u64 \<Rightarrow> 32 word \<Rightarrow> addr \<Rightarrow> addr \<Rightarrow> io_info \<Rightarrow>
     ('q, 'v) coro_context \<Rightarrow> ('q, 'v) coro_context res" where
  "net_connector_read k buf len io_flags urs a raw c =
     net_tcp_read_awaiter (word_of_int (m_sockfd k)) buf len io_flags (m_sqe_flag k) urs a raw c"

definition net_connector_write ::
    "tcp_connector \<Rightarrow> addr \<Rightarrow> u64 \<Rightarrow> 32 word \<Rightarrow> addr \<Rightarrow> addr \<Rightarrow> io_info \<Rightarrow>
     ('q, 'v) coro_context \<Rightarrow> ('q, 'v) coro_context res" where
  "net_connector_write k buf len io_flags urs a raw c =
     net_tcp_write_awaiter (word_of_int (m_sockfd k)) buf len io_flags (m_sqe_flag k) urs a raw c"

definition net_connector_close ::
    "bool \<Rightarrow> int \<Rightarrow> tcp_connector \<Rightarrow> addr \<Rightarrow> addr \<Rightarrow> io_info \<Rightarrow>
     ('q, 'v) coro_context \<Rightarrow> (tcp_connector \<times> ('q, 'v) coro_context) res" where
  "net_connector_close fixfd answer k urs a raw c =
     bindE (net_fixed_fds_return_back fixfd answer (m_fixed_fd k) (uring_of c)) (\<lambda>(it, p).
     bindE (net_tcp_close_awaiter (word_of_int (m_original_fd k)) urs a raw (with_uring p c)) (\<lambda>c1.
       Inr (k\<lparr>m_fixed_fd := it\<rparr>, c1)))"

definition net_tcp_connector_dtor ::
    "bool \<Rightarrow> int \<Rightarrow> tcp_connector \<Rightarrow> ('q, 'v) coro_context \<Rightarrow> ('q, 'v) coro_context res" where
  "net_tcp_connector_dtor fixfd answer k c =
     bindE (net_fixed_fds_return_back fixfd answer (m_fixed_fd k) (uring_of c)) (\<lambda>(it, p).
       Inr (with_uring p c))"

definition net_resolve_addr :: "net_answers \<Rightarrow> string option \<Rightarrow> 32 word res" where
  "net_resolve_addr ans sa =
     (case sa of
        Some s \<Rightarrow>
          if fst (ans_pton ans) < 0 then Inl Exit_failure
          else Inr (if fst (ans_pton ans) = 1 then snd (ans_pton ans) else 0)
      | None \<Rightarrow> Inr INADDR_ANY)"

definition net_tcp_server_ctor ::
    "bool \<Rightarrow> int \<Rightarrow> net_answers \<Rightarrow> string option \<Rightarrow> 32 word \<Rightarrow>
     ('q, 'v) coro_context \<Rightarrow> (tcp_server \<times> ('q, 'v) coro_context) res" where
  "net_tcp_server_ctor fixfd answer ans sa port c =
     (case net_fixed_fds_ctor fixfd (uring_of c) of (it, p) \<Rightarrow>
        bindE (assertE (ans_socket ans \<noteq> -1)) (\<lambda>_.
        bindE (net_resolve_addr ans sa) (\<lambda>ip.
          let servaddr = (AF_INET, htons (ucast port), ip) in
          if ans_bind ans \<noteq> 0 then Inl Exit_failure
          else if ans_listen ans \<noteq> 0 then Inl Exit_failure
          else bindE (net_fixed_fds_assign fixfd answer it (ans_socket ans) 0 p) (\<lambda>(fd, flag, p1).
            Inr (\<lparr>m_listenfd = fd, m_servaddr = servaddr, srv_fixed_fd = it, srv_sqe_flag = flag\<rparr>,
                 with_uring p1 c)))))"

definition net_tcp_server_port_ctor ::
    "bool \<Rightarrow> int \<Rightarrow> net_answers \<Rightarrow> 32 word option \<Rightarrow>
     ('q, 'v) coro_context \<Rightarrow> (tcp_server \<times> ('q, 'v) coro_context) res" where
  "net_tcp_server_port_ctor fixfd answer ans port c =
     net_tcp_server_ctor fixfd answer ans None (case port of None \<Rightarrow> kDefaultPort | Some p \<Rightarrow> p) c"

definition net_server_accept ::
    "tcp_server \<Rightarrow> 32 word \<Rightarrow> addr \<Rightarrow> addr \<Rightarrow> io_info \<Rightarrow> ('q, 'v) coro_context \<Rightarrow> ('q, 'v) coro_context res" where
  "net_server_accept srv io_flags urs a raw c =
     net_tcp_accept_awaiter (word_of_int (m_listenfd srv)) io_flags (srv_sqe_flag srv) urs a raw c"

definition net_tcp_client_ctor :: "net_answers \<Rightarrow> string option \<Rightarrow> 32 word \<Rightarrow> tcp_client res" where
  "net_tcp_client_ctor ans sa port =
     (if ans_socket ans < 0 then Inl Exit_failure
      else bindE (net_resolve_addr ans sa) (\<lambda>ip.
        Inr \<lparr>m_clientfd = ans_socket ans, cli_servaddr = (AF_INET, htons (ucast port), ip)\<rparr>))"

definition net_client_connect ::
    "tcp_client \<Rightarrow> addr \<Rightarrow> addr \<Rightarrow> io_info \<Rightarrow> ('q, 'v) coro_context \<Rightarrow> ('q, 'v) coro_context res" where
  "net_client_connect cl urs a raw c =
     net_tcp_connect_awaiter (word_of_int (m_clientfd cl)) (cli_servaddr cl) 16 urs a raw c"

section \<open>The copies agree\<close>

lemmas net_awaiter_defs =
  net_base_io_awaiter_def base_io_awaiter_def
  net_io_await_suspend_def io_await_suspend_def
  net_io_await_resume_def io_await_resume_def
  net_noop_awaiter_def noop_awaiter_def
  net_noop_callback_def noop_callback_def
  net_tcp_accept_awaiter_def tcp_accept_awaiter_def
  net_tcp_accept_callback_def tcp_accept_callback_def
  net_tcp_read_awaiter_def tcp_read_awaiter_def
  net_tcp_read_callback_def tcp_read_callback_def
  net_tcp_write_awaiter_def tcp_write_awaiter_def
  net_tcp_write_callback_def tcp_write_callback_def
  net_tcp_close_awaiter_def tcp_close_awaiter_def
  net_tcp_close_callback_def tcp_close_callback_def
  net_tcp_connect_awaiter_def tcp_connect_awaiter_def
  net_tcp_connect_callback_def tcp_connect_callback_def
  net_stdin_awaiter_def stdin_awaiter_def
  net_stdin_callback_def stdin_callback_def

lemmas net_tcp_defs =
  net_tcp_connector_ctor_def tcp_connector_ctor_def
  net_connector_read_def connector_read_def
  net_connector_write_def connector_write_def
  net_connector_close_def connector_close_def
  net_tcp_connector_dtor_def tcp_connector_dtor_def
  net_tcp_server_ctor_def tcp_server_ctor_def
  net_server_accept_def server_accept_def
  net_tcp_client_ctor_def tcp_client_ctor_def
  net_client_connect_def client_connect_def

fun net_start_io ::
    "io_request \<Rightarrow> addr \<Rightarrow> addr \<Rightarrow> io_info \<Rightarrow> ('q, 'v) coro_context \<Rightarrow> ('q, 'v) coro_context res" where
  "net_start_io Req_noop = net_noop_awaiter"
| "net_start_io (Req_stdin buf len f g) = net_stdin_awaiter buf len f g"
| "net_start_io (Req_accept fd f g) = net_tcp_accept_awaiter fd f g"
| "net_start_io (Req_read fd buf len f g) = net_tcp_read_awaiter fd buf len f g"
| "net_start_io (Req_write fd buf len f g) = net_tcp_write_awaiter fd buf len f g"
| "net_start_io (Req_close fd) = net_tcp_close_awaiter fd"
| "net_start_io (Req_connect fd sa len) = net_tcp_connect_awaiter fd sa len"
| "net_start_io (Req_timer t) = timer_co_await t"

fun net_invoke_cb ::
    "'q queue_ops \<Rightarrow> io_callback \<Rightarrow> addr \<Rightarrow> 32 word \<Rightarrow> ('q, 'v) coro_context \<Rightarrow> ('q, 'v) coro_context res" where
  "net_invoke_cb Q Noop_callback = net_noop_callback Q"
| "net_invoke_cb Q Stdin_callback = net_stdin_callback Q"
| "net_invoke_cb Q Accept_callback = net_tcp_accept_callback Q"
| "net_invoke_cb Q Read_callback = net_tcp_read_callback Q"
| "net_invoke_cb Q Write_callback = net_tcp_write_callback Q"
| "net_invoke_cb Q Close_callback = net_tcp_close_callback Q"
| "net_invoke_cb Q Connect_callback = net_tcp_connect_callback Q"
| "net_invoke_cb Q Timer_callback = timer_callback Q"

lemma net_base_agrees: "net_base_io_awaiter = base_io_awaiter"
  by (intro ext) (simp add: net_base_io_awaiter_def base_io_awaiter_def)

lemma net_awaiters_agree:
  "net_tcp_read_awaiter = tcp_read_awaiter"
  "net_tcp_write_awaiter = tcp_write_awaiter"
  "net_tcp_close_awaiter = tcp_close_awaiter"
  "net_tcp_accept_awaiter = tcp_accept_awaiter"
  "net_tcp_connect_awaiter = tcp_connect_awaiter"
  by (intro ext, simp add: net_awaiter_defs net_base_agrees)+

lemma net_parts_agree:
  "net_fixed_fds_ctor = fixed_fds_ctor"
  "net_fixed_fds_assign = fixed_fds_assign"
  "net_fixed_fds_return_back = fixed_fds_return_back"
  "net_resolve_addr = resolve_addr"
  by (intro ext, simp add: net_fixed_fds_ctor_def fixed_fds_ctor_def net_fixed_fds_assign_def fixed_fds_assign_def
      net_fixed_fds_return_back_def fixed_fds_return_back_def net_resolve_addr_def resolve_addr_def)+

lemma net_start_agrees: "net_start_io r urs a raw c = start_io r urs a raw c"
  by (cases r) (simp_all add: net_awaiter_defs net_base_agrees)

lemma net_invoke_agrees: "net_invoke_cb Q cb a res c = invoke_cb Q cb a res c"
  by (cases cb) (simp_all add: net_awaiter_defs)

lemma net_invoke_eq: "net_invoke_cb Q = invoke_cb Q"
  by (intro ext) (rule net_invoke_agrees)

section \<open>Properties\<close>

text \<open>
  C27. The two copies of the network code behave alike: requests, callbacks, polling with the callbacks
  of \<open>coro::net\<close>, connections, servers and clients of one namespace do exactly what those of the
  other do, so everything proved of \<open>coro::io\<close> holds of \<open>coro::net\<close>.
\<close>

theorem net_copy_agrees:
  "(\<forall>r. net_start_io r urs a raw c = start_io r urs a raw c) \<and>
   poll_submit (net_invoke_cb Q) cnt cqes c = poll_submit (invoke_cb Q) cnt cqes c \<and>
   net_tcp_connector_ctor fixfd answer sockfd c = tcp_connector_ctor fixfd answer sockfd c \<and>
   net_connector_read k buf len f urs a raw c = connector_read k buf len f urs a raw c \<and>
   net_connector_write k buf len f urs a raw c = connector_write k buf len f urs a raw c \<and>
   net_connector_close fixfd answer k urs a raw c = connector_close fixfd answer k urs a raw c \<and>
   net_tcp_connector_dtor fixfd answer k c = tcp_connector_dtor fixfd answer k c \<and>
   net_tcp_server_ctor fixfd answer ans sa port c = tcp_server_ctor fixfd answer ans sa port c \<and>
   net_server_accept srv f urs a raw c = server_accept srv f urs a raw c \<and>
   net_tcp_client_ctor ans sa port = tcp_client_ctor ans sa port \<and>
   net_client_connect cl urs a raw c = client_connect cl urs a raw c"
proof (intro conjI allI)
  show "net_start_io r urs a raw c = start_io r urs a raw c" for r by (rule net_start_agrees)
  show "poll_submit (net_invoke_cb Q) cnt cqes c = poll_submit (invoke_cb Q) cnt cqes c"
    by (simp only: net_invoke_eq)
qed (simp_all only: net_tcp_defs net_parts_agree net_awaiters_agree)

end
