(* ===== verification/Scheduler_Race.thy ===== *)
theory Scheduler_Race
  imports Scheduler
begin

text \<open>
  The stop protocol of the scheduler (src/scheduler.cpp) and the worker threads that take part in
  it (src/context.cpp), interleaved at the level of the single atomic operations: the assertion of
  \<open>submit_task_impl\<close>, the dispatch, the two read-modify-writes of the flag and of the token, the
  push into the queue, the tests of the worker loop, the two read-modify-writes of the stop callback
  and each notification of \<open>stop_impl\<close>. Tasks submit other tasks and end; coroutines that wait and
  I/O are left out, so \<open>empty_wait_work\<close> holds throughout.
\<close>

section \<open>State\<close>

text \<open>
  Where a worker thread is: at the start of its loop, working off its tasks, running one, inside a
  submission of that task, behind the stop test, behind the idle tests, inside the stop callback,
  polling, or out of the loop; in \<open>K_abort\<close> the assertion of a submission has failed.
\<close>

datatype worker =
    K_loop
  | K_work
  | K_exec
  | K_submit handle
  | K_dispatched handle nat
  | K_flagged handle nat int
  | K_push handle nat
  | K_abort
  | K_stop_seen
  | K_go_on
  | K_not_stopped
  | K_idle
  | K_cleared int
  | K_stopping nat
  | K_poll
  | K_exit

record sched =
  n_ctx :: nat
  worker_at :: "nat \<Rightarrow> worker"
  left_of :: "nat \<Rightarrow> nat"
  tasks_of :: "nat \<Rightarrow> handle list"
  woken :: "nat \<Rightarrow> bool"
  stop_of :: "nat \<Rightarrow> bool"
  flag_of :: "nat \<Rightarrow> int"
  token :: int
  next_ctx :: nat

abbreviation at :: "nat \<Rightarrow> worker \<Rightarrow> sched \<Rightarrow> sched" where
  "at i k s \<equiv> s\<lparr>worker_at := (worker_at s)(i := k)\<rparr>"

section \<open>Steps\<close>

text \<open>
  A step of worker \<open>i\<close>. What the running task does next is the argument: submit a task, or end.
  A worker that cannot move (polling with nothing to read) stays where it is.
\<close>

datatype task_act = Submits handle | Ends

text \<open>\<open>submit_task_impl\<close>, from its assertion to the push.\<close>

definition submit_part :: "nat \<Rightarrow> handle \<Rightarrow> sched \<Rightarrow> sched" where
  "submit_part i h0 s =
     (case worker_at s i of
        K_exec \<Rightarrow> at i (if token s \<noteq> 0 then K_submit h0 else K_abort) s
      | K_submit h \<Rightarrow> at i (K_dispatched h (next_ctx s mod n_ctx s)) (s\<lparr>next_ctx := next_ctx s + 1\<rparr>)
      | K_dispatched h j \<Rightarrow> at i (K_flagged h j (flag_of s j)) (s\<lparr>flag_of := (flag_of s)(j := 1)\<rparr>)
      | K_flagged h j old \<Rightarrow> at i (K_push h j) (s\<lparr>token := token s + (1 - old)\<rparr>)
      | K_push h j \<Rightarrow> at i K_exec
          (s\<lparr>tasks_of := (tasks_of s)(j := tasks_of s j @ [h]), woken := (woken s)(j := True)\<rparr>)
      | _ \<Rightarrow> s)"

text \<open>The stop callback that \<open>start_impl\<close> installs, with \<open>stop_impl\<close>.\<close>

definition callback_part :: "nat \<Rightarrow> sched \<Rightarrow> sched" where
  "callback_part i s =
     (case worker_at s i of
        K_idle \<Rightarrow> at i (K_cleared (flag_of s i)) (s\<lparr>flag_of := (flag_of s)(i := 0)\<rparr>)
      | K_cleared cnt \<Rightarrow>
          at i (if token s = cnt then K_stopping 0 else K_poll) (s\<lparr>token := token s - cnt\<rparr>)
      | K_stopping j \<Rightarrow>
          if j < n_ctx s
          then at i (K_stopping (Suc j)) (s\<lparr>stop_of := (stop_of s)(j := True), woken := (woken s)(j := True)\<rparr>)
          else at i K_poll s
      | _ \<Rightarrow> s)"

text \<open>The loop of \<open>context::run\<close>, with \<open>process_work\<close>.\<close>

definition loop_part :: "nat \<Rightarrow> sched \<Rightarrow> sched" where
  "loop_part i s =
     (case worker_at s i of
        K_loop \<Rightarrow> at i K_work (s\<lparr>left_of := (left_of s)(i := length (tasks_of s i))\<rparr>)
      | K_work \<Rightarrow>
          if left_of s i = 0 then at i (if stop_of s i then K_stop_seen else K_go_on) s
          else (case tasks_of s i of
             [] \<Rightarrow> s
           | h # q \<Rightarrow> at i K_exec (s\<lparr>tasks_of := (tasks_of s)(i := q), left_of := (left_of s)(i := left_of s i - 1)\<rparr>))
      | K_stop_seen \<Rightarrow> at i (if tasks_of s i = [] then K_exit else K_loop) s
      | K_go_on \<Rightarrow> at i (if stop_of s i then K_poll else K_not_stopped) s
      | K_not_stopped \<Rightarrow> at i (if tasks_of s i = [] then K_idle else K_poll) s
      | K_poll \<Rightarrow> if woken s i then at i K_loop (s\<lparr>woken := (woken s)(i := False)\<rparr>) else s
      | _ \<Rightarrow> s)"

definition worker_step :: "nat \<Rightarrow> task_act \<Rightarrow> sched \<Rightarrow> sched" where
  "worker_step i act s =
     (case worker_at s i of
        K_exec \<Rightarrow> (case act of Ends \<Rightarrow> at i K_work s | Submits h \<Rightarrow> submit_part i h s)
      | K_submit h \<Rightarrow> submit_part i h s
      | K_dispatched h j \<Rightarrow> submit_part i h s
      | K_flagged h j old \<Rightarrow> submit_part i h s
      | K_push h j \<Rightarrow> submit_part i h s
      | K_idle \<Rightarrow> callback_part i s
      | K_cleared cnt \<Rightarrow> callback_part i s
      | K_stopping j \<Rightarrow> callback_part i s
      | K_abort \<Rightarrow> s
      | K_exit \<Rightarrow> s
      | _ \<Rightarrow> loop_part i s)"

lemmas worker_defs = worker_step_def submit_part_def callback_part_def loop_part_def

fun sched_run :: "(nat \<times> task_act) list \<Rightarrow> sched \<Rightarrow> sched" where
  "sched_run [] s = s"
| "sched_run ((i, act) # xs) s = sched_run xs (worker_step i act s)"

text \<open>
  After \<open>init_impl\<close> and \<open>start_impl\<close>: every flag is 1 and the token is the number of contexts;
  tasks submitted before are in the queues.
\<close>

definition sched_start :: "sched \<Rightarrow> bool" where
  "sched_start s \<longleftrightarrow>
     0 < n_ctx s \<and> (\<forall>i. worker_at s i = K_loop) \<and> (\<forall>i. flag_of s i = 1) \<and> token s = int (n_ctx s)"

section \<open>The balance of the token\<close>

text \<open>What an operation in flight still owes to the token.\<close>

fun owed :: "worker \<Rightarrow> int" where
  "owed (K_flagged h j old) = old - 1"
| "owed (K_cleared cnt) = cnt"
| "owed _ = 0"

fun worker_ok :: "nat \<Rightarrow> worker \<Rightarrow> bool" where
  "worker_ok n (K_dispatched h j) \<longleftrightarrow> j < n"
| "worker_ok n (K_flagged h j old) \<longleftrightarrow> j < n \<and> old \<in> {0, 1}"
| "worker_ok n (K_cleared cnt) \<longleftrightarrow> cnt \<in> {0, 1}"
| "worker_ok n _ \<longleftrightarrow> True"

definition sched_inv :: "sched \<Rightarrow> bool" where
  "sched_inv s \<longleftrightarrow>
     0 < n_ctx s \<and>
     token s = (\<Sum>i<n_ctx s. flag_of s i) + (\<Sum>i<n_ctx s. owed (worker_at s i)) \<and>
     (\<forall>i. flag_of s i \<in> {0, 1}) \<and> (\<forall>i. worker_ok (n_ctx s) (worker_at s i))"

lemma sum_upd:
  fixes f :: "nat \<Rightarrow> int" and i n :: nat
  assumes "i < n"
  shows "(\<Sum>j<n. (f(i := v)) j) = (\<Sum>j<n. f j) + (v - f i)"
proof -
  have "(\<Sum>j<n. (f(i := v)) j) = v + (\<Sum>j\<in>{..<n} - {i}. f j)"
    using assms by (subst sum.remove [of "{..<n}" i]) (auto intro: sum.cong)
  moreover have "(\<Sum>j<n. f j) = f i + (\<Sum>j\<in>{..<n} - {i}. f j)"
    using assms by (subst sum.remove [of "{..<n}" i]) auto
  ultimately show ?thesis by simp
qed

lemma sum_owed:
  fixes i n :: nat
  assumes "i < n"
  shows "(\<Sum>j<n. owed ((w(i := k)) j)) = (\<Sum>j<n. owed (w j)) + (owed k - owed (w i))"
proof -
  have "(\<lambda>j. owed ((w(i := k)) j)) = (\<lambda>j. owed (w j))(i := owed k)" by auto
  then show ?thesis using sum_upd [OF assms, of "\<lambda>j. owed (w j)" "owed k"] by (simp only:)
qed

text \<open>One rule for all steps: what a worker changes and what it owes afterwards balance.\<close>

lemma sched_inv_step:
  assumes "sched_inv s" and "i < n_ctx s" "j < n_ctx s" and "worker_ok (n_ctx s) k" "v \<in> {0, 1}"
    and "n_ctx s' = n_ctx s" "worker_at s' = (worker_at s)(i := k)" "flag_of s' = (flag_of s)(j := v)"
    and "token s' - token s = (v - flag_of s j) + (owed k - owed (worker_at s i))"
  shows "sched_inv s'"
  using assms sum_upd [OF assms(3), of "flag_of s" v] sum_owed [OF assms(2), of "worker_at s" k]
  unfolding sched_inv_def by auto

lemma sched_inv_move:
  assumes "sched_inv s" and "i < n_ctx s" and "worker_ok (n_ctx s) k"
    and "n_ctx s' = n_ctx s" "worker_at s' = (worker_at s)(i := k)" "flag_of s' = flag_of s"
    and "token s' - token s = owed k - owed (worker_at s i)"
  shows "sched_inv s'"
  by (rule sched_inv_step [OF assms(1,2,2,3), where v = "flag_of s i"])
     (use assms in \<open>auto simp: sched_inv_def\<close>)

lemma worker_step_inv:
  assumes I: "sched_inv s" and i: "i < n_ctx s"
  shows "sched_inv (worker_step i act s) \<and> n_ctx (worker_step i act s) = n_ctx s"
proof -
  have ok: "worker_ok (n_ctx s) (worker_at s i)" and fl: "flag_of s i \<in> {0, 1}" for i
    using I by (auto simp: sched_inv_def)
  note move = sched_inv_move [OF I i]
  show ?thesis
  proof (cases "worker_at s i")
    case (K_dispatched h j)
    then have j: "j < n_ctx s" using ok [of i] by simp
    have "sched_inv (at i (K_flagged h j (flag_of s j)) (s\<lparr>flag_of := (flag_of s)(j := 1)\<rparr>))"
      by (rule sched_inv_step [OF I i j, of "K_flagged h j (flag_of s j)" 1])
         (use j fl [of j] K_dispatched in auto)
    with K_dispatched show ?thesis by (simp add: worker_defs)
  next
    case K_idle
    have "sched_inv (at i (K_cleared (flag_of s i)) (s\<lparr>flag_of := (flag_of s)(i := 0)\<rparr>))"
      by (rule sched_inv_step [OF I i i, of "K_cleared (flag_of s i)" 0])
         (use fl [of i] K_idle in auto)
    with K_idle show ?thesis by (simp add: worker_defs)
  next
    case (K_flagged h j old)
    have "sched_inv (at i (K_push h j) (s\<lparr>token := token s + (1 - old)\<rparr>))"
      by (rule move [of "K_push h j"]) (use K_flagged in auto)
    with K_flagged show ?thesis by (simp add: worker_defs)
  next
    case (K_cleared cnt)
    let ?k = "if token s = cnt then K_stopping 0 else K_poll"
    have "sched_inv (at i ?k (s\<lparr>token := token s - cnt\<rparr>))"
      by (rule move [of ?k]) (use K_cleared in auto)
    with K_cleared show ?thesis by (simp add: worker_defs)
  next
    case K_work
    then show ?thesis using I
      by (auto simp: worker_defs split: list.splits intro: move [of K_exec] move [of K_stop_seen] move [of K_go_on])
  next
    case K_exec
    then show ?thesis
      by (auto simp: worker_defs split: task_act.splits intro: move [of K_work] move [of "K_submit _"] move [of K_abort])
  next
    case (K_submit h)
    have "0 < n_ctx s" using I by (simp add: sched_inv_def)
    then have "sched_inv (at i (K_dispatched h (next_ctx s mod n_ctx s)) (s\<lparr>next_ctx := next_ctx s + 1\<rparr>))"
      by (intro move [of "K_dispatched h (next_ctx s mod n_ctx s)"]) (use K_submit in auto)
    with K_submit show ?thesis by (simp add: worker_defs)
  qed (use I in \<open>auto simp: worker_defs intro: move [of K_work] move [of K_exec] move [of K_exit]
        move [of K_loop] move [of K_poll] move [of K_not_stopped] move [of K_idle] move [of "K_stopping _"]\<close>)
qed

lemma sched_run_inv:
  "sched_inv s \<Longrightarrow> \<forall>(i, act) \<in> set xs. i < n_ctx s \<Longrightarrow> sched_inv (sched_run xs s) \<and> n_ctx (sched_run xs s) = n_ctx s"
proof (induction xs arbitrary: s)
  case Nil
  then show ?case by simp
next
  case (Cons x xs)
  obtain i act where x: "x = (i, act)" by (cases x)
  have "sched_inv (worker_step i act s) \<and> n_ctx (worker_step i act s) = n_ctx s"
    by (rule worker_step_inv) (use Cons.prems x in auto)
  with Cons.IH [of "worker_step i act s"] Cons.prems show ?case by (auto simp: x)
qed

lemma sched_start_inv: "sched_start s \<Longrightarrow> sched_inv s"
  by (simp add: sched_start_def sched_inv_def)

lemma sum_of_flags:
  fixes f :: "nat \<Rightarrow> int"
  shows "(\<And>i. f i \<in> {0, 1}) \<Longrightarrow> (\<Sum>i<n. f i) = int (card {i. i < n \<and> f i = 1})"
proof (induction n)
  case (Suc n)
  have "{i. i < Suc n \<and> f i = 1} = {i. i < n \<and> f i = 1} \<union> (if f n = 1 then {n} else {})"
    by (auto simp: less_Suc_eq)
  moreover have "finite {i. i < n \<and> f i = 1}" by simp
  ultimately show ?case using Suc Suc.prems [of n] by (auto simp: card_insert_if)
qed simp

section \<open>Properties\<close>

text \<open>
  C19. The stop token counts the busy contexts, however submissions and stop callbacks interleave: at
  every moment it is the number of flags that are 1, corrected by what the operations in flight have
  still to add or subtract; so when no operation is in flight it is exactly that number, and it is
  then 0 only if every context has reported that it is idle.
\<close>

theorem stop_token_balanced:
  assumes "sched_start s0" and "\<forall>(i, act) \<in> set xs. i < n_ctx s0" and "s = sched_run xs s0"
  shows "token s = int (card {i. i < n_ctx s \<and> flag_of s i = 1}) + (\<Sum>i<n_ctx s. owed (worker_at s i)) \<and>
    ((\<forall>i<n_ctx s. owed (worker_at s i) = 0) \<longrightarrow> (token s = 0 \<longleftrightarrow> (\<forall>i<n_ctx s. flag_of s i = 0)))"
proof -
  have I: "sched_inv s"
    using sched_run_inv [OF sched_start_inv [OF assms(1)] assms(2)] assms(3) by simp
  then have fl: "\<And>i. flag_of s i \<in> {0, 1}" by (simp add: sched_inv_def)
  have t: "token s = int (card {i. i < n_ctx s \<and> flag_of s i = 1}) + (\<Sum>i<n_ctx s. owed (worker_at s i))"
    using I sum_of_flags [of "flag_of s" "n_ctx s", OF fl] by (simp add: sched_inv_def)
  moreover have "token s = 0 \<longleftrightarrow> (\<forall>i<n_ctx s. flag_of s i = 0)" if "\<forall>i<n_ctx s. owed (worker_at s i) = 0"
  proof -
    have "token s = int (card {i. i < n_ctx s \<and> flag_of s i = 1})" using t that by simp
    moreover have "finite {i. i < n_ctx s \<and> flag_of s i = 1}" by simp
    ultimately have "token s = 0 \<longleftrightarrow> {i. i < n_ctx s \<and> flag_of s i = 1} = {}"
      by (simp add: card_eq_0_iff)
    then show ?thesis using fl by fastforce
  qed
  ultimately show ?thesis by blast
qed

text \<open>Two contexts; a task is in the queue of the first one and the dispatcher is at the second.\<close>

definition demo_sched :: sched where
  "demo_sched = \<lparr>n_ctx = 2, worker_at = (\<lambda>_. K_loop), left_of = (\<lambda>_. 0),
     tasks_of = (\<lambda>_. [])(0 := [7]), woken = (\<lambda>_. True), stop_of = (\<lambda>_. False),
     flag_of = (\<lambda>_. 1), token = 2, next_ctx = 1\<rparr>"

lemma demo_sched_start: "sched_start demo_sched"
  by (simp add: sched_start_def demo_sched_def)

theorem stop_token_balanced_witness:
  "token (sched_run [(1, Ends), (1, Ends), (1, Ends), (1, Ends), (1, Ends)] demo_sched) =
     int (card {i. i < n_ctx (sched_run [(1, Ends), (1, Ends), (1, Ends), (1, Ends), (1, Ends)] demo_sched) \<and>
       flag_of (sched_run [(1, Ends), (1, Ends), (1, Ends), (1, Ends), (1, Ends)] demo_sched) i = 1}) + 1"
  using stop_token_balanced [OF demo_sched_start _ refl, of "[(1, Ends), (1, Ends), (1, Ends), (1, Ends), (1, Ends)]"]
  by (simp add: demo_sched_def worker_defs numeral_2_eq_2 lessThan_Suc)

definition losing_run :: "(nat \<times> task_act) list" where
  "losing_run =
     replicate 4 (1, Ends) @
     replicate 2 (0, Ends) @ [(0, Submits 8)] @ replicate 4 (0, Ends) @
     replicate 2 (1, Ends) @
     replicate 10 (0, Ends) @
     replicate 3 (0, Ends) @
     replicate 3 (1, Ends) @ [(1, Submits 9)]"


end
