(* ===== verification/Submit.thy ===== *)
theory Submit
  imports Scheduler_Race
begin

text \<open>
  The entry points of a program into the scheduler (include/coro/scheduler.hpp, src/scheduler.cpp)
  and the promise of a void coroutine (include/coro/task.hpp): calling a coroutine, handing its task
  to the scheduler as a temporary or as an lvalue, initialising the scheduler and waiting for it.
\<close>

section \<open>The promise of a void coroutine\<close>

record void_promise =
  m_exception_ptr :: "exn option"

definition new_void_promise :: void_promise where
  "new_void_promise = \<lparr>m_exception_ptr = None\<rparr>"

definition return_void :: "void_promise \<Rightarrow> void_promise" where
  "return_void p = p"

text \<open>\<open>e\<close> is the current exception.\<close>

definition void_unhandled_exception :: "exn \<Rightarrow> void_promise \<Rightarrow> void_promise" where
  "void_unhandled_exception e p = p\<lparr>m_exception_ptr := Some e\<rparr>"

definition void_result :: "void_promise \<Rightarrow> exn + unit" where
  "void_result p = (case m_exception_ptr p of Some e \<Rightarrow> Inl e | None \<Rightarrow> Inr ())"

lemmas void_promise_defs =
  new_void_promise_def return_void_def void_unhandled_exception_def void_result_def

text \<open>
  A void promise never runs into the runtime error of an empty container, and whatever it is told
  it agrees with a container of units that is told the same, until an exception is followed by a
  return, which the compiler never does.
\<close>

datatype outcome = Returns | Throws exn

fun tell_void :: "outcome \<Rightarrow> void_promise \<Rightarrow> void_promise" where
  "tell_void Returns = return_void"
| "tell_void (Throws e) = void_unhandled_exception e"

fun tell_unit :: "outcome \<Rightarrow> (unit, exn) container \<Rightarrow> (unit, exn) container" where
  "tell_unit Returns = return_value ()"
| "tell_unit (Throws e) = set_exception e"

lemma void_promise_agrees:
  "container_result (tell_unit x new_container) =
     (case void_result (tell_void x new_void_promise) of Inl e \<Rightarrow> Inl (Rethrown e) | Inr v \<Rightarrow> Inr v)"
  by (cases x) (simp_all add: void_promise_defs container_result_def return_value_def set_exception_def)

section \<open>Calling and submitting a coroutine\<close>

text \<open>The frame is allocated at \<open>h\<close>; \<open>get_return_object\<close> makes a task of its handle.\<close>

definition get_return_object :: "handle \<Rightarrow> handle" where
  "get_return_object h = h"

definition call_coroutine :: "handle \<Rightarrow> 'v instr list \<Rightarrow> 'v memory \<Rightarrow> handle \<times> 'v memory" where
  "call_coroutine h b mem = (get_return_object h, mem(h \<mapsto> new_frame b))"

text \<open>\<open>handle() &\<close> leaves the task as it is.\<close>

definition task_handle_lvalue :: "handle \<Rightarrow> handle" where
  "task_handle_lvalue t = t"

definition scheduler_submit :: "'q queue_ops \<Rightarrow> handle \<Rightarrow> ('q, 'v) scheduler \<Rightarrow> ('q, 'v) scheduler res" where
  "scheduler_submit Q h sc = submit_task_impl Q h sc"

definition scheduler_submit_rvalue ::
    "'q queue_ops \<Rightarrow> handle \<Rightarrow> 'v memory \<Rightarrow> ('q, 'v) scheduler \<Rightarrow> (handle \<times> 'v memory \<times> ('q, 'v) scheduler) res" where
  "scheduler_submit_rvalue Q t mem sc =
     (let h = task_handle_lvalue t in
      bindE (task_detach t mem) (\<lambda>(t', mem').
      bindE (scheduler_submit Q h sc) (\<lambda>sc'. Inr (t', mem', sc'))))"

definition scheduler_submit_lvalue ::
    "'q queue_ops \<Rightarrow> handle \<Rightarrow> ('q, 'v) scheduler \<Rightarrow> ('q, 'v) scheduler res" where
  "scheduler_submit_lvalue Q t sc = scheduler_submit Q (task_handle_lvalue t) sc"

text \<open>The free functions \<open>submit_to_scheduler\<close>.\<close>

definition submit_to_scheduler_rvalue ::
    "'q queue_ops \<Rightarrow> handle \<Rightarrow> 'v memory \<Rightarrow> ('q, 'v) scheduler \<Rightarrow> (handle \<times> 'v memory \<times> ('q, 'v) scheduler) res" where
  "submit_to_scheduler_rvalue Q t mem sc = scheduler_submit_rvalue Q t mem sc"

definition submit_to_scheduler_lvalue ::
    "'q queue_ops \<Rightarrow> handle \<Rightarrow> ('q, 'v) scheduler \<Rightarrow> ('q, 'v) scheduler res" where
  "submit_to_scheduler_lvalue Q t sc = scheduler_submit Q (task_handle_lvalue t) sc"

definition submit_to_scheduler :: "'q queue_ops \<Rightarrow> handle \<Rightarrow> ('q, 'v) scheduler \<Rightarrow> ('q, 'v) scheduler res" where
  "submit_to_scheduler Q h sc = scheduler_submit Q h sc"

section \<open>Initialisation and waiting\<close>

text \<open>\<open>proxy_of i\<close> is the ring that the constructor of context \<open>i\<close> makes.\<close>

definition scheduler_init ::
    "'q queue_ops \<Rightarrow> nat \<Rightarrow> (nat \<Rightarrow> uring_proxy) \<Rightarrow> (addr \<Rightarrow> io_info) \<Rightarrow> nat \<Rightarrow>
     ('q, 'v) scheduler \<Rightarrow> ('q, 'v) scheduler \<times> global_info" where
  "scheduler_init Q hardware_concurrency proxy_of io ctx_cnt sc =
     init_impl Q (map proxy_of [0..<effective_ctx_cnt ctx_cnt hardware_concurrency]) io sc"

text \<open>
  \<open>loop_impl\<close> joins the workers in turn; a join returns when the worker has left its loop. In a
  state of the interleaved protocol the result is the number of joins that return there.
\<close>

fun joins :: "sched \<Rightarrow> nat list \<Rightarrow> nat" where
  "joins s [] = 0"
| "joins s (i # is) = (if worker_at s i = K_exit then Suc (joins s is) else 0)"

definition loop_returns :: "sched \<Rightarrow> bool" where
  "loop_returns s \<longleftrightarrow> joins s [0..<n_ctx s] = n_ctx s"

lemma joins_le: "joins s is \<le> length is"
  by (induction "is") auto

lemma joins_all: "joins s is = length is \<longleftrightarrow> (\<forall>i \<in> set is. worker_at s i = K_exit)"
proof (induction "is")
  case Nil
  then show ?case by simp
next
  case (Cons i xs)
  then show ?case using joins_le [of s xs] by auto
qed

lemma loop_returns_iff: "loop_returns s \<longleftrightarrow> (\<forall>i < n_ctx s. worker_at s i = K_exit)"
  using joins_all [of s "[0..<n_ctx s]"] by (auto simp: loop_returns_def)

lemma exited_step: "worker_at s i = K_exit \<Longrightarrow> worker_step i act s = s"
  by (simp add: worker_step_def)

lemma loop_returned_run:
  "loop_returns s \<Longrightarrow> \<forall>x \<in> set xs. fst x < n_ctx s \<Longrightarrow> sched_run xs s = s"
  by (induction xs) (auto simp: loop_returns_iff exited_step)

section \<open>Lemmas\<close>

lemma submit_impl_pending:
  assumes sub: "submit_task_impl Q h sc = Inr sc'"
    and run: "\<forall>i < length (m_ctxs sc). context_running Q ql (m_ctxs sc ! i)"
  shows "\<exists>i < length (m_ctxs sc). m_ctxs sc' = (m_ctxs sc)[i := m_ctxs sc' ! i] \<and>
    pending_of ql (m_ctxs sc' ! i) = pending_of ql (m_ctxs sc ! i) @ [h]"
proof -
  obtain w d where d: "dispatch (m_dispatcher sc) = Inr (w, d)"
    using sub by (auto simp: submit_task_impl_def bindE_Inr_iff)
  let ?i = "unat w"
  have i: "?i < length (m_ctxs sc)"
    using sub d by (auto simp: submit_task_impl_def bindE_Inr_iff Let_def split: if_splits)
  obtain c where c: "context_submit Q h (m_ctxs sc ! ?i) = Inr c" and cs: "m_ctxs sc' = (m_ctxs sc)[?i := c]"
    using sub d by (auto simp: submit_task_impl_def bindE_Inr_iff Let_def split: if_splits)
  have "pending_of ql c = pending_of ql (m_ctxs sc ! ?i) @ [h]"
    using ctx.submit_appends [OF _ c] run i by blast
  then show ?thesis using i cs by (intro exI [of _ ?i]) simp
qed

section \<open>Properties\<close>

text \<open>
  A coroutine submitted as a temporary belongs to the engine: exactly one context gets its
  handle, at the end of its queue; the task object is left empty, so its destructor does nothing;
  and the resumption that completes the coroutine frees its frame, which nothing else does.
\<close>

lemma rvalue_submit_frees_once:
  fixes sc :: "('q, 'v) scheduler" and mem :: "'v memory"
  assumes "submit_to_scheduler_rvalue Q t mem sc = Inr (t', mem', sc')"
    and "\<forall>i < length (m_ctxs sc). context_running Q ql (m_ctxs sc ! i)"
  shows "(\<exists>i < length (m_ctxs sc). m_ctxs sc' = (m_ctxs sc)[i := m_ctxs sc' ! i] \<and>
            pending_of ql (m_ctxs sc' ! i) = pending_of ql (m_ctxs sc ! i) @ [t]) \<and>
         task_dtor t' mem' = Inr mem' \<and>
         (\<forall>fuel m g. \<forall>s :: ('q, 'v) local. frames s = mem' \<longrightarrow> unreferenced t mem' \<longrightarrow> run fuel t mem' = Inr m \<longrightarrow>
            m t = Some g \<longrightarrow>
            exec_handle (resume_frames fuel) t s =
              Inr (s\<lparr>frames := if at_final_suspend g then m(t := None) else m\<rparr>))"
proof -
  obtain f where f: "mem t = Some f" "mem' = mem(t \<mapsto> set_state Coro_detach f)" "t' = nullptr"
    and sub: "submit_task_impl Q t sc = Inr sc'"
    using assms(1)
    by (auto simp: submit_to_scheduler_rvalue_def scheduler_submit_rvalue_def scheduler_submit_def
        task_handle_lvalue_def task_detach_def bindE_Inr_iff Let_def)
  have "exec_handle (resume_frames fuel) t s =
      Inr (s\<lparr>frames := if at_final_suspend g then m(t := None) else m\<rparr>)"
    if "frames s = mem'" "unreferenced t mem'" "run fuel t mem' = Inr m" "m t = Some g"
    for fuel m g and s :: "('q, 'v) local"
  proof -
    have t: "mem' t = Some (set_state Coro_detach f)" using f(2) by simp
    have "coro_status g = Coro_detach"
      using run_keeps [OF that(3,2) t] that(4) by (auto simp: set_state_def)
    then show ?thesis
      using that(1,3,4)
      by (auto simp: exec_handle_def resume_frames_def clean_def destroy_def split: coro_state.splits)
  qed
  then show ?thesis
    using submit_impl_pending [OF sub assms(2)] f(3) by (auto simp: task_dtor_def)
qed

definition demo_initialised :: "(handle list, nat) scheduler" where
  "demo_initialised = fst (scheduler_init list_queue 2 (\<lambda>_. demo_proxy) demo_infos 0 demo_scheduler)"

lemma rvalue_submit_frees_once_witness:
  "\<exists>t mem t' mem' sc' s'. call_coroutine 7 [Co_return 1] Map.empty = (t, mem) \<and>
     submit_to_scheduler_rvalue list_queue t mem demo_initialised = Inr (t', mem', sc') \<and>
     task_dtor t' mem' = Inr mem' \<and>
     exec_handle (resume_frames 2) t (demo_local mem') = Inr s' \<and> frames s' t = None"
proof -
  note defs = demo_initialised_def scheduler_init_def effective_ctx_cnt_def init_impl_def demo_scheduler_def
    new_context_def new_engine_def atomic_defs dispatcher_init_def init_meta_info_def Let_def
    upt_rec demo_proxy_def list_queue_def
  let ?mem = "[7 \<mapsto> new_frame [Co_return 1]] :: nat memory"
  have call: "call_coroutine 7 [Co_return 1] Map.empty = (7, ?mem)"
    by (simp add: call_coroutine_def get_return_object_def)
  obtain sc' where sub: "submit_to_scheduler_rvalue list_queue 7 ?mem demo_initialised
      = Inr (nullptr, demo_detached, sc')"
    by (simp add: submit_to_scheduler_rvalue_def scheduler_submit_rvalue_def scheduler_submit_def
        task_handle_lvalue_def task_detach_def demo_detached_def submit_task_impl_def dispatch_def
        context_submit_def submit_task_def wake_up_def write_eventfd_def kQueCap_def defs)
  have running: "\<forall>i < length (m_ctxs demo_initialised).
      context_running list_queue (\<lambda>q. q) (m_ctxs demo_initialised ! i)"
    by (simp add: context_running_def engine_running_def list_queue_laws [unfolded list_queue_def] nth_Cons' defs)
  obtain m g where m: "run 2 7 demo_detached = Inr m" "m 7 = Some g" "at_final_suspend g"
    using demo_detached_run by blast
  have u: "unreferenced 7 demo_detached"
    by (auto simp: demo_detached_def avoids_def new_frame_def set_state_def split: if_splits)
  from rvalue_submit_frees_once [OF sub running] m u call sub show ?thesis
    by (fastforce simp: demo_local_def)
qed

end
