(* ===== verification/Echo.thy ===== *)
theory Echo
  imports Tcp "HOL-Library.Sublist"
begin

text \<open>
  The echo programs over the library's TCP classes: src/examples/tcp_echo_server.cpp,
  tcp_echo_client.cpp and stdin_client.cpp, and the three servers of
  src/benchmark/tinycoro_model. A coroutine is cut at its awaits: between two of them it is a
  function of the answer of the kernel that starts the next request. Its specification is a copy
  buffer: what comes in goes out, in order.
\<close>

section \<open>Awaiting a request\<close>

text \<open>
  Where an awaiter of the coroutine lives: the entry of the submission queue it is given, the
  address of its record, the memory found there, and the coroutine that waits.
\<close>

record site =
  aw_urs :: addr
  aw_addr :: addr
  aw_raw :: io_info
  aw_coro :: handle

definition await_read ::
    "tcp_connector \<Rightarrow> addr \<Rightarrow> u64 \<Rightarrow> site \<Rightarrow> ('q, 'v) coro_context \<Rightarrow> ('q, 'v) coro_context res" where
  "await_read k b len w c =
     bindE (connector_read k b len 0 (aw_urs w) (aw_addr w) (aw_raw w) c) (\<lambda>c1.
       Inr (io_await_suspend (aw_addr w) (aw_coro w) c1))"

definition await_write ::
    "tcp_connector \<Rightarrow> addr \<Rightarrow> u64 \<Rightarrow> site \<Rightarrow> ('q, 'v) coro_context \<Rightarrow> ('q, 'v) coro_context res" where
  "await_write k b len w c =
     bindE (connector_write k b len 0 (aw_urs w) (aw_addr w) (aw_raw w) c) (\<lambda>c1.
       Inr (io_await_suspend (aw_addr w) (aw_coro w) c1))"

definition await_close ::
    "bool \<Rightarrow> int \<Rightarrow> tcp_connector \<Rightarrow> site \<Rightarrow> ('q, 'v) coro_context \<Rightarrow> (tcp_connector \<times> ('q, 'v) coro_context) res" where
  "await_close fixfd answer k w c =
     bindE (connector_close fixfd answer k (aw_urs w) (aw_addr w) (aw_raw w) c) (\<lambda>(k1, c1).
       Inr (k1, io_await_suspend (aw_addr w) (aw_coro w) c1))"

lemmas await_defs = await_read_def await_write_def await_close_def

section \<open>A session\<close>

text \<open>
  The programs differ in the length of the buffer, in whether they log what they read, and in
  whether they look at the result of a write.
\<close>

record echo_program =
  BUFFLEN :: nat
  logs_data :: bool
  checks_write :: bool

datatype session_at = At_read | At_write | At_close | At_end

record session =
  sess_conn :: tcp_connector
  sess_buf :: "byte list"
  sess_ret :: "32 word"
  sess_at :: session_at

text \<open>
  Formatting a \<open>char\<close> array as a string reads up to its first zero byte; without one it reads on
  behind the array.
\<close>

definition format_chars :: "byte list \<Rightarrow> byte list res" where
  "format_chars b = (if 0 \<in> set b then Inr (takeWhile (\<lambda>x. x \<noteq> 0) b) else Inl Out_of_range)"

definition session_enter ::
    "echo_program \<Rightarrow> bool \<Rightarrow> int \<Rightarrow> addr \<Rightarrow> int \<Rightarrow> site \<Rightarrow>
     ('q, 'v) coro_context \<Rightarrow> (session \<times> ('q, 'v) coro_context) res" where
  "session_enter P fixfd answer b fd w c =
     bindE (tcp_connector_ctor fixfd answer fd c) (\<lambda>(k, c1).
     bindE (await_read k b (of_nat (BUFFLEN P)) w c1) (\<lambda>c2.
       Inr (\<lparr>sess_conn = k, sess_buf = replicate (BUFFLEN P) 0, sess_ret = 0, sess_at = At_read\<rparr>, c2)))"

definition session_reads ::
    "echo_program \<Rightarrow> addr \<Rightarrow> site \<Rightarrow> session \<Rightarrow> ('q, 'v) coro_context \<Rightarrow> (session \<times> ('q, 'v) coro_context) res" where
  "session_reads P b w s c =
     bindE (await_read (sess_conn s) b (of_nat (BUFFLEN P)) w c) (\<lambda>c1. Inr (s\<lparr>sess_at := At_read\<rparr>, c1))"

definition session_closes ::
    "bool \<Rightarrow> int \<Rightarrow> site \<Rightarrow> session \<Rightarrow> ('q, 'v) coro_context \<Rightarrow> (session \<times> ('q, 'v) coro_context) res" where
  "session_closes fixfd answer w s c =
     bindE (await_close fixfd answer (sess_conn s) w c) (\<lambda>(k, c1).
       Inr (s\<lparr>sess_conn := k, sess_at := At_close\<rparr>, c1))"

text \<open>
  Resumption with the answer \<open>res\<close> of the request the session waits for. A positive \<open>int\<close> is
  converted to \<open>size_t\<close> by sign extension. After the last assertion the connector is destroyed.
\<close>

definition session_resume ::
    "echo_program \<Rightarrow> bool \<Rightarrow> int \<Rightarrow> addr \<Rightarrow> 32 word \<Rightarrow> site \<Rightarrow> session \<Rightarrow>
     ('q, 'v) coro_context \<Rightarrow> (session \<times> ('q, 'v) coro_context) res" where
  "session_resume P fixfd answer b res w s c =
     (let s1 = s\<lparr>sess_ret := res\<rparr> in
      case sess_at s of
        At_read \<Rightarrow>
          if 0 <s res then
            bindE (if logs_data P then format_chars (sess_buf s) else Inr []) (\<lambda>_.
            bindE (await_write (sess_conn s) b (scast res) w c) (\<lambda>c1.
              Inr (s1\<lparr>sess_at := At_write\<rparr>, c1)))
          else session_closes fixfd answer w s1 c
      | At_write \<Rightarrow>
          if checks_write P \<and> res \<le>s 0 then session_closes fixfd answer w s1 c
          else session_reads P b w s1 c
      | At_close \<Rightarrow>
          bindE (assertE (res = 0)) (\<lambda>_.
          bindE (tcp_connector_dtor fixfd answer (sess_conn s) c) (\<lambda>c1. Inr (s1\<lparr>sess_at := At_end\<rparr>, c1)))
      | At_end \<Rightarrow> Inl Dangling)"

definition example_server :: echo_program where
  "example_server = \<lparr>BUFFLEN = 10240, logs_data = True, checks_write = False\<rparr>"

definition tinycoro_1k :: echo_program where
  "tinycoro_1k = \<lparr>BUFFLEN = 1024 + 16, logs_data = False, checks_write = True\<rparr>"

definition tinycoro_16k :: echo_program where
  "tinycoro_16k = \<lparr>BUFFLEN = 16 * 1024 + 16, logs_data = False, checks_write = True\<rparr>"

definition tinycoro_128 :: echo_program where
  "tinycoro_128 = \<lparr>BUFFLEN = 128 + 16, logs_data = False, checks_write = True\<rparr>"

text \<open>The sessions of the example and of the three benchmark servers.\<close>

definition session_example ::
    "bool \<Rightarrow> int \<Rightarrow> addr \<Rightarrow> 32 word \<Rightarrow> site \<Rightarrow> session \<Rightarrow>
     ('q, 'v) coro_context \<Rightarrow> (session \<times> ('q, 'v) coro_context) res" where
  "session_example = session_resume example_server"

definition session_1k ::
    "bool \<Rightarrow> int \<Rightarrow> addr \<Rightarrow> 32 word \<Rightarrow> site \<Rightarrow> session \<Rightarrow>
     ('q, 'v) coro_context \<Rightarrow> (session \<times> ('q, 'v) coro_context) res" where
  "session_1k = session_resume tinycoro_1k"

definition session_16k ::
    "bool \<Rightarrow> int \<Rightarrow> addr \<Rightarrow> 32 word \<Rightarrow> site \<Rightarrow> session \<Rightarrow>
     ('q, 'v) coro_context \<Rightarrow> (session \<times> ('q, 'v) coro_context) res" where
  "session_16k = session_resume tinycoro_16k"

definition session_128 ::
    "bool \<Rightarrow> int \<Rightarrow> addr \<Rightarrow> 32 word \<Rightarrow> site \<Rightarrow> session \<Rightarrow>
     ('q, 'v) coro_context \<Rightarrow> (session \<times> ('q, 'v) coro_context) res" where
  "session_128 = session_resume tinycoro_128"

section \<open>Servers and clients\<close>

datatype server_at = At_accept | Server_end

record echo_server =
  es_server :: tcp_server
  es_at :: server_at

definition await_accept :: "tcp_server \<Rightarrow> site \<Rightarrow> ('q, 'v) coro_context \<Rightarrow> ('q, 'v) coro_context res" where
  "await_accept srv w c =
     bindE (server_accept srv 0 (aw_urs w) (aw_addr w) (aw_raw w) c) (\<lambda>c1.
       Inr (io_await_suspend (aw_addr w) (aw_coro w) c1))"

definition server_enter ::
    "bool \<Rightarrow> int \<Rightarrow> net_answers \<Rightarrow> 32 word \<Rightarrow> site \<Rightarrow>
     ('q, 'v) coro_context \<Rightarrow> (echo_server \<times> ('q, 'v) coro_context) res" where
  "server_enter fixfd answer ans port w c =
     bindE (tcp_server_port_ctor fixfd answer ans (Some port) c) (\<lambda>(srv, c1).
     bindE (await_accept srv w c1) (\<lambda>c2. Inr (\<lparr>es_server = srv, es_at = At_accept\<rparr>, c2)))"

text \<open>The member \<open>m_fixed_fd\<close> of the server is destroyed when the coroutine ends.\<close>

definition server_destroy ::
    "bool \<Rightarrow> int \<Rightarrow> tcp_server \<Rightarrow> ('q, 'v) coro_context \<Rightarrow> ('q, 'v) coro_context res" where
  "server_destroy fixfd answer srv c =
     bindE (fixed_fds_return_back fixfd answer (srv_fixed_fd srv) (uring_of c)) (\<lambda>(it, p).
       Inr (with_uring p c))"

text \<open>The second result is the descriptor whose session is submitted to the scheduler.\<close>

definition server_resume ::
    "bool \<Rightarrow> int \<Rightarrow> 32 word \<Rightarrow> site \<Rightarrow> echo_server \<Rightarrow>
     ('q, 'v) coro_context \<Rightarrow> (echo_server \<times> int list \<times> ('q, 'v) coro_context) res" where
  "server_resume fixfd answer res w s c =
     (case es_at s of
        At_accept \<Rightarrow>
          if 0 <s res then
            bindE (await_accept (es_server s) w c) (\<lambda>c1. Inr (s, [sint res], c1))
          else
            bindE (server_destroy fixfd answer (es_server s) c) (\<lambda>c1. Inr (s\<lparr>es_at := Server_end\<rparr>, [], c1))
      | Server_end \<Rightarrow> Inl Dangling)"

datatype client_state = Connecting tcp_client | Connected session

definition client_enter ::
    "net_answers \<Rightarrow> string option \<Rightarrow> 32 word \<Rightarrow> site \<Rightarrow>
     ('q, 'v) coro_context \<Rightarrow> (client_state \<times> ('q, 'v) coro_context) res" where
  "client_enter ans sa port w c =
     bindE (tcp_client_ctor ans sa port) (\<lambda>cl.
     bindE (client_connect cl (aw_urs w) (aw_addr w) (aw_raw w) c) (\<lambda>c1.
       Inr (Connecting cl, io_await_suspend (aw_addr w) (aw_coro w) c1)))"

definition example_client :: echo_program where
  "example_client = \<lparr>BUFFLEN = 10240, logs_data = True, checks_write = False\<rparr>"

definition echo_client_resume ::
    "bool \<Rightarrow> int \<Rightarrow> addr \<Rightarrow> 32 word \<Rightarrow> site \<Rightarrow> client_state \<Rightarrow>
     ('q, 'v) coro_context \<Rightarrow> (client_state \<times> ('q, 'v) coro_context) res" where
  "echo_client_resume fixfd answer b res w st c =
     (case st of
        Connecting cl \<Rightarrow>
          bindE (assertE (0 <s res)) (\<lambda>_.
          bindE (session_enter example_client fixfd answer b (sint res) w c) (\<lambda>(s, c1). Inr (Connected s, c1)))
      | Connected s \<Rightarrow>
          bindE (session_resume example_client fixfd answer b res w s c) (\<lambda>(s1, c1). Inr (Connected s1, c1)))"

section \<open>The standard input client\<close>

text \<open>
  Two coroutines over one socket. \<open>echo\<close> sends what comes from the standard input; it waits for
  the input at \<open>At_read\<close>. The client prints what comes from the network.
\<close>

definition stdin_client :: echo_program where
  "stdin_client = \<lparr>BUFFLEN = 10240, logs_data = True, checks_write = False\<rparr>"

definition stdin_reads ::
    "addr \<Rightarrow> site \<Rightarrow> session \<Rightarrow> ('q, 'v) coro_context \<Rightarrow> (session \<times> ('q, 'v) coro_context) res" where
  "stdin_reads b w s c =
     bindE (stdin_awaiter b (of_nat (BUFFLEN stdin_client)) 0 0 (aw_urs w) (aw_addr w) (aw_raw w) c) (\<lambda>c1.
       Inr (s\<lparr>sess_at := At_read\<rparr>, io_await_suspend (aw_addr w) (aw_coro w) c1))"

definition stdin_echo_enter ::
    "bool \<Rightarrow> int \<Rightarrow> addr \<Rightarrow> int \<Rightarrow> site \<Rightarrow>
     ('q, 'v) coro_context \<Rightarrow> (session \<times> ('q, 'v) coro_context) res" where
  "stdin_echo_enter fixfd answer b fd w c =
     bindE (tcp_connector_ctor fixfd answer fd c) (\<lambda>(k, c1).
       stdin_reads b w \<lparr>sess_conn = k, sess_buf = replicate (BUFFLEN stdin_client) 0, sess_ret = 0,
                        sess_at = At_read\<rparr> c1)"

definition stdin_echo_resume ::
    "addr \<Rightarrow> 32 word \<Rightarrow> site \<Rightarrow> session \<Rightarrow>
     ('q, 'v) coro_context \<Rightarrow> (session \<times> ('q, 'v) coro_context) res" where
  "stdin_echo_resume b res w s c =
     (let s1 = s\<lparr>sess_ret := res\<rparr> in
      case sess_at s of
        At_read \<Rightarrow>
          bindE (format_chars (sess_buf s)) (\<lambda>_.
          bindE (await_write (sess_conn s) b (scast res) w c) (\<lambda>c1. Inr (s1\<lparr>sess_at := At_write\<rparr>, c1)))
      | At_write \<Rightarrow> stdin_reads b w s1 c
      | _ \<Rightarrow> Inl Dangling)"

text \<open>After the connection: the second result is the descriptor that \<open>echo\<close> is started with.\<close>

definition stdin_client_resume ::
    "bool \<Rightarrow> int \<Rightarrow> addr \<Rightarrow> 32 word \<Rightarrow> site \<Rightarrow> client_state \<Rightarrow>
     ('q, 'v) coro_context \<Rightarrow> (client_state \<times> int list \<times> ('q, 'v) coro_context) res" where
  "stdin_client_resume fixfd answer b res w st c =
     (case st of
        Connecting cl \<Rightarrow>
          bindE (assertE (0 <s res)) (\<lambda>_.
          bindE (session_enter stdin_client fixfd answer b (sint res) w c) (\<lambda>(s, c1).
            Inr (Connected s, [sint res], c1)))
      | Connected s \<Rightarrow>
          let s1 = s\<lparr>sess_ret := res\<rparr> in
          bindE (case sess_at s of
             At_read \<Rightarrow>
               if 0 <s res then
                 bindE (format_chars (sess_buf s)) (\<lambda>_. session_reads stdin_client b w s1 c)
               else session_closes fixfd answer w s1 c
           | At_close \<Rightarrow>
               bindE (assertE (res = 0)) (\<lambda>_.
               bindE (tcp_connector_dtor fixfd answer (sess_conn s) c) (\<lambda>c1. Inr (s1\<lparr>sess_at := At_end\<rparr>, c1)))
           | _ \<Rightarrow> Inl Dangling) (\<lambda>(s2, c1). Inr (Connected s2, [], c1)))"

section \<open>A session against the kernel\<close>

text \<open>
  A completion: the result, the bytes the kernel put at the start of the buffer, and the site of
  the next await.
\<close>

record completion =
  cp_res :: "32 word"
  cp_data :: "byte list"
  cp_site :: site

definition kernel_fill :: "byte list \<Rightarrow> session \<Rightarrow> session" where
  "kernel_fill d s = s\<lparr>sess_buf := d @ drop (length d) (sess_buf s)\<rparr>"

definition session_complete ::
    "echo_program \<Rightarrow> bool \<Rightarrow> int \<Rightarrow> addr \<Rightarrow> completion \<Rightarrow> session \<Rightarrow>
     ('q, 'v) coro_context \<Rightarrow> (session \<times> ('q, 'v) coro_context) res" where
  "session_complete P fixfd answer b x s c =
     session_resume P fixfd answer b (cp_res x) (cp_site x)
       (if sess_at s = At_read then kernel_fill (cp_data x) s else s) c"

fun session_run ::
    "echo_program \<Rightarrow> bool \<Rightarrow> int \<Rightarrow> addr \<Rightarrow> completion list \<Rightarrow> session \<Rightarrow>
     ('q, 'v) coro_context \<Rightarrow> (session \<times> ('q, 'v) coro_context) res" where
  "session_run P fixfd answer b [] s c = Inr (s, c)"
| "session_run P fixfd answer b (x # xs) s c =
     bindE (session_complete P fixfd answer b x s c) (\<lambda>(s1, c1). session_run P fixfd answer b xs s1 c1)"

text \<open>What the peer sends and gets by a completion: of a write the first \<open>res\<close> bytes of the buffer.\<close>

definition peer_sends :: "session \<Rightarrow> completion \<Rightarrow> byte list" where
  "peer_sends s x = (if sess_at s = At_read then cp_data x else [])"

definition peer_gets :: "session \<Rightarrow> completion \<Rightarrow> byte list" where
  "peer_gets s x = (if sess_at s = At_write \<and> 0 <s cp_res x then take (unat (cp_res x)) (sess_buf s) else [])"

fun session_io ::
    "echo_program \<Rightarrow> bool \<Rightarrow> int \<Rightarrow> addr \<Rightarrow> completion list \<Rightarrow> session \<Rightarrow>
     ('q, 'v) coro_context \<Rightarrow> byte list \<times> byte list" where
  "session_io P fixfd answer b [] s c = ([], [])"
| "session_io P fixfd answer b (x # xs) s c =
     (case session_complete P fixfd answer b x s c of
        Inl e \<Rightarrow> (peer_sends s x, peer_gets s x)
      | Inr (s1, c1) \<Rightarrow> (case session_io P fixfd answer b xs s1 c1 of
          (inp, out) \<Rightarrow> (peer_sends s x @ inp, peer_gets s x @ out)))"

text \<open>
  What the kernel promises: a read that answers \<open>n > 0\<close> delivered \<open>n\<close> bytes, at most the
  length of the buffer; a write takes at most what it was given. In a \<open>full\<close> completion a write
  takes everything.
\<close>

definition honest :: "session \<Rightarrow> completion \<Rightarrow> bool" where
  "honest s x \<longleftrightarrow>
     (case sess_at s of
        At_read \<Rightarrow> length (cp_data x) = (if 0 <s cp_res x then unat (cp_res x) else 0) \<and>
                   length (cp_data x) \<le> length (sess_buf s)
      | At_write \<Rightarrow> cp_res x \<le>s sess_ret s
      | _ \<Rightarrow> True)"

definition takes_all :: "session \<Rightarrow> completion \<Rightarrow> bool" where
  "takes_all s x \<longleftrightarrow> (sess_at s = At_write \<longrightarrow> cp_res x = sess_ret s)"

fun always ::
    "(session \<Rightarrow> completion \<Rightarrow> bool) \<Rightarrow> echo_program \<Rightarrow> bool \<Rightarrow> int \<Rightarrow> addr \<Rightarrow> completion list \<Rightarrow> session \<Rightarrow>
     ('q, 'v) coro_context \<Rightarrow> bool" where
  "always R P fixfd answer b [] s c \<longleftrightarrow> True"
| "always R P fixfd answer b (x # xs) s c \<longleftrightarrow> R s x \<and>
     (case session_complete P fixfd answer b x s c of
        Inl e \<Rightarrow> True | Inr (s1, c1) \<Rightarrow> always R P fixfd answer b xs s1 c1)"

text \<open>The content of the copy buffer: what was read and not yet answered by a write.\<close>

definition pending :: "session \<Rightarrow> byte list" where
  "pending s = (if sess_at s = At_write then take (unat (sess_ret s)) (sess_buf s) else [])"

text \<open>A session that waits for a write has read something.\<close>

definition session_ok :: "session \<Rightarrow> bool" where
  "session_ok s \<longleftrightarrow> (sess_at s = At_write \<longrightarrow> 0 <s sess_ret s)"

lemma uint_nonneg:
  fixes x :: "32 word"
  assumes "0 \<le> sint x"
  shows "uint x = sint x"
proof -
  have "sint x < 2 ^ 31" using sint_lt [of x] by simp
  with assms show ?thesis by (simp add: uint_sint take_bit_eq_mod)
qed

lemma unat_mono_signed:
  fixes x y :: "32 word"
  assumes "0 <s x" "x \<le>s y"
  shows "unat x \<le> unat y"
proof -
  have "0 \<le> sint x" "0 \<le> sint y" "sint x \<le> sint y"
    using assms by (simp_all add: word_sless_alt word_sle_eq)
  then show ?thesis using uint_nonneg [of x] uint_nonneg [of y] by (simp add: unat_eq_nat_uint nat_mono)
qed

lemma prefix_take_mono: "m \<le> n \<Longrightarrow> prefix (take m xs) (take n xs)"
  using take_is_prefix [of m "take n xs"] by (simp add: min_def)

section \<open>The copy buffer\<close>

lemma session_reads_state:
  "session_reads P b w s c = Inr (s1, c1) \<Longrightarrow> s1 = s\<lparr>sess_at := At_read\<rparr>"
  by (auto simp: session_reads_def bindE_Inr_iff)

lemma session_closes_state:
  "session_closes fixfd answer w s c = Inr (s1, c1) \<Longrightarrow>
   sess_at s1 = At_close \<and> sess_buf s1 = sess_buf s"
  by (auto simp: session_closes_def bindE_Inr_iff)

text \<open>One completion: the buffer takes in what the peer sent, or gives out some of its content.\<close>

lemma session_complete_copies:
  assumes st: "session_complete P fixfd answer b x s c = Inr (s1, c1)"
    and h: "honest s x" and ok: "session_ok s"
  shows "session_ok s1 \<and> subseq (peer_gets s x @ pending s1) (pending s @ peer_sends s x) \<and>
    (takes_all s x \<longrightarrow> peer_gets s x @ pending s1 = pending s @ peer_sends s x)"
proof (cases "sess_at s")
  case At_read
  let ?s = "kernel_fill (cp_data x) s"
  show ?thesis
  proof (cases "0 <s cp_res x")
    case True
    then have "s1 = ?s\<lparr>sess_ret := cp_res x, sess_at := At_write\<rparr>"
      using st At_read by (auto simp: session_complete_def session_resume_def kernel_fill_def bindE_Inr_iff)
    then show ?thesis
      using At_read True h
      by (simp add: session_ok_def pending_def peer_gets_def peer_sends_def honest_def kernel_fill_def)
  next
    case False
    then have "sess_at s1 = At_close"
      using st At_read
      by (auto simp: session_complete_def session_resume_def kernel_fill_def dest: session_closes_state)
    then show ?thesis
      using At_read False h by (simp add: session_ok_def pending_def peer_gets_def peer_sends_def honest_def)
  qed
next
  case At_write
  have "sess_at s1 \<noteq> At_write"
    using st At_write
    by (auto simp: session_complete_def session_resume_def Let_def split: if_splits
        dest: session_reads_state session_closes_state)
  then have p1: "pending s1 = []" and ok1: "session_ok s1" by (simp_all add: pending_def session_ok_def)
  have "prefix (peer_gets s x) (pending s)"
  proof (cases "0 <s cp_res x")
    case True
    then have "unat (cp_res x) \<le> unat (sess_ret s)"
      using h At_write by (simp add: honest_def unat_mono_signed)
    then show ?thesis
      using True At_write by (simp add: peer_gets_def pending_def prefix_take_mono)
  qed (simp add: peer_gets_def)
  moreover have "takes_all s x \<longrightarrow> peer_gets s x = pending s"
    using ok At_write by (simp add: takes_all_def peer_gets_def pending_def session_ok_def)
  moreover have "peer_sends s x = []" using At_write by (simp add: peer_sends_def)
  ultimately show ?thesis unfolding p1 using ok1 by (auto intro: prefix_imp_subseq)
next
  case At_close
  then have "sess_at s1 = At_end"
    using st by (auto simp: session_complete_def session_resume_def bindE_Inr_iff)
  then show ?thesis using At_close by (simp add: session_ok_def pending_def peer_gets_def peer_sends_def)
next
  case At_end
  then show ?thesis using st by (simp add: session_complete_def session_resume_def)
qed

lemma session_run_copies:
  assumes "session_run P fixfd answer b xs s c = Inr (s', c')"
    and "session_io P fixfd answer b xs s c = (inp, out)"
    and "always honest P fixfd answer b xs s c" and "session_ok s"
  shows "subseq (out @ pending s') (pending s @ inp) \<and>
    (always takes_all P fixfd answer b xs s c \<longrightarrow> out @ pending s' = pending s @ inp)"
  using assms
proof (induction xs arbitrary: s c inp out)
  case Nil
  then show ?case by simp
next
  case (Cons x xs)
  from Cons.prems(1) obtain s1 c1 where st: "session_complete P fixfd answer b x s c = Inr (s1, c1)"
    and run: "session_run P fixfd answer b xs s1 c1 = Inr (s', c')"
    by (auto simp: bindE_Inr_iff)
  obtain inp1 out1 where io: "session_io P fixfd answer b xs s1 c1 = (inp1, out1)"
    and inp: "inp = peer_sends s x @ inp1" and out: "out = peer_gets s x @ out1"
    using Cons.prems(2) st by (auto split: prod.splits)
  have h: "honest s x" "always honest P fixfd answer b xs s1 c1" using Cons.prems(3) st by simp_all
  note one = session_complete_copies [OF st h(1) Cons.prems(4)]
  note rest = Cons.IH [OF run io h(2) one [THEN conjunct1]]
  have "subseq (peer_gets s x @ out1 @ pending s') (peer_gets s x @ pending s1 @ inp1)"
    using rest by (simp only: subseq_append')
  moreover have "subseq ((peer_gets s x @ pending s1) @ inp1) ((pending s @ peer_sends s x) @ inp1)"
    using one by (simp only: subseq_append)
  ultimately have "subseq (out @ pending s') (pending s @ inp)"
    unfolding inp out using subseq_order.trans by simp
  moreover have "out @ pending s' = pending s @ inp"
    if "always takes_all P fixfd answer b (x # xs) s c"
  proof -
    from that st have a: "takes_all s x" "always takes_all P fixfd answer b xs s1 c1" by simp_all
    have "out @ pending s' = peer_gets s x @ pending s1 @ inp1" using rest a(2) by (simp add: out)
    also have "\<dots> = (pending s @ peer_sends s x) @ inp1" using one a(1) by (metis append_assoc)
    finally show ?thesis by (simp add: inp)
  qed
  ultimately show ?case by blast
qed

section \<open>Properties\<close>

lemma session_enter_state:
  "session_enter P fixfd answer b fd w c = Inr (s, c1) \<Longrightarrow> pending s = [] \<and> session_ok s"
  by (auto simp: session_enter_def bindE_Inr_iff pending_def session_ok_def)


definition demo_site :: site where
  "demo_site = \<lparr>aw_urs = 9, aw_addr = 2, aw_raw = demo_infos 0, aw_coro = 7\<rparr>"

definition demo_completion :: "32 word \<Rightarrow> byte list \<Rightarrow> completion" where
  "demo_completion r d = \<lparr>cp_res = r, cp_data = d, cp_site = demo_site\<rparr>"

lemmas demo_echo_defs =
  session_enter_def session_complete_def session_resume_def session_reads_def session_closes_def
  await_defs connector_read_def connector_write_def connector_close_def tcp_connector_dtor_def
  tcp_connector_ctor_def fixed_defs item_valid_def tcp_read_awaiter_def tcp_write_awaiter_def
  tcp_close_awaiter_def base_io_awaiter_def demo_site_def demo_completion_def kernel_fill_def
  peer_sends_def peer_gets_def honest_def takes_all_def format_chars_def

text \<open>The example server with a client that sends three bytes and then closes.\<close>

definition demo_echo :: "32 word \<Rightarrow> completion list" where
  "demo_echo taken = [demo_completion 3 [1, 2, 3], demo_completion taken [], demo_completion 0 [],
     demo_completion 0 []]"

lemma demo_echo_run:
  assumes "taken = 3 \<or> taken = 2"
  shows "\<exists>s c1 s' c'. session_enter example_server False 8 500 42 demo_site demo_context = Inr (s, c1) \<and>
    session_run example_server False 8 500 (demo_echo taken) s c1 = Inr (s', c') \<and> sess_at s' = At_end \<and>
    session_io example_server False 8 500 (demo_echo taken) s c1 = ([1, 2, 3], take (unat taken) [1, 2, 3]) \<and>
    always honest example_server False 8 500 (demo_echo taken) s c1"
  using assms
  by (auto simp: demo_echo_def demo_echo_defs example_server_def word_sless_alt word_sle_eq)


text \<open>
  C29. A short write loses bytes: no program sends the rest. If the kernel takes only some of the
  bytes that were read, the session goes on to the next read with an empty copy buffer, and the
  bytes behind are gone.
\<close>

theorem short_write_loses_bytes:
  assumes "session_complete P fixfd answer b x s c = Inr (s1, c1)" and "sess_at s = At_write"
    and "0 <s cp_res x" and "cp_res x <s sess_ret s" and "unat (sess_ret s) \<le> length (sess_buf s)"
  shows "sess_at s1 = At_read \<and> pending s1 = [] \<and>
    (\<exists>lost. pending s = peer_gets s x @ lost \<and> lost \<noteq> [])"
proof -
  have "\<not> cp_res x \<le>s 0" using assms(3) by (simp add: word_sless_alt word_sle_eq)
  then have at: "sess_at s1 = At_read"
    using assms(1,2) by (auto simp: session_complete_def session_resume_def Let_def dest: session_reads_state)
  have le: "unat (cp_res x) \<le> unat (sess_ret s)"
    using assms(3,4) by (intro unat_mono_signed) (simp_all add: word_sless_alt word_sle_eq)
  moreover have "unat (cp_res x) \<noteq> unat (sess_ret s)" using assms(4)
    by (auto simp: word_sless_alt dest: word_eq_iff_unsigned [THEN iffD2])
  ultimately have less: "unat (cp_res x) < unat (sess_ret s)" by simp
  have "take (unat (cp_res x)) (pending s) = peer_gets s x"
    using assms(2,3) le by (simp add: pending_def peer_gets_def min_def)
  then have "pending s = peer_gets s x @ drop (unat (cp_res x)) (pending s)" by (metis append_take_drop_id)
  moreover have "drop (unat (cp_res x)) (pending s) \<noteq> []"
    using assms(2,5) less by (simp add: pending_def)
  moreover have "pending s1 = []" using at by (simp add: pending_def)
  ultimately show ?thesis using at by blast
qed

theorem short_write_loses_bytes_witness:
  "\<exists>s s1 c1. session_complete tinycoro_128 False 8 500 (demo_completion 2 []) s demo_context = Inr (s1, c1) \<and>
     pending s = [1, 2, 3] \<and> sess_at s1 = At_read \<and> pending s1 = []"
proof -
  let ?k = "\<lparr>m_sockfd = 42, m_original_fd = 42, m_fixed_fd = invalid_fd_item, m_sqe_flag = 0\<rparr>"
  let ?s = "\<lparr>sess_conn = ?k, sess_buf = [1, 2, 3, 0], sess_ret = 3, sess_at = At_write\<rparr>"
  obtain s1 c1 where st: "session_complete tinycoro_128 False 8 500 (demo_completion 2 []) ?s demo_context
      = Inr (s1, c1)"
    by (simp add: demo_echo_defs word_sless_alt word_sle_eq tinycoro_128_def)
  have "sess_at s1 = At_read \<and> pending s1 = []"
    using short_write_loses_bytes [OF st] by (simp add: demo_completion_def word_sless_alt)
  moreover have "pending ?s = [1, 2, 3]" by (simp add: pending_def)
  ultimately show ?thesis using st by blast
qed

text \<open>
  The log of a read that fills the buffer without a zero byte reads behind the buffer.
\<close>

lemma full_read_log_overruns:
  assumes "sess_at s = At_read" and "logs_data P" and "0 <s cp_res x"
    and "length (cp_data x) = length (sess_buf s)" and "0 \<notin> set (cp_data x)"
  shows "session_complete P fixfd answer b x s c = Inl Out_of_range"
  using assms by (simp add: session_complete_def session_resume_def kernel_fill_def format_chars_def)

section \<open>The accept loop\<close>

fun server_run ::
    "bool \<Rightarrow> int \<Rightarrow> (32 word \<times> site) list \<Rightarrow> echo_server \<Rightarrow>
     ('q, 'v) coro_context \<Rightarrow> (echo_server \<times> int list \<times> ('q, 'v) coro_context) res" where
  "server_run fixfd answer [] s c = Inr (s, [], c)"
| "server_run fixfd answer ((res, w) # xs) s c =
     bindE (server_resume fixfd answer res w s c) (\<lambda>(s1, new, c1).
     bindE (server_run fixfd answer xs s1 c1) (\<lambda>(s2, more, c2). Inr (s2, new @ more, c2)))"

lemma server_ended: "es_at s = Server_end \<Longrightarrow> server_run fixfd answer xs s c = Inr r \<Longrightarrow> xs = []"
  by (cases xs) (auto simp: server_resume_def bindE_Inr_iff)

text \<open>
  The accept loop starts a session for every connection, in order, until \<open>accept\<close> fails for
  the first time, for whatever reason; then the server is over, although its socket still listens.
\<close>

lemma accept_error_ends_server:
  assumes "es_at s = At_accept" and "server_run fixfd answer xs s c = Inr (s', sessions, c')"
  shows "sessions = map sint (takeWhile (\<lambda>r. 0 <s r) (map fst xs)) \<and>
    (es_at s' = Server_end \<longleftrightarrow> (\<exists>ys r w. xs = ys @ [(r, w)] \<and> \<not> 0 <s r))"
  using assms
proof (induction xs arbitrary: s c sessions)
  case Nil
  then show ?case by simp
next
  case (Cons x xs)
  obtain res w where x: "x = (res, w)" by fastforce
  from Cons.prems(2) x obtain s1 new c1 more where
    st: "server_resume fixfd answer res w s c = Inr (s1, new, c1)"
    and rest: "server_run fixfd answer xs s1 c1 = Inr (s', more, c')" and sess: "sessions = new @ more"
    by (auto simp: bindE_Inr_iff)
  show ?case
  proof (cases "0 <s res")
    case True
    with st Cons.prems(1) have "s1 = s" "new = [sint res]" by (auto simp: server_resume_def bindE_Inr_iff)
    moreover have "(\<exists>ys r w. x # xs = ys @ [(r, w)] \<and> \<not> 0 <s r) \<longleftrightarrow> (\<exists>ys r w. xs = ys @ [(r, w)] \<and> \<not> 0 <s r)"
      using True x by (auto simp: Cons_eq_append_conv)
    ultimately show ?thesis using Cons.IH [of s c1 more] Cons.prems(1) rest sess x True by simp
  next
    case False
    with st Cons.prems(1) have e: "es_at s1 = Server_end" "new = []"
      by (auto simp: server_resume_def bindE_Inr_iff)
    have "xs = []" using server_ended [OF e(1) rest] .
    then show ?thesis using rest e False x sess by (auto intro: exI [of _ "[]"])
  qed
qed

lemma accept_error_ends_server_witness:
  "\<exists>s s' c'. es_at s = At_accept \<and>
    server_run False 8 [(5, demo_site), (6, demo_site), (- 24, demo_site)] s demo_context = Inr (s', [5, 6], c') \<and>
    es_at s' = Server_end"
proof -
  let ?xs = "[(5, demo_site), (6, demo_site), (- 24, demo_site)] :: (32 word \<times> site) list"
  let ?s = "\<lparr>es_server = \<lparr>m_listenfd = 4, m_servaddr = (AF_INET, 0, 0), srv_fixed_fd = invalid_fd_item,
    srv_sqe_flag = 0\<rparr>, es_at = At_accept\<rparr>"
  obtain s' l c' where run: "server_run False 8 ?xs ?s demo_context = Inr (s', l, c')"
    by (simp add: server_resume_def server_destroy_def await_accept_def server_accept_def
        tcp_accept_awaiter_def base_io_awaiter_def demo_site_def fixed_defs item_valid_def word_sless_alt
        invalid_fd_item_def Let_def)
  from accept_error_ends_server [OF _ run] have "l = [5, 6]" "es_at s' = Server_end"
    by (simp_all add: word_sless_alt)
  moreover have "es_at ?s = At_accept" by simp
  ultimately show ?thesis using run by blast
qed

section \<open>The standard input echo\<close>

fun stdin_run ::
    "addr \<Rightarrow> completion list \<Rightarrow> session \<Rightarrow> ('q, 'v) coro_context \<Rightarrow> (session \<times> ('q, 'v) coro_context) res" where
  "stdin_run b [] s c = Inr (s, c)"
| "stdin_run b (x # xs) s c =
     bindE (stdin_echo_resume b (cp_res x) (cp_site x)
              (if sess_at s = At_read then kernel_fill (cp_data x) s else s) c) (\<lambda>(s1, c1).
       stdin_run b xs s1 c1)"

lemma await_write_effect:
  assumes "aw_urs w \<noteq> nullptr"
  shows "\<exists>c1. await_write k b len w c = Inr c1 \<and>
    m_num_io_wait_submit (egn c1) = m_num_io_wait_submit (egn c) + 1 \<and>
    kcalls (uring_of c1) = kcalls (uring_of c) @ [Sqe_set_flags (m_sqe_flag k),
      Sqe_prep (Prep_send (word_of_int (m_sockfd k)) b len 0), Sqe_set_data (aw_addr w)]"
  using start_io_effect [OF assms, of "Req_write (word_of_int (m_sockfd k)) b len 0 (m_sqe_flag k)"
      "aw_addr w" "aw_raw w" c]
  by (auto simp: await_write_def connector_write_def io_await_suspend_def upd_info_def)

lemma await_write_null: "aw_urs w = nullptr \<Longrightarrow> await_write k b len w c = Inl Assertion"
  by (simp add: await_write_def connector_write_def tcp_write_awaiter_def base_io_awaiter_def)

lemma await_write_counts:
  "await_write k b len w c = Inr c1 \<Longrightarrow> m_num_io_wait_submit (egn c1) = m_num_io_wait_submit (egn c) + 1"
  using await_write_effect [of w k b len c] await_write_null [of w k b len c]
  by (cases "aw_urs w = nullptr") auto

lemma stdin_reads_counts:
  "stdin_reads b w s c = Inr (s1, c1) \<Longrightarrow> sess_at s1 = At_read \<and>
     m_num_io_wait_submit (egn c1) = m_num_io_wait_submit (egn c) + 1"
  using start_io_effect [of "aw_urs w" "Req_stdin b (of_nat (BUFFLEN stdin_client)) 0 0" "aw_addr w" "aw_raw w" c]
    start_io_null [of "Req_stdin b (of_nat (BUFFLEN stdin_client)) 0 0" "aw_addr w" "aw_raw w" c]
  by (cases "aw_urs w = nullptr")
     (auto simp: stdin_reads_def bindE_Inr_iff io_await_suspend_def upd_info_def)

text \<open>
  The echo of the standard input cannot end. Whatever the completions say, the end of the input
  and errors included, each of them starts another request.
\<close>

lemma stdin_echo_never_ends:
  assumes "sess_at s = At_read" and "stdin_run b xs s c = Inr (s', c')"
  shows "sess_at s' = (if even (length xs) then At_read else At_write) \<and>
    m_num_io_wait_submit (egn c') = m_num_io_wait_submit (egn c) + word_of_nat (length xs)"
proof -
  have "(sess_at s' = At_read \<or> sess_at s' = At_write) \<and>
      (sess_at s' = sess_at s \<longleftrightarrow> even (length xs)) \<and>
      m_num_io_wait_submit (egn c') = m_num_io_wait_submit (egn c) + word_of_nat (length xs)"
    if "stdin_run b xs s c = Inr (s', c')" and "sess_at s = At_read \<or> sess_at s = At_write" for s c
    using that
  proof (induction xs arbitrary: s c)
    case Nil
    then show ?case by simp
  next
    case (Cons x xs)
    let ?s = "if sess_at s = At_read then kernel_fill (cp_data x) s else s"
    obtain s1 c1 where st: "stdin_echo_resume b (cp_res x) (cp_site x) ?s c = Inr (s1, c1)"
      and rest: "stdin_run b xs s1 c1 = Inr (s', c')"
      using Cons.prems(1) by (auto simp: bindE_Inr_iff)
    have "(sess_at s1 = At_read \<or> sess_at s1 = At_write) \<and> sess_at s1 \<noteq> sess_at s \<and>
        m_num_io_wait_submit (egn c1) = m_num_io_wait_submit (egn c) + 1"
    proof (cases "sess_at s = At_read")
      case True
      then show ?thesis using st await_write_counts
        by (auto simp: stdin_echo_resume_def kernel_fill_def bindE_Inr_iff)
    next
      case False
      then have "sess_at s = At_write" using Cons.prems(2) by simp
      then have "stdin_reads b (cp_site x) (s\<lparr>sess_ret := cp_res x\<rparr>) c = Inr (s1, c1)"
        using st by (simp add: stdin_echo_resume_def)
      then show ?thesis using stdin_reads_counts \<open>sess_at s = At_write\<close> by fastforce
    qed
    then show ?case using Cons.IH [OF rest] Cons.prems(2) by auto
  qed
  from this [OF assms(2)] assms(1) show ?thesis by (auto split: if_splits)
qed

definition demo_stdin :: session where
  "demo_stdin = \<lparr>sess_conn = \<lparr>m_sockfd = 42, m_original_fd = 42, m_fixed_fd = invalid_fd_item, m_sqe_flag = 0\<rparr>,
     sess_buf = replicate 10240 0, sess_ret = 0, sess_at = At_read\<rparr>"

lemma stdin_echo_never_ends_witness:
  "\<exists>s' c'. stdin_run 500 [demo_completion 0 [], demo_completion 0 [], demo_completion (- 5) []] demo_stdin
     demo_context = Inr (s', c') \<and> sess_at s' = At_write"
proof -
  let ?xs = "[demo_completion 0 [], demo_completion 0 [], demo_completion (- 5) []]"
  obtain s' c' where run: "stdin_run 500 ?xs demo_stdin demo_context = Inr (s', c')"
    by (auto simp: demo_stdin_def stdin_echo_resume_def stdin_reads_def stdin_awaiter_def demo_echo_defs)
  have "sess_at demo_stdin = At_read" by (simp add: demo_stdin_def)
  from stdin_echo_never_ends [OF this run] run show ?thesis by auto
qed

text \<open>
  When reading the standard input fails, the error is used as a length: the client asks the
  kernel to send at least \<open>2 ^ 63\<close> bytes from its buffer.
\<close>

lemma stdin_error_is_length:
  assumes "sess_at s = At_read" and "res <s 0" and "0 \<in> set (sess_buf s)" and "aw_urs w \<noteq> nullptr"
  shows "\<exists>s1 c1. stdin_echo_resume b res w s c = Inr (s1, c1) \<and>
    (\<exists>ks fd len. kcalls (uring_of c1) = ks @ [Sqe_prep (Prep_send fd b len 0), Sqe_set_data (aw_addr w)] \<and>
       2 ^ 63 \<le> unat len)"
proof -
  obtain c1 where c1: "await_write (sess_conn s) b (scast res) w c = Inr c1"
    "kcalls (uring_of c1) = kcalls (uring_of c) @ [Sqe_set_flags (m_sqe_flag (sess_conn s)),
      Sqe_prep (Prep_send (word_of_int (m_sockfd (sess_conn s))) b (scast res) 0), Sqe_set_data (aw_addr w)]"
    using await_write_effect [OF assms(4), of "sess_conn s" b "scast res" c] by blast
  have neg: "sint res < 0" "- (2 ^ 31) \<le> sint res"
    using assms(2) sint_ge [of res] by (simp_all add: word_sless_alt)
  have "uint (scast res :: u64) = sint res mod 2 ^ 64"
    unfolding scast_eq unsigned_of_int take_bit_eq_mod by simp
  also have "\<dots> = (sint res + 2 ^ 64) mod 2 ^ 64" by (simp only: mod_add_self2)
  also have "\<dots> = sint res + 2 ^ 64" using neg by (intro mod_pos_pos_trivial) simp_all
  finally have u: "uint (scast res :: u64) = sint res + 2 ^ 64" .
  have "nat (2 ^ 63) \<le> nat (sint res + 2 ^ 64)" using neg by (intro nat_mono) simp
  then have "2 ^ 63 \<le> unat (scast res :: u64)" unfolding unat_eq_nat_uint u by simp
  moreover have "stdin_echo_resume b res w s c = Inr (s\<lparr>sess_ret := res, sess_at := At_write\<rparr>, c1)"
    using assms(1,3) c1(1) by (simp add: stdin_echo_resume_def format_chars_def)
  moreover have "kcalls (uring_of c1) = (kcalls (uring_of c) @ [Sqe_set_flags (m_sqe_flag (sess_conn s))]) @
      [Sqe_prep (Prep_send (word_of_int (m_sockfd (sess_conn s))) b (scast res) 0), Sqe_set_data (aw_addr w)]"
    using c1(2) by simp
  ultimately show ?thesis by blast
qed

lemma stdin_error_is_length_witness:
  "\<exists>s1 c1. stdin_echo_resume 500 (- 5) demo_site demo_stdin demo_context = Inr (s1, c1) \<and>
    (\<exists>ks fd len. kcalls (uring_of c1) = ks @ [Sqe_prep (Prep_send fd 500 len 0), Sqe_set_data 2] \<and>
       2 ^ 63 \<le> unat len)"
proof -
  have h: "sess_at demo_stdin = At_read" "(- 5 :: 32 word) <s 0" "0 \<in> set (sess_buf demo_stdin)"
    "aw_urs demo_site \<noteq> nullptr" "aw_addr demo_site = 2"
    by (simp_all add: demo_stdin_def demo_site_def word_sless_alt)
  from stdin_error_is_length [OF h(1-4), of 500 demo_context] show ?thesis unfolding h(5) .
qed

end
