(* ===== verification/Baselines.thy ===== *)
theory Baselines
  imports Tcp Utils
begin

unbundle bit_operations_syntax

text \<open>
  The programs the library is measured against: the io_uring and the epoll echo server of
  src/benchmark/base_model and the thread pool of src/benchtests/bench_helper.hpp. The kernel is
  seen through the completions and answers it gives.
\<close>

section \<open>The io_uring server\<close>

definition EVENT_ACCEPT :: "32 word" where
  "EVENT_ACCEPT = 0"

definition EVENT_READ :: "32 word" where
  "EVENT_READ = 1"

definition EVENT_WRITE :: "32 word" where
  "EVENT_WRITE = 2"

definition ENTRIES_LENGTH :: nat where
  "ENTRIES_LENGTH = 1024"

definition BUFFER_LENGTH :: nat where
  "BUFFER_LENGTH = 1024"

lemmas event_defs = EVENT_ACCEPT_def EVENT_READ_def EVENT_WRITE_def

text \<open>
  A \<open>conn_info\<close> is copied into the eight bytes of \<open>user_data\<close> and back: the descriptor first, so
  in the low half.
\<close>

record conn_info =
  ci_fd :: "32 word"
  ci_event :: "32 word"

definition to_user_data :: "conn_info \<Rightarrow> u64" where
  "to_user_data i = ucast (ci_fd i) OR push_bit 32 (ucast (ci_event i))"

definition from_user_data :: "u64 \<Rightarrow> conn_info" where
  "from_user_data d = \<lparr>ci_fd = ucast d, ci_event = ucast (drop_bit 32 d)\<rparr>"

datatype base_op = Op_recv "32 word" nat | Op_send "32 word" nat | Op_accept "32 word"

text \<open>
  The requests prepared since the last submission, the one buffer all connections share, and the
  descriptors closed.
\<close>

record base_server =
  bs_sockfd :: "32 word"
  bs_sqes :: "(base_op \<times> u64) list"
  bs_buffer :: "byte list"
  bs_closed :: "32 word list"

text \<open>
  \<open>io_uring_get_sqe\<close> answers null when all entries are taken, and the code writes through what it
  answers.
\<close>

definition base_prep :: "base_op \<Rightarrow> conn_info \<Rightarrow> base_server \<Rightarrow> base_server res" where
  "base_prep x i s =
     (if length (bs_sqes s) < ENTRIES_LENGTH then Inr (s\<lparr>bs_sqes := bs_sqes s @ [(x, to_user_data i)]\<rparr>)
      else Inl Dangling)"

definition set_event_recv :: "32 word \<Rightarrow> nat \<Rightarrow> base_server \<Rightarrow> base_server res" where
  "set_event_recv sockfd len = base_prep (Op_recv sockfd len) \<lparr>ci_fd = sockfd, ci_event = EVENT_READ\<rparr>"

definition set_event_send :: "32 word \<Rightarrow> nat \<Rightarrow> base_server \<Rightarrow> base_server res" where
  "set_event_send sockfd len = base_prep (Op_send sockfd len) \<lparr>ci_fd = sockfd, ci_event = EVENT_WRITE\<rparr>"

definition set_event_accept :: "32 word \<Rightarrow> base_server \<Rightarrow> base_server res" where
  "set_event_accept sockfd = base_prep (Op_accept sockfd) \<lparr>ci_fd = sockfd, ci_event = EVENT_ACCEPT\<rparr>"

text \<open>\<open>init_server\<close> answers -1 when \<open>bind\<close> fails; \<open>main\<close> does not look at it.\<close>

definition init_server :: "int \<Rightarrow> int \<Rightarrow> int" where
  "init_server fd_answer bind_answer = (if bind_answer = -1 then -1 else fd_answer)"

definition base_start :: "int \<Rightarrow> int \<Rightarrow> base_server res" where
  "base_start fd_answer bind_answer =
     (let sockfd = word_of_int (init_server fd_answer bind_answer) in
      set_event_accept sockfd
        \<lparr>bs_sockfd = sockfd, bs_sqes = [], bs_buffer = replicate BUFFER_LENGTH 0, bs_closed = []\<rparr>)"

definition base_entry :: "u64 \<Rightarrow> 32 word \<Rightarrow> base_server \<Rightarrow> base_server res" where
  "base_entry user_data ret s =
     (let i = from_user_data user_data in
      if ci_event i = EVENT_ACCEPT then
        bindE (set_event_accept (bs_sockfd s) s) (set_event_recv ret BUFFER_LENGTH)
      else if ci_event i = EVENT_READ then
        if ret = 0 then Inr (s\<lparr>bs_closed := bs_closed s @ [ci_fd i]\<rparr>)
        else if 0 <s ret then set_event_send (ci_fd i) (unat ret) s
        else Inr s
      else if ci_event i = EVENT_WRITE then set_event_recv (ci_fd i) BUFFER_LENGTH s
      else Inr s)"

text \<open>
  A completion is its \<open>user_data\<close>, its result and, of a \<open>recv\<close>, the bytes put into the buffer.
\<close>

type_synonym base_cqe = "u64 \<times> 32 word \<times> byte list"

fun base_entries :: "base_cqe list \<Rightarrow> base_server \<Rightarrow> base_server res" where
  "base_entries [] s = Inr s"
| "base_entries ((d, r, _) # es) s = bindE (base_entry d r s) (base_entries es)"

text \<open>
  A turn of the loop: submit, wait, take at most 128 completions, handle them. The data of all of
  them is in the buffer before the first is handled.
\<close>

definition base_fill :: "base_cqe list \<Rightarrow> byte list \<Rightarrow> byte list" where
  "base_fill es b = foldl (\<lambda>b (_, _, d). d @ drop (length d) b) b es"

definition base_round :: "base_cqe list \<Rightarrow> base_server \<Rightarrow> base_server res" where
  "base_round es s =
     base_entries es (s\<lparr>bs_sqes := [], bs_buffer := base_fill es (bs_buffer s)\<rparr>)"

text \<open>What the peers get by the next submission.\<close>

fun base_sends :: "(base_op \<times> u64) list \<Rightarrow> byte list \<Rightarrow> (32 word \<times> byte list) list" where
  "base_sends [] b = []"
| "base_sends ((Op_send fd len, _) # xs) b = (fd, take len b) # base_sends xs b"
| "base_sends (_ # xs) b = base_sends xs b"

section \<open>The epoll server\<close>

datatype epoll_call =
    Sys_accept int
  | Sys_getfl int
  | Sys_setfl int "32 word"
  | Epoll_add int "32 word"
  | Epoll_del int
  | Sys_close int
  | Sys_read int nat
  | Sys_write int "byte list"

definition EPOLLIN :: "32 word" where "EPOLLIN = 1"
definition EPOLLERR :: "32 word" where "EPOLLERR = 8"
definition EPOLLHUP :: "32 word" where "EPOLLHUP = 16"
definition EPOLLET :: "32 word" where "EPOLLET = push_bit 31 1"

definition epoll_buff :: nat where
  "epoll_buff = 16384 + 16"

text \<open>The answers to the calls that one event causes, and the bytes a read delivered.\<close>

record epoll_answers =
  ep_accept :: int
  ep_getfl :: int
  ep_setfl :: int
  ep_read :: int
  ep_data :: "byte list"

definition epoll_accept :: "int \<Rightarrow> epoll_answers \<Rightarrow> epoll_call list" where
  "epoll_accept socketFd ans =
     (let fd = ep_accept ans in
      Sys_accept socketFd #
      (if 0 < fd then
         Sys_getfl fd #
         (if ep_getfl ans < 0 then []
          else Sys_setfl fd (word_of_int (ep_getfl ans) OR O_NONBLOCK) #
            (if ep_setfl ans < 0 then [] else [Epoll_add fd (EPOLLIN OR EPOLLET)]))
       else []))"

definition epoll_event :: "int \<Rightarrow> int \<Rightarrow> 32 word \<Rightarrow> epoll_answers \<Rightarrow> epoll_call list" where
  "epoll_event socketFd fd events ans =
     (if fd = socketFd then
        if events AND EPOLLIN \<noteq> 0 then epoll_accept socketFd ans else []
      else if events AND EPOLLERR \<noteq> 0 \<or> events AND EPOLLHUP \<noteq> 0 then [Epoll_del fd, Sys_close fd]
      else if events AND EPOLLIN \<noteq> 0 then
        Sys_read fd epoll_buff #
        (if ep_read ans = -1 then [Epoll_del fd, Sys_close fd]
         else [Sys_write fd (take (nat (ep_read ans)) (ep_data ans))])
      else [])"

text \<open>\<open>main\<close> up to its loop: the descriptor that is watched, or the exit code.\<close>

definition epoll_setup :: "int \<Rightarrow> int \<Rightarrow> int \<Rightarrow> int + int \<times> epoll_call list" where
  "epoll_setup fd_answer bind_answer listen_answer =
     (if bind_answer = -1 then Inl (-1)
      else if listen_answer = -1 then Inl (-1)
      else Inr (fd_answer, [Epoll_add fd_answer EPOLLIN]))"

fun epoll_events :: "int \<Rightarrow> (int \<times> 32 word \<times> epoll_answers) list \<Rightarrow> epoll_call list" where
  "epoll_events socketFd [] = []"
| "epoll_events socketFd ((fd, ev, ans) # es) = epoll_event socketFd fd ev ans @ epoll_events socketFd es"

section \<open>The thread pool\<close>

record 't thread_pool =
  m_thread_num :: int
  m_cur_pos :: int
  m_ques :: "'t list list"
  m_threads :: "nat list"

text \<open>
  A negative number of threads makes \<open>resize\<close> throw inside a \<open>noexcept\<close> constructor.
\<close>

definition new_pool :: "int \<Rightarrow> 't thread_pool res" where
  "new_pool thread_num =
     (if thread_num < 0 then Inl Std_exception
      else Inr \<lparr>m_thread_num = thread_num, m_cur_pos = 0, m_ques = replicate (nat thread_num) [], m_threads = []\<rparr>)"

definition pool_submit :: "'t \<Rightarrow> 't thread_pool \<Rightarrow> 't thread_pool res" where
  "pool_submit t p =
     (let i = nat (m_cur_pos p) in
      if length (m_ques p) \<le> i then Inl Out_of_range
      else Inr (p\<lparr>m_ques := (m_ques p)[i := m_ques p ! i @ [t]],
                 m_cur_pos := (m_cur_pos p + 1) mod m_thread_num p\<rparr>))"

fun pool_submit_all :: "'t list \<Rightarrow> 't thread_pool \<Rightarrow> 't thread_pool res" where
  "pool_submit_all [] p = Inr p"
| "pool_submit_all (t # ts) p = bindE (pool_submit t p) (pool_submit_all ts)"

definition pool_start :: "'t thread_pool \<Rightarrow> 't thread_pool" where
  "pool_start p = p\<lparr>m_threads := m_threads p @ [0..<nat (m_thread_num p)]\<rparr>"

text \<open>\<open>run\<close> of one thread: what each task does is \<open>act\<close>.\<close>

fun run_tasks :: "('t \<Rightarrow> 's \<Rightarrow> 's) \<Rightarrow> 't list \<Rightarrow> 's \<Rightarrow> 's" where
  "run_tasks act [] s = s"
| "run_tasks act (t # q) s = run_tasks act q (act t s)"

definition pool_run :: "('t \<Rightarrow> 's \<Rightarrow> 's) \<Rightarrow> nat \<Rightarrow> 't thread_pool \<Rightarrow> 's \<Rightarrow> 't thread_pool \<times> 's" where
  "pool_run act i p s = (p\<lparr>m_ques := (m_ques p)[i := []]\<rparr>, run_tasks act (m_ques p ! i) s)"

section \<open>Lemmas\<close>

lemma user_data_roundtrip [simp]: "from_user_data (to_user_data i) = i"
proof -
  have "ucast (to_user_data i) = ci_fd i"
    by (rule bit_word_eqI) (simp add: to_user_data_def bit_simps)
  moreover have "ucast (drop_bit 32 (to_user_data i)) = ci_event i"
    by (rule bit_word_eqI) (auto simp: to_user_data_def bit_simps dest: bit_imp_le_length)
  ultimately show ?thesis by (simp add: from_user_data_def)
qed

lemma base_prep_fits:
  "length (bs_sqes s) < ENTRIES_LENGTH \<Longrightarrow>
   \<exists>s'. base_prep x i s = Inr s' \<and> length (bs_sqes s') = Suc (length (bs_sqes s))"
  by (simp add: base_prep_def)

lemma base_entry_fits:
  assumes "length (bs_sqes s) + 2 \<le> ENTRIES_LENGTH"
  shows "\<exists>s'. base_entry d r s = Inr s' \<and> length (bs_sqes s') \<le> length (bs_sqes s) + 2"
proof -
  have one: "\<exists>s'. base_prep x i s = Inr s' \<and> length (bs_sqes s') = Suc (length (bs_sqes s))" for x i
    using base_prep_fits assms by simp
  have two: "\<exists>s'. bindE (base_prep x i s) (base_prep y j) = Inr s' \<and>
      length (bs_sqes s') = Suc (Suc (length (bs_sqes s)))" for x i y j
  proof -
    obtain s1 where s1: "base_prep x i s = Inr s1" "length (bs_sqes s1) = Suc (length (bs_sqes s))"
      using one by blast
    then show ?thesis using base_prep_fits [of s1 y j] assms by auto
  qed
  let ?i = "from_user_data d"
  consider (acc) "ci_event ?i = EVENT_ACCEPT" | (rd) "ci_event ?i = EVENT_READ"
    | (wr) "ci_event ?i = EVENT_WRITE" | (other) "ci_event ?i \<notin> {EVENT_ACCEPT, EVENT_READ, EVENT_WRITE}"
    by blast
  then show ?thesis
  proof cases
    case acc
    with two [of "Op_accept (bs_sockfd s)"] show ?thesis
      by (fastforce simp: base_entry_def set_event_recv_def set_event_accept_def)
  next
    case rd
    then have "ci_event ?i \<noteq> EVENT_ACCEPT" by (simp add: event_defs)
    with rd one show ?thesis by (fastforce simp: base_entry_def set_event_send_def Let_def)
  next
    case wr
    then have "ci_event ?i \<noteq> EVENT_ACCEPT" "ci_event ?i \<noteq> EVENT_READ" by (simp_all add: event_defs)
    with wr one show ?thesis by (fastforce simp: base_entry_def set_event_recv_def Let_def)
  next
    case other
    then show ?thesis by (simp add: base_entry_def Let_def)
  qed
qed

lemma base_entries_fit:
  "length (bs_sqes s) + 2 * length es \<le> ENTRIES_LENGTH \<Longrightarrow>
   \<exists>s'. base_entries es s = Inr s' \<and> length (bs_sqes s') \<le> length (bs_sqes s) + 2 * length es"
proof (induction es arbitrary: s)
  case Nil
  then show ?case by simp
next
  case (Cons e es)
  obtain d r b where e: "e = (d, r, b)" by (cases e)
  obtain s1 where s1: "base_entry d r s = Inr s1" "length (bs_sqes s1) \<le> length (bs_sqes s) + 2"
    using base_entry_fits [of s d r] Cons.prems by auto
  then show ?case using Cons.IH [of s1] Cons.prems e by auto
qed

section \<open>Properties\<close>

text \<open>
  The ring of the server is large enough: a turn that takes at most 128 completions prepares at
  most 256 requests and never runs out of entries, in whatever order completions arrive.
\<close>

lemma base_round_fits:
  assumes "length es \<le> 128"
  shows "\<exists>s'. base_round es s = Inr s' \<and> length (bs_sqes s') \<le> 256"
  using base_entries_fit [of "s\<lparr>bs_sqes := [], bs_buffer := base_fill es (bs_buffer s)\<rparr>" es] assms
  by (fastforce simp: base_round_def ENTRIES_LENGTH_def)

text \<open>
  The io_uring server mixes up its clients: all connections share one buffer, so when two reads
  complete in the same turn, both clients are sent the bytes of the second.
\<close>

lemma base_server_mixes_clients:
  assumes "length d1 = n" and "length d2 = n" and "0 < n" and "n \<le> BUFFER_LENGTH"
  shows "\<exists>s'. base_round
      [(to_user_data \<lparr>ci_fd = a, ci_event = EVENT_READ\<rparr>, word_of_nat n, d1),
       (to_user_data \<lparr>ci_fd = b, ci_event = EVENT_READ\<rparr>, word_of_nat n, d2)] s = Inr s' \<and>
    base_sends (bs_sqes s') (bs_buffer s') = [(a, d2), (b, d2)]"
proof -
  have n: "unat (word_of_nat n :: 32 word) = n" "n < 2 ^ 31"
    using assms(4) by (simp_all add: unat_of_nat take_bit_nat_eq_self_iff BUFFER_LENGTH_def)
  then have u: "uint (word_of_nat n :: 32 word) = int n" by (metis uint_nat)
  have "sint (word_of_nat n :: 32 word) = int n"
    using n(2) by (simp add: signed_of_nat signed_take_bit_int_eq_self)
  then have pos: "0 <s (word_of_nat n :: 32 word)" "(word_of_nat n :: 32 word) \<noteq> 0"
    using assms(3) by (auto simp: word_sless_alt)
  show ?thesis
    using assms pos n(1)
    by (simp add: base_round_def base_fill_def base_entry_def set_event_send_def base_prep_def
        ENTRIES_LENGTH_def event_defs Let_def)
qed

lemma base_server_mixes_clients_witness:
  "\<exists>s0 s'. base_start 4 0 = Inr s0 \<and> base_round
      [(to_user_data \<lparr>ci_fd = 5, ci_event = EVENT_READ\<rparr>, word_of_nat 3, [1, 2, 3]),
       (to_user_data \<lparr>ci_fd = 6, ci_event = EVENT_READ\<rparr>, word_of_nat 3, [7, 8, 9])] s0 = Inr s' \<and>
    base_sends (bs_sqes s') (bs_buffer s') = [(5, [7, 8, 9]), (6, [7, 8, 9])]"
proof -
  obtain s0 where s0: "base_start 4 0 = Inr s0"
    by (simp add: base_start_def set_event_accept_def base_prep_def ENTRIES_LENGTH_def Let_def)
  with base_server_mixes_clients [of "[1, 2, 3]" 3 "[7, 8, 9]" 5 6 s0] show ?thesis
    by (simp add: BUFFER_LENGTH_def)
qed

text \<open>
  After a read error the connection is neither closed nor read again; the epoll server does not
  close a connection at the end of its input.
\<close>

lemma base_read_error_leaks:
  "r <s 0 \<Longrightarrow> base_entry (to_user_data \<lparr>ci_fd = a, ci_event = EVENT_READ\<rparr>) r s = Inr s"
  by (auto simp: base_entry_def event_defs word_sless_alt Let_def)

lemma epoll_eof_stays_open:
  assumes "fd \<noteq> socketFd" and "ep_read ans = 0"
  shows "epoll_event socketFd fd EPOLLIN ans = [Sys_read fd epoll_buff, Sys_write fd []]"
  using assms by (simp add: epoll_event_def EPOLLIN_def EPOLLERR_def EPOLLHUP_def)

lemma pool_submit_all_eq:
  assumes "m_thread_num p = int n" "0 < n" "length (m_ques p) = n" "m_cur_pos p = int (k mod n)"
  shows "\<exists>p'. pool_submit_all ts p = Inr p' \<and> length (m_ques p') = n \<and>
    (\<forall>i < n. m_ques p' ! i = m_ques p ! i @ map snd (filter (\<lambda>(j, _). j mod n = i) (enumerate k ts)))"
  using assms
proof (induction ts arbitrary: p k)
  case Nil
  then show ?case by simp
next
  case (Cons t ts)
  let ?i = "k mod n"
  let ?p = "p\<lparr>m_ques := (m_ques p)[?i := m_ques p ! ?i @ [t]], m_cur_pos := int (Suc k mod n)\<rparr>"
  have pos: "(m_cur_pos p + 1) mod m_thread_num p = int (Suc k mod n)"
    using Cons.prems(1,4) by (simp add: zmod_int mod_add_right_eq add.commute)
  have i: "nat (m_cur_pos p) = ?i" unfolding Cons.prems(4) by (rule nat_int)
  have "\<not> length (m_ques p) \<le> ?i" using Cons.prems(3) mod_less_divisor [OF Cons.prems(2)] by (simp add: not_le)
  then have one: "pool_submit t p = Inr ?p"
    unfolding pool_submit_def i pos Let_def by simp
  obtain p' where p': "pool_submit_all ts ?p = Inr p'" "length (m_ques p') = n"
    "\<forall>i < n. m_ques p' ! i = m_ques ?p ! i @ map snd (filter (\<lambda>(j, _). j mod n = i) (enumerate (Suc k) ts))"
    using Cons.IH [of ?p "Suc k"] Cons.prems by auto
  then show ?case
    using one Cons.prems by (auto simp: nth_list_update)
qed

text \<open>
  The thread pool deals its tasks round robin: with \<open>n\<close> threads, thread \<open>i\<close> runs exactly the
  tasks whose position among the submissions is \<open>i\<close> modulo \<open>n\<close>, each once and in order, and
  then its queue is empty.
\<close>

lemma pool_deals_round_robin:
  assumes "0 < n" and "i < n" and "new_pool (int n) = Inr p"
  shows "\<exists>p'. pool_submit_all ts p = Inr p' \<and>
    (let mine = map snd (filter (\<lambda>(j, _). j mod n = i) (enumerate 0 ts)) in
     snd (pool_run act i (pool_start p') s) = run_tasks act mine s \<and>
     m_ques (fst (pool_run act i (pool_start p') s)) ! i = [])"
proof -
  have p: "m_thread_num p = int n" "length (m_ques p) = n" "m_cur_pos p = int (0 mod n)" "m_ques p ! i = []"
    using assms by (auto simp: new_pool_def)
  from pool_submit_all_eq [OF p(1) assms(1) p(2,3), of ts] obtain p' where
    "pool_submit_all ts p = Inr p'" "length (m_ques p') = n"
    "m_ques p' ! i = map snd (filter (\<lambda>(j, _). j mod n = i) (enumerate 0 ts))"
    using assms(2) p(4) by auto
  then show ?thesis using assms(2) by (auto simp: pool_run_def pool_start_def)
qed

lemma pool_deals_round_robin_witness:
  "\<exists>p p'. new_pool 2 = Inr p \<and> pool_submit_all [10, 11, 12 :: nat] p = Inr p' \<and>
     snd (pool_run (\<lambda>t s. s @ [t]) 0 (pool_start p') []) = [10, 12]"
proof -
  obtain p :: "nat thread_pool" where p: "new_pool (int 2) = Inr p" by (simp add: new_pool_def)
  from pool_deals_round_robin [of 2 0 p "[10, 11, 12]" "\<lambda>t s. s @ [t]" "[]"] p show ?thesis
    by (auto simp: enumerate_eq_zip)
qed

end
