(* ===== verification/Spinlock.thy ===== *)
theory Spinlock
  imports Coro_Prelude
begin

text \<open>
  \<open>coro::detail::spinlock\<close> (include/coro/spinlock.hpp): a test-and-test-and-set lock over one
  atomic flag.
\<close>

section \<open>Operations\<close>

record spinlock =
  lock_flag :: bool

definition new_spinlock :: spinlock where
  "new_spinlock = \<lparr>lock_flag = False\<rparr>"

text \<open>The exchange with which \<open>lock\<close> tries to enter: whether it succeeded.\<close>

definition spin_exchange :: "spinlock \<Rightarrow> bool \<times> spinlock" where
  "spin_exchange l = (case exchange (lock_flag l) True of (old, new) \<Rightarrow> (\<not> old, l\<lparr>lock_flag := new\<rparr>))"

text \<open>
  \<open>lock\<close> run alone: the first exchange succeeds on a free lock, and on a held one the inner loop
  waits for a release that nobody makes.
\<close>

definition spin_lock :: "spinlock \<Rightarrow> spinlock res" where
  "spin_lock l = (case spin_exchange l of (ok, l1) \<Rightarrow> if ok then Inr l1 else Inl Would_block)"

definition spin_try_lock :: "spinlock \<Rightarrow> bool \<times> spinlock" where
  "spin_try_lock l = (if lock_flag l then (False, l) else spin_exchange l)"

definition spin_unlock :: "spinlock \<Rightarrow> spinlock" where
  "spin_unlock l = l\<lparr>lock_flag := False\<rparr>"

lemmas spin_defs =
  spin_exchange_def spin_lock_def spin_try_lock_def spin_unlock_def atomic_defs

lemma spin_lock_unlock: "\<not> lock_flag l \<Longrightarrow> \<exists>l1. spin_lock l = Inr l1 \<and> spin_unlock l1 = l"
  by (cases l) (simp add: spin_defs)

section \<open>Threads\<close>

text \<open>
  Outside, at the exchange of \<open>lock\<close>, in its inner loop, between the load and the exchange of
  \<open>try_lock\<close>, and inside.
\<close>

datatype spin_pc = P_out | P_exchange | P_spin | P_try | P_inside

record spin_system =
  sys_lock :: spinlock
  ppc :: "nat \<Rightarrow> spin_pc"

inductive spin_step :: "spin_system \<Rightarrow> spin_system \<Rightarrow> bool" where
  L_call: "ppc s t = P_out \<Longrightarrow> spin_step s (s\<lparr>ppc := (ppc s)(t := P_exchange)\<rparr>)"
| L_exchange: "ppc s t = P_exchange \<Longrightarrow> spin_exchange (sys_lock s) = (ok, l) \<Longrightarrow>
    spin_step s (s\<lparr>sys_lock := l, ppc := (ppc s)(t := if ok then P_inside else P_spin)\<rparr>)"
| L_spin: "ppc s t = P_spin \<Longrightarrow>
    spin_step s (s\<lparr>ppc := (ppc s)(t := if lock_flag (sys_lock s) then P_spin else P_exchange)\<rparr>)"
| L_try: "ppc s t = P_out \<Longrightarrow>
    spin_step s (s\<lparr>ppc := (ppc s)(t := if lock_flag (sys_lock s) then P_out else P_try)\<rparr>)"
| L_try_exchange: "ppc s t = P_try \<Longrightarrow> spin_exchange (sys_lock s) = (ok, l) \<Longrightarrow>
    spin_step s (s\<lparr>sys_lock := l, ppc := (ppc s)(t := if ok then P_inside else P_out)\<rparr>)"
| L_unlock: "ppc s t = P_inside \<Longrightarrow>
    spin_step s (s\<lparr>sys_lock := spin_unlock (sys_lock s), ppc := (ppc s)(t := P_out)\<rparr>)"

definition spin_start :: "spin_system \<Rightarrow> bool" where
  "spin_start s \<longleftrightarrow> sys_lock s = new_spinlock \<and> ppc s = (\<lambda>_. P_out)"

definition spin_inv :: "spin_system \<Rightarrow> bool" where
  "spin_inv s \<longleftrightarrow>
     (\<forall>t u. ppc s t = P_inside \<longrightarrow> ppc s u = P_inside \<longrightarrow> t = u) \<and>
     (lock_flag (sys_lock s) \<longleftrightarrow> (\<exists>t. ppc s t = P_inside))"

lemma spin_inv_enter:
  assumes "spin_inv s" "\<not> lock_flag (sys_lock s)" "lock_flag l"
  shows "spin_inv (s\<lparr>sys_lock := l, ppc := (ppc s)(t := P_inside)\<rparr>)"
  using assms unfolding spin_inv_def by auto

lemma spin_inv_stay:
  assumes "spin_inv s" "ppc s t \<noteq> P_inside" "p \<noteq> P_inside" "lock_flag l = lock_flag (sys_lock s)"
  shows "spin_inv (s\<lparr>sys_lock := l, ppc := (ppc s)(t := p)\<rparr>)"
  using assms unfolding spin_inv_def by (auto; metis)

lemma spin_inv_leave:
  assumes "spin_inv s" "ppc s t = P_inside" "p \<noteq> P_inside" "\<not> lock_flag l"
  shows "spin_inv (s\<lparr>sys_lock := l, ppc := (ppc s)(t := p)\<rparr>)"
  using assms unfolding spin_inv_def by (auto; metis)

lemma spin_step_inv:
  assumes "spin_step s s'" and I: "spin_inv s"
  shows "spin_inv s'"
  using assms(1)
proof cases
  case (L_call t)
  with spin_inv_stay [OF I, of t P_exchange "sys_lock s"] show ?thesis by simp
next
  case (L_exchange t ok l)
  then show ?thesis
    using spin_inv_stay [OF I, of t P_spin l] spin_inv_enter [OF I, of l t]
    by (auto simp: spin_defs split: if_splits)
next
  case (L_spin t)
  with spin_inv_stay [OF I, of t "if lock_flag (sys_lock s) then P_spin else P_exchange" "sys_lock s"]
  show ?thesis by (auto split: if_splits)
next
  case (L_try t)
  with spin_inv_stay [OF I, of t "if lock_flag (sys_lock s) then P_out else P_try" "sys_lock s"]
  show ?thesis by (auto split: if_splits)
next
  case (L_try_exchange t ok l)
  then show ?thesis
    using spin_inv_stay [OF I, of t P_out l] spin_inv_enter [OF I, of l t]
    by (auto simp: spin_defs split: if_splits)
next
  case (L_unlock t)
  with spin_inv_leave [OF I, of t P_out "spin_unlock (sys_lock s)"] show ?thesis
    by (simp add: spin_unlock_def)
qed

section \<open>Properties\<close>

text \<open>
  C18. The spinlock admits one thread at a time, however threads lock, try and unlock, and its flag is
  up exactly while some thread is inside.
\<close>

theorem spinlock_mutual_exclusion:
  assumes "spin_start s0" and "spin_step\<^sup>*\<^sup>* s0 s"
  shows "(ppc s t = P_inside \<and> ppc s u = P_inside \<longrightarrow> t = u) \<and>
    (lock_flag (sys_lock s) \<longleftrightarrow> (\<exists>t. ppc s t = P_inside))"
proof -
  have "spin_inv s0" using assms(1) by (simp add: spin_start_def spin_inv_def new_spinlock_def)
  with assms(2) have "spin_inv s"
    by (induction rule: rtranclp_induct) (auto intro: spin_step_inv)
  then show ?thesis unfolding spin_inv_def by blast
qed

theorem spinlock_mutual_exclusion_witness:
  "\<exists>s. spin_step\<^sup>*\<^sup>* \<lparr>sys_lock = new_spinlock, ppc = (\<lambda>_. P_out)\<rparr> s \<and> ppc s 3 = P_inside \<and>
     lock_flag (sys_lock s)"
proof -
  let ?s0 = "\<lparr>sys_lock = new_spinlock, ppc = (\<lambda>_. P_out)\<rparr>"
  let ?s1 = "?s0\<lparr>ppc := (\<lambda>_. P_out)(3 := P_exchange)\<rparr>"
  let ?s2 = "?s1\<lparr>sys_lock := \<lparr>lock_flag = True\<rparr>, ppc := (\<lambda>_. P_out)(3 := P_inside)\<rparr>"
  have "spin_step ?s0 ?s1" using L_call [of ?s0 3] by simp
  moreover have "spin_step ?s1 ?s2"
    using L_exchange [of ?s1 3 True "\<lparr>lock_flag = True\<rparr>"] by (simp add: spin_defs new_spinlock_def)
  ultimately have run: "spin_step\<^sup>*\<^sup>* ?s0 ?s2" by (meson rtranclp.rtrancl_into_rtrancl rtranclp.rtrancl_refl)
  have "spin_start ?s0" by (simp add: spin_start_def)
  from spinlock_mutual_exclusion [OF this run, of 3 3] have "lock_flag (sys_lock ?s2)"
    by (simp add: exI [of _ 3])
  with run show ?thesis by (intro exI [of _ ?s2]) simp
qed

end
