(* ===== verification/Condition_Variable.thy ===== *)
theory Condition_Variable
  imports Spinlock Mutex
begin

text \<open>
  \<open>coro::condition_variable\<close> (include/coro/comp/condition_variable.hpp,
  src/comp/condition_variable.cpp). Its awaiters extend those of the mutex: one link serves both
  lists, and \<open>resume\<close> is virtual, so unlocking the mutex may run the condition of the awaiter it
  picks, put it back into the list of the condition variable, and unlock again.
\<close>

section \<open>State\<close>

text \<open>
  A condition is user code that reads some state of type \<open>'u\<close>. \<open>is_cv\<close> is the dynamic type of
  the awaiter: whether \<open>resume\<close> is the overridden one.
\<close>

record 'u cv_waiter = waiter +
  is_cv :: bool
  m_cond :: "('u \<Rightarrow> bool) option"
  m_suspend_state :: bool

type_synonym ('q, 'v, 'u) cv_world = "('q, 'v, ('u, unit) cv_waiter_ext) world"

record cond_var =
  cv_spin :: spinlock
  m_head :: addr
  m_tail :: addr

definition new_cond_var :: cond_var where
  "new_cond_var = \<lparr>cv_spin = new_spinlock, m_head = nullptr, m_tail = nullptr\<rparr>"

definition cond_var_dtor :: "cond_var \<Rightarrow> unit res" where
  "cond_var_dtor cv = assertE (m_head cv = nullptr \<and> m_tail cv = nullptr)"

definition cv_wait :: "nat \<Rightarrow> ('u \<Rightarrow> bool) option \<Rightarrow> addr \<Rightarrow> ('q, 'v, 'u) cv_world \<Rightarrow> ('q, 'v, 'u) cv_world" where
  "cv_wait i cond a w =
     w\<lparr>waiters := (waiters w)(a := \<lparr>m_ctx = i, m_next = nullptr, m_await_coro = nullptr,
        is_cv = True, m_cond = cond, m_suspend_state = False\<rparr>)\<rparr>"

section \<open>Operations\<close>

text \<open>\<open>m_cond && m_cond()\<close> and \<open>m_cond && !m_cond()\<close>.\<close>

definition cond_holds :: "'u \<Rightarrow> addr \<Rightarrow> ('q, 'v, 'u) cv_world \<Rightarrow> bool" where
  "cond_holds u a w = (case m_cond (waiters w a) of None \<Rightarrow> False | Some c \<Rightarrow> c u)"

definition cond_fails :: "'u \<Rightarrow> addr \<Rightarrow> ('q, 'v, 'u) cv_world \<Rightarrow> bool" where
  "cond_fails u a w = (case m_cond (waiters w a) of None \<Rightarrow> False | Some c \<Rightarrow> \<not> c u)"

text \<open>\<open>m_ctx.register_wait(!m_suspend_state); m_suspend_state = true;\<close>\<close>

definition set_suspend :: "addr \<Rightarrow> ('q, 'v, 'u) cv_world \<Rightarrow> ('q, 'v, 'u) cv_world" where
  "set_suspend a w =
     (let w1 = waiter_register (if m_suspend_state (waiters w a) then 0 else 1) a w in
      w1\<lparr>waiters := (waiters w1)(a := (waiters w1 a)\<lparr>m_suspend_state := True\<rparr>)\<rparr>)"

definition register_cv ::
    "addr \<Rightarrow> cond_var \<Rightarrow> ('q, 'v, 'u) cv_world \<Rightarrow> (cond_var \<times> ('q, 'v, 'u) cv_world) res" where
  "register_cv a cv w =
     (let w1 = set_next a nullptr w in
      bindE (spin_lock (cv_spin cv)) (\<lambda>l.
        let cv1 = cv\<lparr>cv_spin := l\<rparr>;
            r = (if m_tail cv1 = nullptr then (cv1\<lparr>m_head := a, m_tail := a\<rparr>, w1)
                 else (cv1\<lparr>m_tail := a\<rparr>, set_next (m_tail cv1) a w1)) in
        Inr ((fst r)\<lparr>cv_spin := spin_unlock (cv_spin (fst r))\<rparr>, snd r)))"

text \<open>
  \<open>mutex::unlock\<close> with its virtual call. The first number bounds the depth of the recursion through
  \<open>cv_awaiter::resume\<close>, the second the walk of the list reversal.
\<close>

fun virtual_unlock ::
    "nat \<Rightarrow> nat \<Rightarrow> 'q queue_ops \<Rightarrow> 'u \<Rightarrow> cond_var \<times> mutex \<times> ('q, 'v, 'u) cv_world \<Rightarrow>
     (cond_var \<times> mutex \<times> ('q, 'v, 'u) cv_world) res" where
  "virtual_unlock 0 fuel Q u s = Inl Out_of_fuel"
| "virtual_unlock (Suc n) fuel Q u (cv, m, w) =
     bindE (unlock_pick fuel m w) (\<lambda>(p, m1, w1).
       case p of
         None \<Rightarrow> Inr (cv, m1, w1)
       | Some a \<Rightarrow>
           if is_cv (waiters w1 a) \<and> cond_fails u a w1 then
             bindE (register_cv a cv (set_suspend a w1)) (\<lambda>(cv1, w2).
               virtual_unlock n fuel Q u (cv1, m1, w2))
           else bindE (mutex_resume Q a w1) (\<lambda>w2. Inr (cv, m1, w2)))"

text \<open>\<open>cv_awaiter::resume\<close>, called by an owner of the mutex.\<close>

definition cv_resume ::
    "nat \<Rightarrow> nat \<Rightarrow> 'q queue_ops \<Rightarrow> 'u \<Rightarrow> addr \<Rightarrow> cond_var \<times> mutex \<times> ('q, 'v, 'u) cv_world \<Rightarrow>
     (cond_var \<times> mutex \<times> ('q, 'v, 'u) cv_world) res" where
  "cv_resume n fuel Q u a s =
     (case s of (cv, m, w) \<Rightarrow>
       if cond_fails u a w then
         bindE (register_cv a cv (set_suspend a w)) (\<lambda>(cv1, w1). virtual_unlock n fuel Q u (cv1, m, w1))
       else bindE (mutex_resume Q a w) (\<lambda>w1. Inr (cv, m, w1)))"

definition cv_register_lock ::
    "nat \<Rightarrow> nat \<Rightarrow> 'q queue_ops \<Rightarrow> 'u \<Rightarrow> addr \<Rightarrow> cond_var \<times> mutex \<times> ('q, 'v, 'u) cv_world \<Rightarrow>
     (bool \<times> cond_var \<times> mutex \<times> ('q, 'v, 'u) cv_world) res" where
  "cv_register_lock n fuel Q u a s =
     (case s of (cv, m, w) \<Rightarrow>
       if cond_holds u a w then Inr (False, cv, m, w)
       else bindE (register_cv a cv (set_suspend a w)) (\<lambda>(cv1, w1).
            bindE (virtual_unlock n fuel Q u (cv1, m, w1)) (\<lambda>s1. Inr (True, s1))))"

definition cv_await_suspend ::
    "nat \<Rightarrow> nat \<Rightarrow> 'q queue_ops \<Rightarrow> 'u \<Rightarrow> addr \<Rightarrow> handle \<Rightarrow> cond_var \<times> mutex \<times> ('q, 'v, 'u) cv_world \<Rightarrow>
     (bool \<times> cond_var \<times> mutex \<times> ('q, 'v, 'u) cv_world) res" where
  "cv_await_suspend n fuel Q u a h s =
     (case s of (cv, m, w) \<Rightarrow> cv_register_lock n fuel Q u a (cv, m, set_coro a h w))"

definition cv_await_resume :: "addr \<Rightarrow> ('q, 'v, 'u) cv_world \<Rightarrow> ('q, 'v, 'u) cv_world" where
  "cv_await_resume a w = waiter_unregister (if m_suspend_state (waiters w a) then 1 else 0) a w"

definition cv_wake_up ::
    "nat \<Rightarrow> nat \<Rightarrow> 'q queue_ops \<Rightarrow> 'u \<Rightarrow> bool list \<Rightarrow> addr \<Rightarrow> cond_var \<times> mutex \<times> ('q, 'v, 'u) cv_world \<Rightarrow>
     (cond_var \<times> mutex \<times> ('q, 'v, 'u) cv_world) res" where
  "cv_wake_up n fuel Q u sps a s =
     (case s of (cv, m, w) \<Rightarrow>
       bindE (register_lock sps a m w) (\<lambda>(waits, m1, w1).
         if \<not> waits then cv_resume n fuel Q u a (cv, m1, w1) else Inr (cv, m1, w1)))"

definition notify_one ::
    "nat \<Rightarrow> nat \<Rightarrow> 'q queue_ops \<Rightarrow> 'u \<Rightarrow> bool list \<Rightarrow> cond_var \<times> mutex \<times> ('q, 'v, 'u) cv_world \<Rightarrow>
     (cond_var \<times> mutex \<times> ('q, 'v, 'u) cv_world) res" where
  "notify_one n fuel Q u sps s =
     (case s of (cv, m, w) \<Rightarrow>
       bindE (spin_lock (cv_spin cv)) (\<lambda>l.
         let cv1 = cv\<lparr>cv_spin := l\<rparr>; cur = m_head cv1 in
         if cur \<noteq> nullptr then
           let cv2 = cv1\<lparr>m_head := m_next (waiters w (m_head cv1))\<rparr>;
               cv3 = (if m_head cv2 = nullptr then cv2\<lparr>m_tail := nullptr\<rparr> else cv2);
               cv4 = cv3\<lparr>cv_spin := spin_unlock (cv_spin cv3)\<rparr> in
           cv_wake_up n fuel Q u sps cur (cv4, m, w)
         else Inr (cv1\<lparr>cv_spin := spin_unlock (cv_spin cv1)\<rparr>, m, w)))"

fun wake_list ::
    "nat \<Rightarrow> nat \<Rightarrow> nat \<Rightarrow> 'q queue_ops \<Rightarrow> 'u \<Rightarrow> bool list \<Rightarrow> addr \<Rightarrow>
     cond_var \<times> mutex \<times> ('q, 'v, 'u) cv_world \<Rightarrow> (cond_var \<times> mutex \<times> ('q, 'v, 'u) cv_world) res" where
  "wake_list 0 n fuel Q u sps cur s = Inl Out_of_fuel"
| "wake_list (Suc k) n fuel Q u sps cur (cv, m, w) =
     (if cur = nullptr then Inr (cv, m, w)
      else let nxt = m_next (waiters w cur) in
        bindE (cv_wake_up n fuel Q u sps cur (cv, m, w)) (wake_list k n fuel Q u sps nxt))"

definition notify_all ::
    "nat \<Rightarrow> nat \<Rightarrow> nat \<Rightarrow> 'q queue_ops \<Rightarrow> 'u \<Rightarrow> bool list \<Rightarrow> cond_var \<times> mutex \<times> ('q, 'v, 'u) cv_world \<Rightarrow>
     (cond_var \<times> mutex \<times> ('q, 'v, 'u) cv_world) res" where
  "notify_all k n fuel Q u sps s =
     (case s of (cv, m, w) \<Rightarrow>
       bindE (spin_lock (cv_spin cv)) (\<lambda>l.
         let cur = m_head cv;
             cv1 = cv\<lparr>cv_spin := l, m_head := nullptr, m_tail := nullptr\<rparr>;
             cv2 = cv1\<lparr>cv_spin := spin_unlock (cv_spin cv1)\<rparr> in
         wake_list k n fuel Q u sps cur (cv2, m, w)))"

section \<open>The two lists\<close>

text \<open>The list of the condition variable, oldest first.\<close>

definition cv_rep :: "cond_var \<Rightarrow> ('q, 'v, 'u) cv_world \<Rightarrow> addr list \<Rightarrow> bool" where
  "cv_rep cv w cs \<longleftrightarrow>
     \<not> lock_flag (cv_spin cv) \<and> chain (next_of w) (m_head cv) cs \<and>
     m_tail cv = (if cs = [] then nullptr else last cs) \<and> distinct cs"

text \<open>Mutex and condition variable together; no awaiter is in both lists.\<close>

definition cv_state ::
    "cond_var \<Rightarrow> mutex \<Rightarrow> ('q, 'v, 'u) cv_world \<Rightarrow> fifo \<Rightarrow> addr list \<Rightarrow> bool" where
  "cv_state cv m w l cs \<longleftrightarrow>
     mutex_rep m w l \<and> cv_rep cv w cs \<and>
     (\<forall>a \<in> set cs. a \<noteq> nolocked \<and> m_await_coro (waiters w a) \<noteq> nullptr \<and>
        (case l of None \<Rightarrow> True | Some q \<Rightarrow> a \<notin> set q))"

lemma mutex_rep_frame:
  assumes "mutex_rep m w (Some q)"
    and "\<And>c. c \<in> set q \<Longrightarrow> m_next (waiters w' c) = m_next (waiters w c) \<and>
      m_await_coro (waiters w' c) = m_await_coro (waiters w c)"
  shows "mutex_rep m w' (Some q)"
proof -
  obtain taken pushed where p: "mtx_state m \<noteq> nolocked"
    "chain (next_of w) (m_resume_list_head m) taken" "chain (next_of w) (mtx_state m) pushed"
    "q = taken @ rev pushed" "distinct q" "nolocked \<notin> set q"
    "\<forall>a \<in> set q. m_await_coro (waiters w a) \<noteq> nullptr"
    by (rule mutex_rep_SomeE [OF assms(1)])
  have t: "chain (next_of w') (m_resume_list_head m) taken"
    using p(2) chain_cong [of taken "next_of w'" "next_of w"] assms(2) p(4) by simp
  have u: "chain (next_of w') (mtx_state m) pushed"
    using p(3) chain_cong [of pushed "next_of w'" "next_of w"] assms(2) p(4) by simp
  show ?thesis by (rule mutex_rep_SomeI [OF p(1) t u p(4-6)]) (use p(7) assms(2) in auto)
qed

lemma cv_rep_frame:
  assumes "cv_rep cv w cs" and "\<And>c. c \<in> set cs \<Longrightarrow> m_next (waiters w' c) = m_next (waiters w c)"
  shows "cv_rep cv w' cs"
  using assms chain_cong [of cs "next_of w'" "next_of w"] by (simp add: cv_rep_def)

lemma chain_append:
  "chain nxt h cs \<Longrightarrow> cs \<noteq> [] \<Longrightarrow> distinct cs \<Longrightarrow> a \<notin> set cs \<Longrightarrow> a \<noteq> nullptr \<Longrightarrow>
   chain (nxt(a := nullptr, last cs := a)) h (cs @ [a])"
proof (induction cs arbitrary: h)
  case Nil
  then show ?case by simp
next
  case (Cons c cs)
  show ?case
  proof (cases cs)
    case Nil
    with Cons.prems show ?thesis by auto
  next
    case (Cons d ds)
    then have "c \<noteq> last cs" "c \<noteq> a" using Cons.prems by auto
    with Cons.IH [of "nxt c"] Cons.prems Cons show ?thesis by (auto simp: local.Cons)
  qed
qed

lemma register_cv_rep:
  assumes R: "cv_rep cv w cs" and a: "a \<notin> set cs" "a \<noteq> nullptr"
  shows "\<exists>cv1 w1. register_cv a cv w = Inr (cv1, w1) \<and> cv_rep cv1 w1 (cs @ [a]) \<and>
    same_but_next w w1 \<and> ctx_of w1 = ctx_of w \<and>
    (\<forall>c. c \<noteq> a \<and> c \<notin> set cs \<longrightarrow> m_next (waiters w1 c) = m_next (waiters w c))"
proof (cases "cs = []")
  case True
  have reg: "register_cv a cv w = Inr (cv\<lparr>cv_spin := spin_unlock (cv_spin cv), m_head := a, m_tail := a\<rparr>,
      set_next a nullptr w)"
    using R True by (simp add: register_cv_def cv_rep_def spin_defs Let_def)
  moreover have "cv_rep (cv\<lparr>cv_spin := spin_unlock (cv_spin cv), m_head := a, m_tail := a\<rparr>)
      (set_next a nullptr w) (cs @ [a])"
    using True a by (simp add: cv_rep_def spin_unlock_def)
  ultimately show ?thesis by simp
next
  case False
  let ?w = "set_next (last cs) a (set_next a nullptr w)"
  have l: "last cs \<in> set cs" "last cs \<noteq> nullptr"
  proof -
    show "last cs \<in> set cs" using False by simp
    then show "last cs \<noteq> nullptr"
      using R chain_nonnull_set [of "next_of w" "m_head cv" cs] unfolding cv_rep_def by metis
  qed
  have reg: "register_cv a cv w = Inr (cv\<lparr>cv_spin := spin_unlock (cv_spin cv), m_tail := a\<rparr>, ?w)"
    using R False l by (simp add: register_cv_def cv_rep_def spin_defs Let_def)
  have "chain (next_of ?w) (m_head cv) (cs @ [a])"
    using chain_append [of "next_of w" "m_head cv" cs a] R False a by (simp add: cv_rep_def)
  then have "cv_rep (cv\<lparr>cv_spin := spin_unlock (cv_spin cv), m_tail := a\<rparr>) ?w (cs @ [a])"
    using R a by (simp add: cv_rep_def spin_unlock_def)
  moreover have "same_but_next w ?w"
    by (rule same_but_next_trans [OF same_but_next_set same_but_next_set])
  moreover have "\<forall>c. c \<noteq> a \<and> c \<notin> set cs \<longrightarrow> m_next (waiters ?w c) = m_next (waiters w c)"
    using l by (auto simp: set_next_def)
  ultimately show ?thesis using reg by auto
qed

text \<open>Nothing but links, wait counts and suspend marks changed.\<close>

definition quiet :: "('q, 'v, 'u) cv_world \<Rightarrow> ('q, 'v, 'u) cv_world \<Rightarrow> bool" where
  "quiet w w' \<longleftrightarrow>
     (\<forall>c. m_await_coro (waiters w' c) = m_await_coro (waiters w c) \<and>
          m_ctx (waiters w' c) = m_ctx (waiters w c) \<and>
          is_cv (waiters w' c) = is_cv (waiters w c) \<and> m_cond (waiters w' c) = m_cond (waiters w c)) \<and>
     (\<forall>i. egn (ctx_of w' i) = egn (ctx_of w i))"

text \<open>The same without the queues: what no operation changes of the awaiters it does not construct.\<close>

definition steady :: "('q, 'v, 'u) cv_world \<Rightarrow> ('q, 'v, 'u) cv_world \<Rightarrow> bool" where
  "steady w w' \<longleftrightarrow>
     (\<forall>c. m_await_coro (waiters w' c) = m_await_coro (waiters w c) \<and>
          m_ctx (waiters w' c) = m_ctx (waiters w c) \<and>
          is_cv (waiters w' c) = is_cv (waiters w c) \<and> m_cond (waiters w' c) = m_cond (waiters w c))"

lemma quiet_steady: "quiet w w' \<Longrightarrow> steady w w'"
  by (simp add: quiet_def steady_def)

lemma steady_trans: "steady w w1 \<Longrightarrow> steady w1 w2 \<Longrightarrow> steady w w2"
  by (simp add: steady_def)

lemma steady_submit: "waiter_submit Q a w = Inr w1 \<Longrightarrow> steady w w1"
  by (simp add: steady_def waiter_submit_waiters)

lemma quiet_refl: "quiet w w"
  by (simp add: quiet_def)

lemma quiet_trans: "quiet w w1 \<Longrightarrow> quiet w1 w2 \<Longrightarrow> quiet w w2"
  by (simp add: quiet_def)

lemma quiet_next:
  assumes "same_but_next w w'" and "ctx_of w' = ctx_of w"
  shows "quiet w w'"
proof -
  have "m_await_coro (waiters w' c) = m_await_coro (waiters w c) \<and>
      m_ctx (waiters w' c) = m_ctx (waiters w c) \<and>
      is_cv (waiters w' c) = is_cv (waiters w c) \<and> m_cond (waiters w' c) = m_cond (waiters w c)" for c
  proof -
    obtain n where "waiters w' c = (waiters w c)\<lparr>m_next := n\<rparr>"
      using assms(1) unfolding same_but_next_def by blast
    then show ?thesis by simp
  qed
  with assms(2) show ?thesis by (simp add: quiet_def)
qed

lemma quiet_suspend: "quiet w (set_suspend a w)"
  by (auto simp: quiet_def set_suspend_def waiter_register_def upd_ctx_def register_wait_def Let_def)

lemma next_set_suspend [simp]: "m_next (waiters (set_suspend a w) c) = m_next (waiters w c)"
  by (simp add: set_suspend_def Let_def)

lemma quietD:
  assumes "quiet w w'"
  shows "cond_fails u a w' = cond_fails u a w" and "is_cv (waiters w' a) = is_cv (waiters w a)"
    and "m_await_coro (waiters w' a) = m_await_coro (waiters w a)"
    and "queued ql w' i = queued ql w i" and "handles_for i w' as = handles_for i w as"
    and "roomy Q ql n w' = roomy Q ql n w"
proof -
  have q: "egn (ctx_of w' i) = egn (ctx_of w i)" for i using assms by (simp add: quiet_def)
  show "cond_fails u a w' = cond_fails u a w" "is_cv (waiters w' a) = is_cv (waiters w a)"
    "m_await_coro (waiters w' a) = m_await_coro (waiters w a)"
    using assms by (simp_all add: quiet_def cond_fails_def)
  show "queued ql w' i = queued ql w i" using q by simp
  show "handles_for i w' as = handles_for i w as"
    using assms by (intro handles_for_cong) (simp add: quiet_def)
  show "roomy Q ql n w' = roomy Q ql n w"
    using q by (simp add: roomy_def context_running_def)
qed

text \<open>An awaiter goes back into the list of the condition variable.\<close>

lemma requeue:
  assumes S: "cv_state cv m w (Some q) cs" and a: "a \<notin> set q" "a \<notin> set cs" "a \<noteq> nullptr" "a \<noteq> nolocked"
    "m_await_coro (waiters w a) \<noteq> nullptr"
  shows "\<exists>cv1 w1. register_cv a cv (set_suspend a w) = Inr (cv1, w1) \<and>
    cv_state cv1 m w1 (Some q) (cs @ [a]) \<and> quiet w w1 \<and>
    (\<forall>c. c \<noteq> a \<and> c \<notin> set cs \<longrightarrow> next_of w1 c = next_of w c)"
proof -
  let ?w = "set_suspend a w"
  have M: "mutex_rep m w (Some q)" and C: "cv_rep cv w cs"
    and D: "\<And>b. b \<in> set cs \<Longrightarrow> b \<noteq> nolocked \<and> m_await_coro (waiters w b) \<noteq> nullptr \<and> b \<notin> set q"
    using S by (auto simp: cv_state_def)
  have "cv_rep cv ?w cs" by (rule cv_rep_frame [OF C]) simp
  from register_cv_rep [OF this a(2,3)]
  obtain cv1 w1 where r: "register_cv a cv ?w = Inr (cv1, w1)" "cv_rep cv1 w1 (cs @ [a])"
    "same_but_next ?w w1" "ctx_of w1 = ctx_of ?w"
    and fr: "\<forall>c. c \<noteq> a \<and> c \<notin> set cs \<longrightarrow> m_next (waiters w1 c) = m_next (waiters ?w c)" by blast
  have q: "quiet w w1" by (rule quiet_trans [OF quiet_suspend quiet_next [OF r(3,4)]])
  have "mutex_rep m w1 (Some q)"
  proof (rule mutex_rep_frame [OF M])
    fix c assume c: "c \<in> set q"
    then have "c \<noteq> a" "c \<notin> set cs" using a(1) D by auto
    with fr q show "m_next (waiters w1 c) = m_next (waiters w c) \<and>
      m_await_coro (waiters w1 c) = m_await_coro (waiters w c)" by (simp add: quiet_def)
  qed
  moreover have "b \<noteq> nolocked \<and> m_await_coro (waiters w1 b) \<noteq> nullptr \<and> b \<notin> set q" if "b \<in> set (cs @ [a])" for b
    using that D [of b] a quietD(3) [OF q, of b] by auto
  ultimately have "cv_state cv1 m w1 (Some q) (cs @ [a])" using r(2) by (simp add: cv_state_def)
  moreover have "\<forall>c. c \<noteq> a \<and> c \<notin> set cs \<longrightarrow> next_of w1 c = next_of w c" using fr by simp
  ultimately show ?thesis using r(1) q by blast
qed

section \<open>Unlocking through the virtual call\<close>

definition stays :: "'u \<Rightarrow> ('q, 'v, 'u) cv_world \<Rightarrow> addr \<Rightarrow> bool" where
  "stays u w a \<longleftrightarrow> is_cv (waiters w a) \<and> cond_fails u a w"

text \<open>Who the mutex is handed to, and what is left of its waiters.\<close>

definition after_skip :: "addr list \<Rightarrow> fifo" where
  "after_skip rest = (case rest of [] \<Rightarrow> None | a # r \<Rightarrow> Some r)"

definition handed_to :: "nat \<Rightarrow> ('q, 'v, 'u) cv_world \<Rightarrow> addr list \<Rightarrow> handle list" where
  "handed_to i w rest = (case rest of [] \<Rightarrow> [] | a # r \<Rightarrow> handles_for i w [a])"

lemma stays_quiet: "quiet w w' \<Longrightarrow> stays u w' = stays u w"
  by (rule ext) (simp add: stays_def quietD)

lemma handed_quiet: "quiet w w' \<Longrightarrow> handed_to i w' rest = handed_to i w rest"
  unfolding handed_to_def by (cases rest) (simp_all add: quietD(5) del: handles_for_simps)

lemma cv_state_pick:
  assumes S: "cv_state cv m w (Some (a # q)) cs" and "length q < fuel"
  shows "\<exists>m1 w1. unlock_pick fuel m w = Inr (Some a, m1, w1) \<and> cv_state cv m1 w1 (Some q) cs \<and> quiet w w1"
proof -
  have M: "mutex_rep m w (Some (a # q))" and C: "cv_rep cv w cs"
    and D: "\<And>b. b \<in> set cs \<Longrightarrow> b \<noteq> nolocked \<and> m_await_coro (waiters w b) \<noteq> nullptr \<and> b \<notin> set (a # q)"
    using S by (auto simp: cv_state_def)
  obtain m1 w1 where p: "unlock_pick fuel m w = Inr (Some a, m1, w1)" "mutex_rep m1 w1 (Some q)"
    "ctx_of w1 = ctx_of w" "same_but_next w w1" "\<forall>c. c \<notin> set (a # q) \<longrightarrow> next_of w1 c = next_of w c"
    using unlock_pick_next [OF M assms(2)] by blast
  have q: "quiet w w1" by (rule quiet_next [OF p(4,3)])
  have "cv_rep cv w1 cs" by (rule cv_rep_frame [OF C]) (use p(5) D in blast)
  moreover have "b \<noteq> nolocked \<and> m_await_coro (waiters w1 b) \<noteq> nullptr \<and> b \<notin> set q" if "b \<in> set cs" for b
    using D [OF that] quietD(3) [OF q, of b] by simp
  ultimately have "cv_state cv m1 w1 (Some q) cs" using p(2) by (simp add: cv_state_def)
  with p(1) q show ?thesis by blast
qed

lemma virtual_unlock_spec:
  assumes "cv_state cv m w (Some q) cs" and "length q < n" "length q \<le> fuel" "roomy Q ql (Suc room) w"
  shows "\<exists>cv1 m1 w1. virtual_unlock n fuel Q u (cv, m, w) = Inr (cv1, m1, w1) \<and>
    cv_state cv1 m1 w1 (after_skip (dropWhile (stays u w) q)) (cs @ takeWhile (stays u w) q) \<and>
    (\<forall>i. queued ql w1 i = queued ql w i @ handed_to i w (dropWhile (stays u w) q)) \<and>
    steady w w1 \<and> roomy Q ql room w1 \<and> (q = [] \<longrightarrow> w1 = w)"
  using assms
proof (induction q arbitrary: cv m w cs n)
  case Nil
  then obtain k where n: "n = Suc k" by (cases n) auto
  have M: "mutex_rep m w (Some [])" using Nil.prems(1) by (simp add: cv_state_def)
  obtain m1 where "unlock_pick fuel m w = Inr (None, m1, w)" "mutex_rep m1 w None"
    using unlock_pick_last [OF M] by blast
  then show ?case using Nil.prems(1) roomy_mono [OF Nil.prems(4)]
    by (simp add: n after_skip_def handed_to_def cv_state_def steady_def)
next
  case (Cons a q)
  then obtain k where n: "n = Suc k" by (cases n) auto
  obtain m1 w1 where p: "unlock_pick fuel m w = Inr (Some a, m1, w1)" and S1: "cv_state cv m1 w1 (Some q) cs"
    and q: "quiet w w1"
    using cv_state_pick [OF Cons.prems(1), of fuel] Cons.prems(3) by auto
  have M: "mutex_rep m w (Some (a # q))" using Cons.prems(1) by (simp add: cv_state_def)
  have a: "a \<notin> set q" "a \<noteq> nolocked" "m_await_coro (waiters w a) \<noteq> nullptr"
    using M by (simp_all add: mutex_rep_def)
  have a0: "a \<noteq> nullptr" "a \<notin> set cs"
  proof -
    obtain taken pushed where "chain (next_of w) (m_resume_list_head m) taken"
      "chain (next_of w) (mtx_state m) pushed" "a # q = taken @ rev pushed"
      by (rule mutex_rep_SomeE [OF M])
    then have "nullptr \<notin> set (a # q)" using chain_nonnull_set by (metis Un_iff set_append set_rev)
    then show "a \<noteq> nullptr" by auto
    show "a \<notin> set cs" using Cons.prems(1) by (auto simp: cv_state_def)
  qed
  have coro: "m_await_coro (waiters w1 a) \<noteq> nullptr" using a(3) quietD(3) [OF q, of a] by simp
  have st: "(is_cv (waiters w1 a) \<and> cond_fails u a w1) = stays u w a"
    by (simp add: stays_def quietD(1,2) [OF q])
  show ?case
  proof (cases "stays u w a")
    case True
    obtain cv2 w2 where r: "register_cv a cv (set_suspend a w1) = Inr (cv2, w2)"
      and S2: "cv_state cv2 m1 w2 (Some q) (cs @ [a])" and q2: "quiet w1 w2"
      using requeue [OF S1 a(1) a0(2,1) a(2) coro] by blast
    have qq: "quiet w w2" by (rule quiet_trans [OF q q2])
    have room2: "roomy Q ql (Suc room) w2" using Cons.prems(4) by (simp only: quietD(6) [OF qq])
    have len: "length q < k" "length q \<le> fuel" using Cons.prems(2,3) n by simp_all
    from Cons.IH [OF S2 len room2]
    obtain cv3 m3 w3 where res: "virtual_unlock k fuel Q u (cv2, m1, w2) = Inr (cv3, m3, w3)"
      "cv_state cv3 m3 w3 (after_skip (dropWhile (stays u w) q)) ((cs @ [a]) @ takeWhile (stays u w) q)"
      "\<forall>i. queued ql w3 i = queued ql w i @ handed_to i w (dropWhile (stays u w) q)"
      "steady w2 w3" "roomy Q ql room w3"
      unfolding stays_quiet [OF qq] handed_quiet [OF qq] quietD(4) [OF qq] by blast
    have "virtual_unlock n fuel Q u (cv, m, w) = Inr (cv3, m3, w3)"
      using True st by (simp add: n p r res(1))
    moreover have "steady w w3" by (rule steady_trans [OF quiet_steady [OF qq] res(4)])
    ultimately show ?thesis using res(2,3,5) True by simp
  next
    case False
    have "roomy Q ql (Suc room) w1" using Cons.prems(4) by (simp only: quietD(6) [OF q])
    then obtain w2 where w2: "waiter_submit Q a w1 = Inr w2" and room2: "roomy Q ql room w2"
      using roomy_submit [OF _ coro] by blast
    have st2: "steady w w2" by (rule steady_trans [OF quiet_steady [OF q] steady_submit [OF w2]])
    have run: "\<forall>i. context_running Q ql (ctx_of w1 i)"
      using Cons.prems(4) quietD(6) [OF q, of Q ql "Suc room"] by (simp add: roomy_def)
    have que: "queued ql w2 i = queued ql w i @ handles_for i w [a]" for i
      using waiter_submit_queued [OF run w2] quietD(4,5) [OF q] by metis
    have "cv_state cv m1 w2 (Some q) cs"
      using S1 by (simp add: cv_state_def waiter_submit_waiters [OF w2] mutex_rep_def cv_rep_def)
    moreover have "virtual_unlock n fuel Q u (cv, m, w) = Inr (cv, m1, w2)"
      using False st by (auto simp: n p mutex_resume_def w2)
    ultimately show ?thesis
      using False que st2 room2 by (simp add: after_skip_def handed_to_def)
  qed
qed

section \<open>Waking one awaiter\<close>

text \<open>What \<open>wake_up\<close> leaves: the lock, the list and the tasks that were submitted.\<close>

definition woken_state ::
    "'u \<Rightarrow> ('q, 'v, 'u) cv_world \<Rightarrow> addr \<Rightarrow> fifo \<Rightarrow> addr list \<Rightarrow> fifo \<times> addr list \<times> addr list" where
  "woken_state u w a l cs =
     (case l of
        Some q \<Rightarrow> (Some (q @ [a]), cs, [])
      | None \<Rightarrow> if cond_fails u a w then (None, cs @ [a], []) else (Some [], cs, [a]))"

lemma cv_state_same_lists:
  assumes "cv_rep cv w cs" and "same_but_next w w1" and "a \<notin> set cs"
    and "\<forall>c. c \<noteq> a \<longrightarrow> next_of w1 c = next_of w c" and "mutex_rep m1 w1 l1"
    and "\<And>b. b \<in> set cs \<Longrightarrow> b \<noteq> nolocked \<and> m_await_coro (waiters w b) \<noteq> nullptr \<and>
      (case l1 of None \<Rightarrow> True | Some q \<Rightarrow> b \<notin> set q)"
  shows "cv_state cv m1 w1 l1 cs"
proof -
  have "cv_rep cv w1 cs" by (rule cv_rep_frame [OF assms(1)]) (use assms(3,4) in auto)
  with assms(5,6) same_but_nextD(1) [OF assms(2)] show ?thesis by (simp add: cv_state_def)
qed

lemma wake_up_spec:
  assumes S: "cv_state cv m w l cs" and sps: "False \<in> set sps" and room: "roomy Q ql room w"
    and r0: "l = None \<Longrightarrow> 0 < room" and n: "0 < n"
    and a: "a \<noteq> nullptr" "a \<noteq> nolocked" "a \<notin> set cs" "m_await_coro (waiters w a) \<noteq> nullptr"
    and fresh: "\<And>q. l = Some q \<Longrightarrow> a \<notin> set q"
  shows "\<exists>cv1 m1 w1. cv_wake_up n fuel Q u sps a (cv, m, w) = Inr (cv1, m1, w1) \<and>
    (case woken_state u w a l cs of (l1, cs1, woken) \<Rightarrow>
       cv_state cv1 m1 w1 l1 cs1 \<and> (\<forall>i. queued ql w1 i = queued ql w i @ handles_for i w woken) \<and>
       steady w w1 \<and> roomy Q ql (room - length woken) w1 \<and> (\<forall>c. c \<noteq> a \<and> c \<notin> set cs \<longrightarrow> next_of w1 c = next_of w c))"
proof (cases l)
  case (Some q)
  have M: "mutex_rep m w (Some q)" and C: "cv_rep cv w cs" using S Some by (simp_all add: cv_state_def)
  have D: "b \<noteq> nolocked \<and> m_await_coro (waiters w b) \<noteq> nullptr \<and> b \<notin> set (q @ [a])" if "b \<in> set cs" for b
    using that S Some a(3) by (auto simp: cv_state_def)
  obtain m1 w1 where r: "register_lock sps a m w = Inr (True, m1, w1)" "mutex_rep m1 w1 (Some (q @ [a]))"
    "ctx_of w1 = ctx_of w" "same_but_next w w1" "\<forall>c. c \<noteq> a \<longrightarrow> next_of w1 c = next_of w c"
    using register_lock_held [OF M sps fresh [OF Some] a(1,2,4)] by blast
  have "cv_state cv m1 w1 (Some (q @ [a])) cs"
    by (rule cv_state_same_lists [OF C r(4) a(3) r(5,2)]) (use D in simp)
  moreover have "roomy Q ql room w1" using room roomy_ctx [OF r(3)] by simp
  ultimately show ?thesis
    using r(1,5) quietD(4) [OF quiet_next [OF r(4,3)]] quiet_steady [OF quiet_next [OF r(4,3)]]
    by (simp add: cv_wake_up_def Some woken_state_def)
next
  case None
  have M: "mutex_rep m w None" and C: "cv_rep cv w cs" using S None by (simp_all add: cv_state_def)
  obtain k where k: "room = Suc k" using r0 [OF None] by (cases room) auto
  have D: "b \<noteq> nolocked \<and> m_await_coro (waiters w b) \<noteq> nullptr \<and> b \<notin> set []" if "b \<in> set cs" for b
    using that S by (auto simp: cv_state_def)
  obtain m1 w1 where r: "register_lock sps a m w = Inr (False, m1, w1)" "mutex_rep m1 w1 (Some [])"
    "ctx_of w1 = ctx_of w" "same_but_next w w1" "\<forall>c. c \<noteq> a \<longrightarrow> next_of w1 c = next_of w c"
    using register_lock_free [OF M sps] by blast
  have S1: "cv_state cv m1 w1 (Some []) cs"
    by (rule cv_state_same_lists [OF C r(4) a(3) r(5,2)]) (use D in simp)
  have q: "quiet w w1" by (rule quiet_next [OF r(4,3)])
  have coro: "m_await_coro (waiters w1 a) \<noteq> nullptr" using a(4) quietD(3) [OF q, of a] by simp
  have wake: "cv_wake_up n fuel Q u sps a (cv, m, w) = cv_resume n fuel Q u a (cv, m1, w1)"
    using r(1) by (simp add: cv_wake_up_def)
  show ?thesis
  proof (cases "cond_fails u a w")
    case True
    obtain cv2 w2 where s: "register_cv a cv (set_suspend a w1) = Inr (cv2, w2)"
      "cv_state cv2 m1 w2 (Some []) (cs @ [a])" and q2: "quiet w1 w2"
      and fr: "\<forall>c. c \<noteq> a \<and> c \<notin> set cs \<longrightarrow> next_of w2 c = next_of w1 c"
      using requeue [OF S1 _ a(3,1,2) coro] by auto
    have qq: "quiet w w2" by (rule quiet_trans [OF q q2])
    have room2: "roomy Q ql (Suc k) w2" using room by (simp only: quietD(6) [OF qq] k)
    obtain cv3 m3 where t: "virtual_unlock n fuel Q u (cv2, m1, w2) = Inr (cv3, m3, w2)"
      "cv_state cv3 m3 w2 None (cs @ [a])"
      using virtual_unlock_spec [OF s(2) _ _ room2, of n fuel u] n
      by (auto simp: after_skip_def handed_to_def)
    have "cond_fails u a w1" using True quietD(1) [OF q] by simp
    then have "cv_wake_up n fuel Q u sps a (cv, m, w) = Inr (cv3, m3, w2)"
      using wake s(1) t(1) by (simp add: cv_resume_def)
    with t(2) room2 True fr r(5) show ?thesis
      using quietD(4) [OF qq] quiet_steady [OF qq] by (simp add: None woken_state_def k)
  next
    case False
    have "roomy Q ql (Suc k) w1" using room by (simp only: quietD(6) [OF q] k)
    then obtain w2 where w2: "waiter_submit Q a w1 = Inr w2" and room2: "roomy Q ql k w2"
      using roomy_submit [OF _ coro] by blast
    have st2: "steady w w2" by (rule steady_trans [OF quiet_steady [OF q] steady_submit [OF w2]])
    have run: "\<forall>i. context_running Q ql (ctx_of w1 i)"
      using room quietD(6) [OF q, of Q ql room] by (simp add: roomy_def)
    have que: "queued ql w2 i = queued ql w i @ handles_for i w [a]" for i
      using waiter_submit_queued [OF run w2] quietD(4,5) [OF q] by metis
    have "cv_state cv m1 w2 (Some []) cs"
      using S1 by (simp add: cv_state_def waiter_submit_waiters [OF w2] mutex_rep_def cv_rep_def)
    moreover have "\<not> cond_fails u a w1" using False quietD(1) [OF q] by simp
    then have "cv_wake_up n fuel Q u sps a (cv, m, w) = Inr (cv, m1, w2)"
      using wake w2 by (simp add: cv_resume_def mutex_resume_def)
    ultimately show ?thesis
      using False que st2 room2 r(5) by (simp add: None woken_state_def waiter_submit_waiters [OF w2] k)
  qed
qed

text \<open>How the notifications take awaiters out of the list.\<close>

lemma notify_one_empty:
  assumes "cv_state cv m w l []"
  shows "\<exists>cv1. notify_one n fuel Q u sps (cv, m, w) = Inr (cv1, m, w) \<and> cv_state cv1 m w l []"
  using assms by (auto simp: notify_one_def cv_state_def cv_rep_def spin_defs Let_def)

lemma notify_one_pops:
  assumes "cv_state cv m w l (a # cs)"
  shows "\<exists>cv1. notify_one n fuel Q u sps (cv, m, w) = cv_wake_up n fuel Q u sps a (cv1, m, w) \<and>
    cv_state cv1 m w l cs"
proof -
  let ?h = "m_next (waiters w a)"
  let ?cv = "cv\<lparr>m_head := ?h, m_tail := if ?h = nullptr then nullptr else m_tail cv\<rparr>"
  have C: "cv_rep cv w (a # cs)" using assms(1) by (simp add: cv_state_def)
  have a: "m_head cv = a" "a \<noteq> nullptr" "a \<notin> set cs" and tl: "chain (next_of w) ?h cs"
    and free: "\<not> lock_flag (cv_spin cv)"
    using C by (auto simp: cv_rep_def)
  have "?h = nullptr \<longleftrightarrow> cs = []" using tl by (cases cs) auto
  then have "cv_rep ?cv w cs" using C tl by (auto simp: cv_rep_def)
  then have "cv_state ?cv m w l cs" using assms(1) by (auto simp: cv_state_def)
  moreover have "notify_one n fuel Q u sps (cv, m, w) = cv_wake_up n fuel Q u sps a (?cv, m, w)"
    using free a by (cases cv, cases "cv_spin cv") (auto simp: notify_one_def spin_defs Let_def)
  ultimately show ?thesis by blast
qed

lemma notify_all_takes:
  assumes "cv_state cv m w l cs"
  shows "\<exists>cv1. notify_all k n fuel Q u sps (cv, m, w) = wake_list k n fuel Q u sps (m_head cv) (cv1, m, w) \<and>
    cv_state cv1 m w l [] \<and> chain (next_of w) (m_head cv) cs \<and> distinct cs"
  using assms by (auto simp: notify_all_def cv_state_def cv_rep_def spin_defs Let_def)

section \<open>Properties\<close>

text \<open>
  C7. Unlocking a mutex whose waiters include awaiters of a condition variable always returns, and
  hands the mutex to the first waiter that may run: the waiters before it, whose condition does not
  hold, go to the end of the list of the condition variable in their order, and if no waiter may run
  the mutex ends up free. The recursion through \<open>resume\<close> is never deeper than the number of
  waiters.
\<close>

theorem unlock_hands_over_virtually:
  assumes "cv_state cv m w (Some q) cs" and "length q < n" "length q \<le> fuel" "roomy Q ql 1 w"
  shows "\<exists>cv1 m1 w1. virtual_unlock n fuel Q u (cv, m, w) = Inr (cv1, m1, w1) \<and>
    cv_state cv1 m1 w1 (after_skip (dropWhile (stays u w) q)) (cs @ takeWhile (stays u w) q) \<and>
    (\<forall>i. queued ql w1 i = queued ql w i @ handed_to i w (dropWhile (stays u w) q))"
  using virtual_unlock_spec [OF assms(1-3), of Q ql 0 u] assms(4) by auto

definition demo_cv_world :: "(handle list, nat, nat) cv_world" where
  "demo_cv_world = \<lparr>ctx_of = (\<lambda>_. demo_context),
     waiters = (\<lambda>a. \<lparr>m_ctx = 0, m_next = (if a = 5 then 4 else 0), m_await_coro = 100 + a,
       is_cv = (a \<noteq> 6), m_cond = Some (\<lambda>u. u = a), m_suspend_state = True\<rparr>)\<rparr>"

lemma demo_cv_state:
  "cv_state new_cond_var \<lparr>mtx_state = 5, m_resume_list_head = 0\<rparr> demo_cv_world (Some [4, 5]) []"
  unfolding cv_state_def
proof (intro conjI)
  show "mutex_rep \<lparr>mtx_state = 5, m_resume_list_head = 0\<rparr> demo_cv_world (Some [4, 5])"
    by (rule mutex_rep_SomeI [where taken = "[]" and pushed = "[5, 4]"])
       (simp_all add: nolocked_def demo_cv_world_def)
qed (simp_all add: cv_rep_def new_cond_var_def new_spinlock_def)

lemma demo_cv_roomy: "roomy list_queue (\<lambda>q. q) 1 demo_cv_world"
  using demo_context_running demo_context_queue by (simp add: roomy_def demo_cv_world_def kQueCap_def)

theorem unlock_hands_over_virtually_witness:
  "\<exists>cv1 m1 w1. virtual_unlock 3 2 list_queue 5 (new_cond_var, \<lparr>mtx_state = 5, m_resume_list_head = 0\<rparr>,
      demo_cv_world) = Inr (cv1, m1, w1) \<and>
    cv_state cv1 m1 w1 (Some []) [4] \<and> queued (\<lambda>q. q) w1 0 = [105]"
proof -
  have st: "stays 5 demo_cv_world 4" "\<not> stays 5 demo_cv_world 5"
    by (simp_all add: stays_def cond_fails_def demo_cv_world_def)
  have h: "handles_for 0 demo_cv_world [5] = [105]" "queued (\<lambda>q. q) demo_cv_world 0 = []"
    using demo_context_queue by (simp_all add: demo_cv_world_def)
  obtain cv1 m1 w1 where
    u: "virtual_unlock 3 2 list_queue 5 (new_cond_var, \<lparr>mtx_state = 5, m_resume_list_head = 0\<rparr>,
      demo_cv_world) = Inr (cv1, m1, w1)"
    and c: "cv_state cv1 m1 w1 (after_skip (dropWhile (stays 5 demo_cv_world) [4, 5]))
      ([] @ takeWhile (stays 5 demo_cv_world) [4, 5])"
    and q: "\<forall>i. queued (\<lambda>q. q) w1 i = queued (\<lambda>q. q) demo_cv_world i @
      handed_to i demo_cv_world (dropWhile (stays 5 demo_cv_world) [4, 5])"
    using unlock_hands_over_virtually [OF demo_cv_state _ _ demo_cv_roomy, of 3 2 5] by auto
  have "queued (\<lambda>q. q) w1 0 = [105]"
    unfolding spec [OF q, of 0] using st h by (simp add: handed_to_def del: handles_for_simps)
  moreover have "cv_state cv1 m1 w1 (Some []) [4]" using c st by (simp add: after_skip_def)
  ultimately show ?thesis using u by blast
qed

text \<open>
  \<open>notify_one\<close> wakes the oldest waiter. If the mutex is held, the waiter moves from the list of
  the condition variable to the end of the mutex queue, whose unlocks will reach it. If it is free
  and the waiter may run, the waiter gets the mutex and is submitted; if its condition does not
  hold, it takes the mutex, gives it back and waits again at the end of the list.
\<close>

lemma notify_one_wakes_oldest:
  assumes "cv_state cv m w l (a # cs)" and "False \<in> set sps" and "roomy Q ql 1 w" and "0 < n"
  shows "\<exists>cv1 m1 w1. notify_one n fuel Q u sps (cv, m, w) = Inr (cv1, m1, w1) \<and>
    (case l of
       Some q \<Rightarrow> cv_state cv1 m1 w1 (Some (q @ [a])) cs \<and> (\<forall>i. queued ql w1 i = queued ql w i)
     | None \<Rightarrow>
         if cond_fails u a w
         then cv_state cv1 m1 w1 None (cs @ [a]) \<and> (\<forall>i. queued ql w1 i = queued ql w i)
         else cv_state cv1 m1 w1 (Some []) cs \<and>
           (\<forall>i. queued ql w1 i = queued ql w i @ handles_for i w [a]))"
proof -
  obtain cv0 where n: "notify_one n fuel Q u sps (cv, m, w) = cv_wake_up n fuel Q u sps a (cv0, m, w)"
    and S: "cv_state cv0 m w l cs" using notify_one_pops [OF assms(1)] by blast
  have a: "a \<noteq> nullptr" "a \<notin> set cs" "a \<noteq> nolocked" "m_await_coro (waiters w a) \<noteq> nullptr"
    "\<And>q. l = Some q \<Longrightarrow> a \<notin> set q"
    using assms(1) by (auto simp: cv_state_def cv_rep_def)
  from wake_up_spec [OF S assms(2,3) _ assms(4) a(1,3,2,4,5), of fuel u] n show ?thesis
    by (cases l) (auto simp: woken_state_def simp del: handles_for_simps(2) split: if_splits)
qed

lemma notify_one_wakes_oldest_witness:
  "\<exists>cv1 m1 w1. notify_one 1 1 list_queue 5 [True, False]
      (\<lparr>cv_spin = new_spinlock, m_head = 5, m_tail = 4\<rparr>, new_mutex, demo_cv_world) = Inr (cv1, m1, w1) \<and>
    cv_state cv1 m1 w1 (Some []) [4] \<and> queued (\<lambda>q. q) w1 0 = [105]"
proof -
  let ?cv = "\<lparr>cv_spin = new_spinlock, m_head = 5, m_tail = 4\<rparr>"
  have st: "cv_state ?cv new_mutex demo_cv_world None [5, 4]"
    by (simp add: cv_state_def mutex_rep_def cv_rep_def new_mutex_def new_spinlock_def demo_cv_world_def nolocked_def)
  have c: "\<not> cond_fails 5 5 demo_cv_world" by (simp add: cond_fails_def demo_cv_world_def)
  have h: "handles_for 0 demo_cv_world [5] = [105]" "queued (\<lambda>q. q) demo_cv_world 0 = []"
    using demo_context_queue by (simp_all add: demo_cv_world_def)
  obtain cv1 m1 w1 where
    n: "notify_one 1 1 list_queue 5 [True, False] (?cv, new_mutex, demo_cv_world) = Inr (cv1, m1, w1)"
      "cv_state cv1 m1 w1 (Some []) [4]"
    and q: "\<forall>i. queued (\<lambda>q. q) w1 i = queued (\<lambda>q. q) demo_cv_world i @ handles_for i demo_cv_world [5]"
    using notify_one_wakes_oldest [OF st _ demo_cv_roomy, of "[True, False]" 1 1 5] c
    by (auto simp del: handles_for_simps(2))
  have "queued (\<lambda>q. q) w1 0 = [105]" using spec [OF q, of 0] h by (simp del: handles_for_simps)
  with n show ?thesis by blast
qed

end
