(* ===== verification/Monitor.thy ===== *)
theory Monitor
  imports Condition_Variable
begin

text \<open>
  A mutex and a condition variable used together (include/coro/comp/mutex.hpp,
  condition_variable.hpp and their sources), as programs use them: the abstract monitor is a FIFO
  lock and a FIFO of waiters, and every sequence of \<open>lock\<close>, \<open>wait\<close>, \<open>notify_one\<close>,
  \<open>notify_all\<close> and \<open>unlock\<close> on the two objects behaves like it. The abstract monitor is what the
  programs of the examples and benchmarks are proved against.
\<close>

section \<open>The abstract monitor\<close>

text \<open>
  None is free, Some q is held with the waiters \<open>q\<close>; the second list are the waiters of the
  condition variable, oldest first. \<open>blk t\<close> says that the condition of the waiter \<open>t\<close> does not
  hold now. Operations give the list of those that were submitted to run.
\<close>

type_synonym 'a monitor = "'a list option \<times> 'a list"

fun mon_lock :: "'a \<Rightarrow> 'a monitor \<Rightarrow> bool \<times> 'a monitor" where
  "mon_lock t (None, cs) = (False, Some [], cs)"
| "mon_lock t (Some q, cs) = (True, Some (q @ [t]), cs)"

fun mon_unlock :: "('a \<Rightarrow> bool) \<Rightarrow> 'a monitor \<Rightarrow> 'a list \<times> 'a monitor" where
  "mon_unlock blk (None, cs) = ([], None, cs)"
| "mon_unlock blk (Some [], cs) = ([], None, cs)"
| "mon_unlock blk (Some (t # q), cs) =
     (if blk t then mon_unlock blk (Some q, cs @ [t]) else ([t], Some q, cs))"

definition mon_wait :: "('a \<Rightarrow> bool) \<Rightarrow> bool \<Rightarrow> 'a \<Rightarrow> 'a monitor \<Rightarrow> bool \<times> 'a list \<times> 'a monitor" where
  "mon_wait blk rdy t M =
     (if rdy then (False, [], M) else (True, mon_unlock blk (fst M, snd M @ [t])))"

fun mon_wake :: "('a \<Rightarrow> bool) \<Rightarrow> 'a \<Rightarrow> 'a monitor \<Rightarrow> 'a list \<times> 'a monitor" where
  "mon_wake blk t (Some q, cs) = ([], Some (q @ [t]), cs)"
| "mon_wake blk t (None, cs) = (if blk t then ([], None, cs @ [t]) else ([t], Some [], cs))"

fun mon_notify_one :: "('a \<Rightarrow> bool) \<Rightarrow> 'a monitor \<Rightarrow> 'a list \<times> 'a monitor" where
  "mon_notify_one blk (l, []) = ([], l, [])"
| "mon_notify_one blk (l, t # cs) = mon_wake blk t (l, cs)"

fun mon_wake_all :: "('a \<Rightarrow> bool) \<Rightarrow> 'a list \<Rightarrow> 'a monitor \<Rightarrow> 'a list \<times> 'a monitor" where
  "mon_wake_all blk [] M = ([], M)"
| "mon_wake_all blk (t # ts) M =
     (case mon_wake blk t M of (r, M1) \<Rightarrow> (case mon_wake_all blk ts M1 of (rs, M2) \<Rightarrow> (r @ rs, M2)))"

definition mon_notify_all :: "('a \<Rightarrow> bool) \<Rightarrow> 'a monitor \<Rightarrow> 'a list \<times> 'a monitor" where
  "mon_notify_all blk M = mon_wake_all blk (snd M) (fst M, [])"

lemma mon_unlock_skip:
  "mon_unlock blk (Some q, cs) =
     (take 1 (dropWhile blk q),
      case dropWhile blk q of [] \<Rightarrow> None | t # r \<Rightarrow> Some r, cs @ takeWhile blk q)"
  by (induction q arbitrary: cs) simp_all

lemma mon_wake_all_held: "mon_wake_all blk ts (Some q, cs) = ([], Some (q @ ts), cs)"
  by (induction ts arbitrary: q) simp_all

text \<open>With the lock held, waking everybody moves the whole list to the lock.\<close>

lemma mon_notify_all_held [simp]: "mon_notify_all blk (Some q, cs) = ([], Some (q @ cs), [])"
  by (simp add: mon_notify_all_def mon_wake_all_held)

section \<open>The operations of the code\<close>

text \<open>
  An operation of a coroutine, as \<open>co_await mtx.lock()\<close>, \<open>co_await cv.wait(mtx, cond)\<close> and the
  calls \<open>notify_one\<close>, \<open>notify_all\<close>, \<open>unlock\<close> perform it: awaiter constructed at an address,
  then suspended with the handle of the coroutine. The number is the context it runs on.
\<close>

datatype 'u mon_op =
  Mlock nat addr handle
| Mwait nat "('u \<Rightarrow> bool) option" addr handle
| Mnotify_one
| Mnotify_all
| Munlock

definition cv_lock :: "nat \<Rightarrow> addr \<Rightarrow> ('q, 'v, 'u) cv_world \<Rightarrow> ('q, 'v, 'u) cv_world" where
  "cv_lock i a w =
     w\<lparr>waiters := (waiters w)(a := \<lparr>m_ctx = i, m_next = nullptr, m_await_coro = nullptr,
        is_cv = False, m_cond = None, m_suspend_state = False\<rparr>)\<rparr>"

text \<open>
  \<open>u\<close> is the state the conditions read. The answer says whether the coroutine stays suspended. The
  number bounds every loop and recursion of the operation.
\<close>

fun mon_step ::
    "nat \<Rightarrow> 'q queue_ops \<Rightarrow> bool list \<Rightarrow> 'u \<times> 'u mon_op \<Rightarrow> cond_var \<times> mutex \<times> ('q, 'v, 'u) cv_world \<Rightarrow>
     (bool \<times> cond_var \<times> mutex \<times> ('q, 'v, 'u) cv_world) res" where
  "mon_step d Q sps (u, Mlock i a h) (cv, m, w) =
     bindE (mutex_await_suspend sps a h m (cv_lock i a w)) (\<lambda>(susp, m1, w1). Inr (susp, cv, m1, w1))"
| "mon_step d Q sps (u, Mwait i c a h) (cv, m, w) =
     cv_await_suspend d d Q u a h (cv, m, cv_wait i c a w)"
| "mon_step d Q sps (u, Mnotify_one) s = bindE (notify_one d d Q u sps s) (\<lambda>s1. Inr (False, s1))"
| "mon_step d Q sps (u, Mnotify_all) s = bindE (notify_all d d d Q u sps s) (\<lambda>s1. Inr (False, s1))"
| "mon_step d Q sps (u, Munlock) s = bindE (virtual_unlock d d Q u s) (\<lambda>s1. Inr (False, s1))"

section \<open>Awaiters as tokens of the abstract monitor\<close>

datatype 'u token =
  is_Lock_token: Lock_token (tk_addr: addr) (tk_ctx: nat) (tk_coro: handle)
| is_Wait_token: Wait_token (tk_addr: addr) (tk_ctx: nat) (tk_coro: handle) (tk_cond: "('u \<Rightarrow> bool) option")

fun tk_blocked :: "'u \<Rightarrow> 'u token \<Rightarrow> bool" where
  "tk_blocked u (Wait_token a i h (Some c)) \<longleftrightarrow> \<not> c u"
| "tk_blocked u t \<longleftrightarrow> False"

fun token_of :: "'u mon_op \<Rightarrow> 'u token" where
  "token_of (Mlock i a h) = Lock_token a i h"
| "token_of (Mwait i c a h) = Wait_token a i h c"
| "token_of x = Lock_token nullptr 0 nullptr"

fun mon_act :: "'u \<times> 'u mon_op \<Rightarrow> 'u token monitor \<Rightarrow> bool \<times> 'u token list \<times> 'u token monitor" where
  "mon_act (u, Mlock i a h) M = (case mon_lock (Lock_token a i h) M of (susp, M1) \<Rightarrow> (susp, [], M1))"
| "mon_act (u, Mwait i c a h) M =
     mon_wait (tk_blocked u) (case c of None \<Rightarrow> False | Some f \<Rightarrow> f u) (Wait_token a i h c) M"
| "mon_act (u, Mnotify_one) M = (False, mon_notify_one (tk_blocked u) M)"
| "mon_act (u, Mnotify_all) M = (False, mon_notify_all (tk_blocked u) M)"
| "mon_act (u, Munlock) M = (False, mon_unlock (tk_blocked u) M)"

fun mon_tokens :: "'a monitor \<Rightarrow> 'a list" where
  "mon_tokens (None, cs) = cs"
| "mon_tokens (Some q, cs) = q @ cs"

text \<open>
  What callers guarantee: an awaiter is constructed where none is waiting, its coroutine exists, and
  only the owner waits and unlocks.
\<close>

fun mon_ok :: "'u mon_op \<Rightarrow> 'u token monitor \<Rightarrow> bool" where
  "mon_ok (Mlock i a h) M \<longleftrightarrow>
     a \<noteq> nullptr \<and> a \<noteq> nolocked \<and> h \<noteq> nullptr \<and> a \<notin> set (map tk_addr (mon_tokens M))"
| "mon_ok (Mwait i c a h) M \<longleftrightarrow>
     a \<noteq> nullptr \<and> a \<noteq> nolocked \<and> h \<noteq> nullptr \<and> a \<notin> set (map tk_addr (mon_tokens M)) \<and> fst M \<noteq> None"
| "mon_ok Munlock M \<longleftrightarrow> fst M \<noteq> None"
| "mon_ok x M \<longleftrightarrow> True"

definition handles_of :: "nat \<Rightarrow> 'u token list \<Rightarrow> handle list" where
  "handles_of i ts = map tk_coro (filter (\<lambda>t. tk_ctx t = i) ts)"

text \<open>The awaiter at the address of a token is the one the token stands for.\<close>

definition tok_ok :: "('q, 'v, 'u) cv_world \<Rightarrow> 'u token \<Rightarrow> bool" where
  "tok_ok w t \<longleftrightarrow>
     (let x = waiters w (tk_addr t) in
      m_ctx x = tk_ctx t \<and> m_await_coro x = tk_coro t \<and>
      (case t of Lock_token _ _ _ \<Rightarrow> \<not> is_cv x | Wait_token _ _ _ c \<Rightarrow> is_cv x \<and> m_cond x = c))"

definition mon_rep ::
    "'u token monitor \<Rightarrow> cond_var \<times> mutex \<times> ('q, 'v, 'u) cv_world \<Rightarrow> bool" where
  "mon_rep M s \<longleftrightarrow>
     (case s of (cv, m, w) \<Rightarrow>
       cv_state cv m w (map_option (map tk_addr) (fst M)) (map tk_addr (snd M)) \<and>
       (\<forall>t \<in> set (mon_tokens M). tok_ok w t) \<and> (\<forall>t \<in> set (snd M). is_Wait_token t))"

lemma tok_ok_steady: "steady w w1 \<Longrightarrow> tok_ok w1 t = tok_ok w t"
  by (cases t) (simp_all add: tok_ok_def steady_def Let_def)

lemma tok_ok_stays: "tok_ok w t \<Longrightarrow> stays u w (tk_addr t) = tk_blocked u t"
  by (cases t) (auto simp: tok_ok_def Let_def stays_def cond_fails_def split: option.splits)

lemma tok_ok_fails: "tok_ok w t \<Longrightarrow> is_Wait_token t \<Longrightarrow> cond_fails u (tk_addr t) w = tk_blocked u t"
  by (cases t) (auto simp: tok_ok_def Let_def cond_fails_def split: option.splits)

lemma handles_of_simps [simp]:
  "handles_of i [] = []" "handles_of i (xs @ ys) = handles_of i xs @ handles_of i ys"
  by (simp_all add: handles_of_def)

lemma handles_for_tokens: "\<forall>t \<in> set ts. tok_ok w t \<Longrightarrow> handles_for i w (map tk_addr ts) = handles_of i ts"
  by (induction ts) (auto simp: handles_of_def tok_ok_def Let_def)

lemma mon_tokens_split: "set (mon_tokens M) = (case fst M of None \<Rightarrow> {} | Some q \<Rightarrow> set q) \<union> set (snd M)"
  by (cases M rule: mon_tokens.cases) auto

lemma length_mon_tokens:
  "length (mon_tokens M) = (case fst M of None \<Rightarrow> 0 | Some q \<Rightarrow> length q) + length (snd M)"
  by (cases M rule: mon_tokens.cases) auto

section \<open>Each operation refines its abstract one\<close>

lemma cv_state_construct:
  assumes "cv_state cv m w l cs" and "a \<notin> set cs" and "\<And>q. l = Some q \<Longrightarrow> a \<notin> set q"
    and "\<And>c. c \<noteq> a \<Longrightarrow> waiters w1 c = waiters w c"
  shows "cv_state cv m w1 l cs"
proof -
  have *: "waiters w1 c = waiters w c" if "c \<in> set cs \<or> (\<exists>q. l = Some q \<and> c \<in> set q)" for c
    using that assms(2-4) by metis
  have "mutex_rep m w1 l"
  proof (cases l)
    case None
    with assms(1) show ?thesis by (simp add: cv_state_def mutex_rep_def)
  next
    case (Some q)
    then have "mutex_rep m w (Some q)" using assms(1) by (simp add: cv_state_def)
    from mutex_rep_frame [OF this, of w1] * Some show ?thesis by simp
  qed
  moreover have "cv_rep cv w1 cs" by (rule cv_rep_frame [of cv w]) (use assms(1) * in \<open>auto simp: cv_state_def\<close>)
  ultimately show ?thesis using assms(1) * by (auto simp: cv_state_def)
qed

text \<open>Constructing an awaiter and storing the handle in it.\<close>

lemma construct_frames:
  "c \<noteq> a \<Longrightarrow> waiters (lock_prepare a h (cv_lock i a w)) c = waiters w c"
  "c \<noteq> a \<Longrightarrow> waiters (set_coro a h (cv_wait i k a w)) c = waiters w c"
  "tok_ok (lock_prepare a h (cv_lock i a w)) (Lock_token a i h)"
  "tok_ok (set_coro a h (cv_wait i k a w)) (Wait_token a i h k)"
  "queued ql (lock_prepare a h (cv_lock i a w)) j = queued ql w j"
  "queued ql (set_coro a h (cv_wait i k a w)) j = queued ql w j"
  "roomy Q ql n (lock_prepare a h (cv_lock i a w)) = roomy Q ql n w"
  "roomy Q ql n (set_coro a h (cv_wait i k a w)) = roomy Q ql n w"
  by (auto simp: lock_prepare_def cv_lock_def cv_wait_def set_coro_def tok_ok_def waiter_register_def
      upd_ctx_def register_wait_def roomy_def context_running_def Let_def)

lemma ctx_of_cv_wait [simp]: "ctx_of (cv_wait i k a w) = ctx_of w"
  by (simp add: cv_wait_def)

lemma tok_ok_other:
  "tok_ok w t \<Longrightarrow> waiters w1 (tk_addr t) = waiters w (tk_addr t) \<Longrightarrow> tok_ok w1 t"
  by (simp add: tok_ok_def)

lemma mon_repD:
  assumes "mon_rep (l, cs) (cv, m, w)"
  shows "cv_state cv m w (map_option (map tk_addr) l) (map tk_addr cs)"
    and "\<forall>t \<in> set (mon_tokens (l, cs)). tok_ok w t" and "\<forall>t \<in> set cs. is_Wait_token t"
    and "\<forall>t \<in> set cs. tok_ok w t" and "\<And>q. l = Some q \<Longrightarrow> \<forall>t \<in> set q. tok_ok w t"
  using assms by (simp_all add: mon_rep_def mon_tokens_split)

lemma mon_repI:
  assumes "cv_state cv m w (map_option (map tk_addr) l) (map tk_addr cs)"
    and "\<And>t. t \<in> set cs \<Longrightarrow> tok_ok w t \<and> is_Wait_token t" and "\<And>q t. l = Some q \<Longrightarrow> t \<in> set q \<Longrightarrow> tok_ok w t"
  shows "mon_rep (l, cs) (cv, m, w)"
  using assms by (auto simp: mon_rep_def mon_tokens_split split: option.splits)

lemma blocked_waits [simp]: "tk_blocked u t \<Longrightarrow> is_Wait_token t"
  by (cases "(u, t)" rule: tk_blocked.cases) auto

lemma after_skip_map:
  "after_skip (map f ys) = map_option (map f) (case ys of [] \<Rightarrow> None | t # r \<Rightarrow> Some r)"
  by (cases ys) (simp_all add: after_skip_def)

lemma mon_unlock_refines:
  assumes R: "mon_rep (Some q, cs) (cv, m, w)" and "length q < d" and room: "roomy Q ql (Suc room) w"
    and act: "mon_unlock (tk_blocked u) (Some q, cs) = (woken, M1)"
  shows "\<exists>s1. virtual_unlock d d Q u (cv, m, w) = Inr s1 \<and> mon_rep M1 s1 \<and>
    (\<forall>i. queued ql (snd (snd s1)) i = queued ql w i @ handles_of i woken) \<and> roomy Q ql room (snd (snd s1))"
proof -
  note r = mon_repD [OF R]
  have len: "length (map tk_addr q) < d" "length (map tk_addr q) \<le> d" using assms(2) by simp_all
  have blk: "stays u w (tk_addr t) = tk_blocked u t" if "t \<in> set q" for t
    by (rule tok_ok_stays) (rule bspec [OF r(5) [OF refl] that])
  have "dropWhile (stays u w \<circ> tk_addr) q = dropWhile (tk_blocked u) q"
    by (rule dropWhile_cong) (simp_all add: blk)
  then have drop: "dropWhile (stays u w) (map tk_addr q) = map tk_addr (dropWhile (tk_blocked u) q)"
    by (simp add: dropWhile_map)
  have "takeWhile (stays u w \<circ> tk_addr) q = takeWhile (tk_blocked u) q"
    by (rule takeWhile_cong) (simp_all add: blk)
  then have take: "takeWhile (stays u w) (map tk_addr q) = map tk_addr (takeWhile (tk_blocked u) q)"
    by (simp add: takeWhile_map)
  have S: "cv_state cv m w (Some (map tk_addr q)) (map tk_addr cs)" using r(1) by simp
  from virtual_unlock_spec [OF S len room, of u] obtain cv1 m1 w1
    where v: "virtual_unlock d d Q u (cv, m, w) = Inr (cv1, m1, w1)"
      and s1: "cv_state cv1 m1 w1 (after_skip (map tk_addr (dropWhile (tk_blocked u) q)))
        (map tk_addr cs @ map tk_addr (takeWhile (tk_blocked u) q))"
      and que: "\<forall>i. queued ql w1 i = queued ql w i @ handed_to i w (map tk_addr (dropWhile (tk_blocked u) q))"
      and st: "steady w w1" and room1: "roomy Q ql room w1" unfolding drop take by blast
  have M1: "woken = take 1 (dropWhile (tk_blocked u) q)"
    "M1 = (case dropWhile (tk_blocked u) q of [] \<Rightarrow> None | t # r \<Rightarrow> Some r, cs @ takeWhile (tk_blocked u) q)"
    using act by (simp_all add: mon_unlock_skip)
  have dsub: "set (dropWhile (tk_blocked u) q) \<subseteq> set q" using set_dropWhileD by fastforce
  have hand: "handed_to i w (map tk_addr (dropWhile (tk_blocked u) q)) = handles_of i woken" for i
  proof (cases "dropWhile (tk_blocked u) q")
    case Nil
    show ?thesis unfolding M1(1) handed_to_def Nil by simp
  next
    case (Cons t r')
    have "t \<in> set q" using dsub Cons by auto
    then have "\<forall>x \<in> set [t]. tok_ok w x" using r(5) [OF refl] by simp
    from handles_for_tokens [OF this, of i] show ?thesis
      unfolding M1(1) handed_to_def Cons by (simp del: handles_for_simps)
  qed
  have "mon_rep M1 (cv1, m1, w1)" unfolding M1(2)
  proof (rule mon_repI)
    show "cv_state cv1 m1 w1 (map_option (map tk_addr) (case dropWhile (tk_blocked u) q of [] \<Rightarrow> None | t # r \<Rightarrow> Some r))
        (map tk_addr (cs @ takeWhile (tk_blocked u) q))"
      using s1 unfolding after_skip_map by simp
  next
    fix t assume "t \<in> set (cs @ takeWhile (tk_blocked u) q)"
    then show "tok_ok w1 t \<and> is_Wait_token t"
      using r(3-5) tok_ok_steady [OF st] by (auto dest: set_takeWhileD)
  next
    fix q1 t assume "(case dropWhile (tk_blocked u) q of [] \<Rightarrow> None | t # r \<Rightarrow> Some r) = Some q1" "t \<in> set q1"
    then have "t \<in> set (dropWhile (tk_blocked u) q)" by (auto split: list.splits)
    then show "tok_ok w1 t" using dsub r(5) tok_ok_steady [OF st] by blast
  qed
  with v que hand room1 show ?thesis by simp
qed

lemma mon_wake_refines:
  assumes S: "mon_rep (l, cs) (cv, m, w)" and sps: "False \<in> set sps" and room: "roomy Q ql room w"
    and r0: "l = None \<Longrightarrow> 0 < room" and d: "0 < d"
    and t: "tok_ok w t" "is_Wait_token t" "tk_coro t \<noteq> nullptr" "tk_addr t \<noteq> nullptr" "tk_addr t \<noteq> nolocked"
      "tk_addr t \<notin> set (map tk_addr (mon_tokens (l, cs)))"
    and act: "mon_wake (tk_blocked u) t (l, cs) = (woken, M1)"
  shows "\<exists>s1. cv_wake_up d d Q u sps (tk_addr t) (cv, m, w) = Inr s1 \<and> mon_rep M1 s1 \<and>
    (\<forall>i. queued ql (snd (snd s1)) i = queued ql w i @ handles_of i woken) \<and>
    steady w (snd (snd s1)) \<and> roomy Q ql (room - length woken) (snd (snd s1)) \<and>
    (\<forall>c. c \<noteq> tk_addr t \<and> c \<notin> set (map tk_addr cs) \<longrightarrow> next_of (snd (snd s1)) c = next_of w c)"
proof -
  note r = mon_repD [OF S]
  have coro: "m_await_coro (waiters w (tk_addr t)) \<noteq> nullptr" using t(1,3) by (simp add: tok_ok_def Let_def)
  have out: "tk_addr t \<notin> set (map tk_addr cs)" "\<And>q. map_option (map tk_addr) l = Some q \<Longrightarrow> tk_addr t \<notin> set q"
    using t(6) by (auto simp: mon_tokens_split split: option.splits)
  have l0: "map_option (map tk_addr) l = None \<Longrightarrow> 0 < room" using r0 by simp
  have cf: "cond_fails u (tk_addr t) w = tk_blocked u t" by (rule tok_ok_fails [OF t(1,2)])
  have hs: "handles_for i w [tk_addr t] = handles_of i [t]" for i
    using handles_for_tokens [of "[t]" w i] t(1) by simp
  obtain l1 cs1 wk
    where ws: "woken_state u w (tk_addr t) (map_option (map tk_addr) l) (map tk_addr cs) = (l1, cs1, wk)"
    by (rule prod_cases3)
  from wake_up_spec [OF r(1) sps room l0 d t(4,5) out(1) coro out(2), of d u]
  obtain cv1 m1 w1 where wk: "cv_wake_up d d Q u sps (tk_addr t) (cv, m, w) = Inr (cv1, m1, w1)"
    and c1: "cv_state cv1 m1 w1 l1 cs1" "\<forall>i. queued ql w1 i = queued ql w i @ handles_for i w wk"
      "steady w w1" "roomy Q ql (room - length wk) w1"
      "\<forall>c. c \<noteq> tk_addr t \<and> c \<notin> set (map tk_addr cs) \<longrightarrow> next_of w1 c = next_of w c"
    unfolding ws prod.case by blast
  have same: "length wk = length woken" "\<forall>i. handles_for i w wk = handles_of i woken"
    "l1 = map_option (map tk_addr) (fst M1)" "cs1 = map tk_addr (snd M1)"
    using ws act hs by (auto simp: woken_state_def cf simp del: handles_for_simps(2) split: option.splits if_splits)
  obtain l2 cs2 where M1: "M1 = (l2, cs2)" by (cases M1)
  have toks: "set cs2 \<subseteq> insert t (set cs)" "\<And>q. l2 = Some q \<Longrightarrow> set q \<subseteq> insert t (set (mon_tokens (l, cs)))"
    using act M1 by (cases l; auto split: if_splits)+
  have "mon_rep M1 (cv1, m1, w1)" unfolding M1
  proof (rule mon_repI)
    show "cv_state cv1 m1 w1 (map_option (map tk_addr) l2) (map tk_addr cs2)" using c1(1) same(3,4) M1 by simp
    show "tok_ok w1 x \<and> is_Wait_token x" if "x \<in> set cs2" for x
      using that toks(1) t(1,2) r(3,4) tok_ok_steady [OF c1(3)] by auto
    show "tok_ok w1 x" if "l2 = Some q" "x \<in> set q" for q x
      using that toks(2) t(1) r(2) tok_ok_steady [OF c1(3)] by blast
  qed
  with wk c1 same show ?thesis by simp
qed

lemma mon_wake_tokens:
  assumes "mon_wake blk t M = (woken, M1)"
  shows "set (mon_tokens M1) \<subseteq> insert t (set (mon_tokens M))" and "fst M1 = None \<Longrightarrow> fst M = None \<and> woken = []"
  using assms by (cases M rule: mon_tokens.cases; auto split: if_splits)+

lemma mon_wake_all_refines:
  assumes "mon_rep M (cv, m, w)" and sps: "False \<in> set sps" and "roomy Q ql room w"
    and "fst M = None \<Longrightarrow> 0 < room" and d: "0 < d" and "length ts < k"
    and "chain (next_of w) cur (map tk_addr ts)" and "distinct (map tk_addr ts)"
    and "\<forall>t \<in> set ts. tok_ok w t \<and> is_Wait_token t \<and> tk_coro t \<noteq> nullptr \<and> tk_addr t \<noteq> nolocked \<and>
      tk_addr t \<notin> set (map tk_addr (mon_tokens M))"
    and "mon_wake_all (tk_blocked u) ts M = (woken, M1)"
  shows "\<exists>s1. wake_list k d d Q u sps cur (cv, m, w) = Inr s1 \<and> mon_rep M1 s1 \<and>
    (\<forall>i. queued ql (snd (snd s1)) i = queued ql w i @ handles_of i woken) \<and>
    roomy Q ql (room - length woken) (snd (snd s1))"
  using assms(1,3,4,6-10)
proof (induction ts arbitrary: M cv m w room k cur woken M1)
  case Nil
  then obtain k' where "k = Suc k'" by (cases k) auto
  with Nil show ?case by simp
next
  case (Cons t ts)
  obtain k' where k: "k = Suc k'" using Cons.prems(4) by (cases k) auto
  obtain l cs where M: "M = (l, cs)" by (cases M)
  obtain wk M2 where wk: "mon_wake (tk_blocked u) t (l, cs) = (wk, M2)" by (cases "mon_wake (tk_blocked u) t (l, cs)")
  obtain wk2 where rest: "mon_wake_all (tk_blocked u) ts M2 = (wk2, M1)" and woken: "woken = wk @ wk2"
    using Cons.prems(8) wk M by (auto split: prod.splits)
  have cur: "cur = tk_addr t" "tk_addr t \<noteq> nullptr" and tl: "chain (next_of w) (m_next (waiters w cur)) (map tk_addr ts)"
    using Cons.prems(5) by auto
  have t: "tok_ok w t" "is_Wait_token t" "tk_coro t \<noteq> nullptr" "tk_addr t \<noteq> nolocked"
    "tk_addr t \<notin> set (map tk_addr (mon_tokens (l, cs)))" using Cons.prems(7) M by auto
  have r0: "l = None \<Longrightarrow> 0 < room" using Cons.prems(3) M by simp
  from mon_wake_refines [OF Cons.prems(1) [unfolded M] sps Cons.prems(2) r0 d t(1-3) cur(2) t(4,5) wk]
  obtain cv2 m2 w2 where s: "cv_wake_up d d Q u sps cur (cv, m, w) = Inr (cv2, m2, w2)" "mon_rep M2 (cv2, m2, w2)"
    and que: "\<forall>i. queued ql w2 i = queued ql w i @ handles_of i wk" and st: "steady w w2"
    and room: "roomy Q ql (room - length wk) w2"
    and fr: "\<forall>c. c \<noteq> tk_addr t \<and> c \<notin> set (map tk_addr cs) \<longrightarrow> next_of w2 c = next_of w c"
    unfolding cur(1) by auto
  have sub: "set (mon_tokens M2) \<subseteq> insert t (set (mon_tokens M))" and none: "fst M2 = None \<Longrightarrow> fst M = None \<and> wk = []"
    using mon_wake_tokens [OF wk] M by auto
  have out: "c \<noteq> tk_addr t \<and> c \<notin> set (map tk_addr cs)" if c: "c \<in> set (map tk_addr ts)" for c
  proof
    show "c \<noteq> tk_addr t" using c Cons.prems(6) by force
    obtain x where "x \<in> set ts" "c = tk_addr x" using c by auto
    then have "c \<notin> set (map tk_addr (mon_tokens M))" using Cons.prems(7) by simp
    then show "c \<notin> set (map tk_addr cs)" using M by (auto simp: mon_tokens_split)
  qed
  have c2: "chain (next_of w2) (m_next (waiters w cur)) (map tk_addr ts)"
    using tl chain_cong [of "map tk_addr ts" "next_of w2" "next_of w"] fr out by simp
  have f2: "\<forall>x \<in> set ts. tok_ok w2 x \<and> is_Wait_token x \<and> tk_coro x \<noteq> nullptr \<and> tk_addr x \<noteq> nolocked \<and>
      tk_addr x \<notin> set (map tk_addr (mon_tokens M2))"
  proof
    fix x assume x: "x \<in> set ts"
    have "tk_addr x \<in> set (map tk_addr ts)" using x by simp
    then have "tk_addr x \<noteq> tk_addr t" using out by blast
    moreover have "tk_addr x \<notin> set (map tk_addr (mon_tokens M))" using x Cons.prems(7) by simp
    moreover have "set (map tk_addr (mon_tokens M2)) \<subseteq> insert (tk_addr t) (set (map tk_addr (mon_tokens M)))"
      using sub by auto
    ultimately have "tk_addr x \<notin> set (map tk_addr (mon_tokens M2))" by blast
    with x Cons.prems(7) show "tok_ok w2 x \<and> is_Wait_token x \<and> tk_coro x \<noteq> nullptr \<and> tk_addr x \<noteq> nolocked \<and>
      tk_addr x \<notin> set (map tk_addr (mon_tokens M2))" using tok_ok_steady [OF st] by simp
  qed
  have z2: "fst M2 = None \<Longrightarrow> 0 < room - length wk" using none Cons.prems(3) by simp
  have l2: "length ts < k'" "distinct (map tk_addr ts)" using Cons.prems(4,6) k by auto
  from Cons.IH [OF s(2) room z2 l2(1) c2 l2(2) f2 rest]
  obtain s1 where w1: "wake_list k' d d Q u sps (m_next (waiters w cur)) (cv2, m2, w2) = Inr s1" "mon_rep M1 s1"
    "\<forall>i. queued ql (snd (snd s1)) i = queued ql w2 i @ handles_of i wk2"
    "roomy Q ql (room - length wk - length wk2) (snd (snd s1))"
    by blast
  have "wake_list k d d Q u sps cur (cv, m, w) = Inr s1"
    using s(1) w1(1) cur by (simp add: k Let_def)
  with w1 que woken show ?case by (simp add: diff_diff_eq)
qed

text \<open>One operation.\<close>

definition sim_step ::
    "'q queue_ops \<Rightarrow> ('q \<Rightarrow> handle list) \<Rightarrow> nat \<Rightarrow> nat \<Rightarrow> bool list \<Rightarrow> 'u \<times> 'u mon_op \<Rightarrow>
     cond_var \<times> mutex \<times> ('q, 'v, 'u) cv_world \<Rightarrow> bool \<times> 'u token list \<times> 'u token monitor \<Rightarrow> bool" where
  "sim_step Q ql room d sps x s r \<longleftrightarrow>
     (case r of (susp, woken, M1) \<Rightarrow>
       \<exists>s1. mon_step d Q sps x s = Inr (susp, s1) \<and> mon_rep M1 s1 \<and>
         (\<forall>i. queued ql (snd (snd s1)) i = queued ql (snd (snd s)) i @ handles_of i woken) \<and>
         roomy Q ql room (snd (snd s1)))"

lemma roomy_le: "roomy Q ql n w \<Longrightarrow> k \<le> n \<Longrightarrow> roomy Q ql k w"
  unfolding roomy_def by (meson add_left_mono le_trans)

lemma mon_lock_refines:
  assumes R: "mon_rep M (cv, m, w)" and ok: "mon_ok (Mlock i a h) M" and room: "roomy Q ql room w"
    and sps: "False \<in> set sps"
  shows "sim_step Q ql room d sps (u, Mlock i a h) (cv, m, w) (mon_act (u, Mlock i a h) M)"
proof -
  obtain l cs where M: "M = (l, cs)" by (cases M)
  note r = mon_repD [OF R [unfolded M]]
  let ?w = "lock_prepare a h (cv_lock i a w)"
  have a: "a \<noteq> nullptr" "a \<noteq> nolocked" "h \<noteq> nullptr" and fr: "a \<notin> set (map tk_addr (mon_tokens (l, cs)))"
    using ok M by auto
  have out: "a \<notin> set (map tk_addr cs)" "\<And>q. map_option (map tk_addr) l = Some q \<Longrightarrow> a \<notin> set q"
    using fr by (auto simp: mon_tokens_split split: option.splits)
  have S: "cv_state cv m ?w (map_option (map tk_addr) l) (map tk_addr cs)"
    by (rule cv_state_construct [OF r(1) out]) (simp_all add: construct_frames)
  have keep: "tok_ok ?w t" if "t \<in> set (mon_tokens (l, cs))" for t
  proof -
    have "tk_addr t \<noteq> a" using that fr by force
    from tok_ok_other [OF bspec [OF r(2) that] construct_frames(1) [OF this]] show ?thesis .
  qed
  have coro: "m_await_coro (waiters ?w a) = h" by (simp add: lock_prepare_frames)
  have C: "cv_rep cv ?w (map tk_addr cs)" using S by (simp add: cv_state_def)
  have D: "b \<noteq> nolocked \<and> m_await_coro (waiters ?w b) \<noteq> nullptr \<and> b \<noteq> a \<and>
      (case l of None \<Rightarrow> True | Some q \<Rightarrow> b \<notin> set (map tk_addr q))" if "b \<in> set (map tk_addr cs)" for b
    using S that out(1) unfolding cv_state_def by (cases l) auto
  have fin: "sim_step Q ql room d sps (u, Mlock i a h) (cv, m, w) (susp, [], l1, cs)"
    if reg: "register_lock sps a m ?w = Inr (susp, m1, w1)" and rep: "mutex_rep m1 w1 (map_option (map tk_addr) l1)"
      and ctx: "ctx_of w1 = ctx_of ?w" and same: "same_but_next ?w w1"
      and nxt: "\<forall>c. c \<noteq> a \<longrightarrow> next_of w1 c = next_of ?w c"
      and l1: "\<And>q t. l1 = Some q \<Longrightarrow> t \<in> set q \<Longrightarrow> t = Lock_token a i h \<or> t \<in> set (mon_tokens (l, cs))"
      and sep: "\<And>b. b \<in> set (map tk_addr cs) \<Longrightarrow> (case map_option (map tk_addr) l1 of None \<Rightarrow> True | Some q \<Rightarrow> b \<notin> set q)"
    for susp m1 w1 l1
  proof -
    have st: "steady ?w w1" by (rule quiet_steady [OF quiet_next [OF same ctx]])
    have "cv_state cv m1 w1 (map_option (map tk_addr) l1) (map tk_addr cs)"
      by (rule cv_state_same_lists [OF C same out(1) nxt rep]) (use D sep in simp)
    then have "mon_rep (l1, cs) (cv, m1, w1)"
    proof (rule mon_repI)
      show "tok_ok w1 t \<and> is_Wait_token t" if "t \<in> set cs" for t
        using keep [of t] r(3) that by (simp add: tok_ok_steady [OF st] mon_tokens_split)
      show "tok_ok w1 t" if "l1 = Some q" "t \<in> set q" for q t
        using l1 [OF that] keep [of t] construct_frames(3) unfolding tok_ok_steady [OF st] by blast
    qed
    moreover have "roomy Q ql room w1" using room roomy_ctx [OF ctx] by (simp add: construct_frames)
    moreover have "queued ql w1 j = queued ql w j" for j
      using ctx construct_frames(5) by metis
    ultimately show ?thesis using reg by (simp add: sim_step_def mutex_await_suspend_def)
  qed
  show ?thesis
  proof (cases l)
    case None
    then have rep: "mutex_rep m ?w None" using S by (simp add: cv_state_def)
    from register_lock_free [OF this sps, of a] obtain m1 w1 where
      reg: "register_lock sps a m ?w = Inr (False, m1, w1)" "mutex_rep m1 w1 (Some [])"
      "ctx_of w1 = ctx_of ?w" "same_but_next ?w w1" "\<forall>c. c \<noteq> a \<longrightarrow> next_of w1 c = next_of ?w c" by auto
    have "sim_step Q ql room d sps (u, Mlock i a h) (cv, m, w) (False, [], Some [], cs)"
      by (rule fin [OF reg(1) _ reg(3-5)]) (use reg(2) in simp_all)
    then show ?thesis by (simp add: M None)
  next
    case (Some q)
    then have rep: "mutex_rep m ?w (Some (map tk_addr q))" using S by (simp add: cv_state_def)
    have aq: "a \<notin> set (map tk_addr q)" using out(2) Some by simp
    have "m_await_coro (waiters ?w a) \<noteq> nullptr" using coro a(3) by simp
    from register_lock_held [OF rep sps aq a(1,2) this] obtain m1 w1 where
      reg: "register_lock sps a m ?w = Inr (True, m1, w1)"
        "mutex_rep m1 w1 (map_option (map tk_addr) (Some (q @ [Lock_token a i h])))"
        "ctx_of w1 = ctx_of ?w" "same_but_next ?w w1" "\<forall>c. c \<noteq> a \<longrightarrow> next_of w1 c = next_of ?w c" by auto
    have "sim_step Q ql room d sps (u, Mlock i a h) (cv, m, w) (True, [], Some (q @ [Lock_token a i h]), cs)"
      by (rule fin [OF reg]) (use D Some in \<open>auto simp: mon_tokens_split\<close>)
    then show ?thesis by (simp add: M Some)
  qed
qed

lemma construct_rep:
  assumes "mon_rep M (cv, m, w)" and "a \<notin> set (map tk_addr (mon_tokens M))"
    and "\<And>c. c \<noteq> a \<Longrightarrow> waiters w1 c = waiters w c"
  shows "mon_rep M (cv, m, w1)"
proof -
  obtain l cs where M: "M = (l, cs)" by (cases M)
  note r = mon_repD [OF assms(1) [unfolded M]]
  have out: "a \<notin> set (map tk_addr cs)" "\<And>q. map_option (map tk_addr) l = Some q \<Longrightarrow> a \<notin> set q"
    using assms(2) M by (auto simp: mon_tokens_split split: option.splits)
  have keep: "tok_ok w1 t" if "t \<in> set (mon_tokens (l, cs))" for t
  proof -
    have "tk_addr t \<noteq> a" using that assms(2) M by force
    from tok_ok_other [OF bspec [OF r(2) that] assms(3) [OF this]] show ?thesis .
  qed
  show ?thesis unfolding M
    by (rule mon_repI [OF cv_state_construct [OF r(1) out assms(3)]])
       (use keep r(3) in \<open>auto simp: mon_tokens_split\<close>)
qed

lemma mon_wait_refines:
  assumes R: "mon_rep M (cv, m, w)" and ok: "mon_ok (Mwait i c a h) M" and room: "roomy Q ql (Suc room) w"
    and d: "length (mon_tokens M) < d"
  shows "sim_step Q ql room d sps (u, Mwait i c a h) (cv, m, w) (mon_act (u, Mwait i c a h) M)"
proof -
  obtain q cs where M: "M = (Some q, cs)" using ok by (cases M) auto
  let ?w = "set_coro a h (cv_wait i c a w)" and ?t = "Wait_token a i h c"
  have a: "a \<noteq> nullptr" "a \<noteq> nolocked" "h \<noteq> nullptr" and fr: "a \<notin> set (map tk_addr (mon_tokens M))"
    using ok by auto
  have R0: "mon_rep M (cv, m, ?w)" by (rule construct_rep [OF R fr construct_frames(2)])
  have t: "tok_ok ?w ?t" by (rule construct_frames(4))
  have cond: "m_cond (waiters ?w a) = c" using t by (simp add: tok_ok_def Let_def)
  have holds: "cond_holds u a ?w = (case c of None \<Rightarrow> False | Some f \<Rightarrow> f u)"
    using cond by (simp add: cond_holds_def split: option.splits)
  have room0: "roomy Q ql (Suc room) ?w" using room by (simp only: construct_frames(8))
  show ?thesis
  proof (cases "cond_holds u a ?w")
    case True
    with R0 roomy_mono [OF room0] show ?thesis
      by (simp add: sim_step_def holds mon_wait_def cv_await_suspend_def cv_register_lock_def construct_frames)
  next
    case False
    note r0 = mon_repD [OF R0 [unfolded M]]
    have S0: "cv_state cv m ?w (Some (map tk_addr q)) (map tk_addr cs)" using r0(1) by simp
    have aq: "a \<notin> set (map tk_addr q)" "a \<notin> set (map tk_addr cs)" using fr M by auto
    have coro: "m_await_coro (waiters ?w a) \<noteq> nullptr" using t a(3) by (simp add: tok_ok_def Let_def)
    from requeue [OF S0 aq a(1,2) coro] obtain cv1 w1 where
      reg: "register_cv a cv (set_suspend a ?w) = Inr (cv1, w1)"
      and S1: "cv_state cv1 m w1 (Some (map tk_addr q)) (map tk_addr cs @ [a])" and qt: "quiet ?w w1" by blast
    note st = quiet_steady [OF qt]
    have R1: "mon_rep (Some q, cs @ [?t]) (cv1, m, w1)"
      by (rule mon_repI) (use S1 t r0(3-5) tok_ok_steady [OF st] in auto)
    have room1: "roomy Q ql (Suc room) w1" using room0 by (simp only: quietD(6) [OF qt])
    obtain woken M1 where act: "mon_unlock (tk_blocked u) (Some q, cs @ [?t]) = (woken, M1)"
      by (cases "mon_unlock (tk_blocked u) (Some q, cs @ [?t])")
    have "length q < d" using d M by simp
    from mon_unlock_refines [OF R1 this room1 act] obtain s1 where
      v: "virtual_unlock d d Q u (cv1, m, w1) = Inr s1" "mon_rep M1 s1"
        "\<forall>i. queued ql (snd (snd s1)) i = queued ql w1 i @ handles_of i woken" "roomy Q ql room (snd (snd s1))"
      by blast
    have "queued ql w1 j = queued ql w j" for j using quietD(4) [OF qt] construct_frames(6) by metis
    moreover have "\<not> (case c of None \<Rightarrow> False | Some f \<Rightarrow> f u)" using False holds by simp
    ultimately show ?thesis
      using False v reg act
      by (simp add: sim_step_def mon_wait_def cv_await_suspend_def cv_register_lock_def M split: option.splits)
  qed
qed

lemma mon_notify_one_refines:
  assumes R: "mon_rep M (cv, m, w)" and room: "roomy Q ql (Suc room) w" and sps: "False \<in> set sps" and d: "0 < d"
  shows "sim_step Q ql room d sps (u, Mnotify_one) (cv, m, w) (mon_act (u, Mnotify_one) M)"
proof -
  obtain l cs where M: "M = (l, cs)" by (cases M)
  note r = mon_repD [OF R [unfolded M]]
  show ?thesis
  proof (cases cs)
    case Nil
    then obtain cv1 where "notify_one d d Q u sps (cv, m, w) = Inr (cv1, m, w)"
      "cv_state cv1 m w (map_option (map tk_addr) l) []"
      using notify_one_empty [of cv m w "map_option (map tk_addr) l" d d Q u sps] r(1) by auto
    moreover from this(2) have "mon_rep (l, []) (cv1, m, w)" by (rule mon_repI [of _ _ _ _ "[]", simplified]) (use r(5) in auto)
    ultimately show ?thesis using roomy_mono [OF room] by (simp add: sim_step_def M Nil)
  next
    case (Cons t ts)
    have S: "cv_state cv m w (map_option (map tk_addr) l) (tk_addr t # map tk_addr ts)" using r(1) Cons by simp
    obtain cv1 where n: "notify_one d d Q u sps (cv, m, w) = cv_wake_up d d Q u sps (tk_addr t) (cv1, m, w)"
      and S1: "cv_state cv1 m w (map_option (map tk_addr) l) (map tk_addr ts)"
      using notify_one_pops [OF S] by blast
    have R1: "mon_rep (l, ts) (cv1, m, w)" by (rule mon_repI [OF S1]) (use r(3-5) Cons in auto)
    have t: "tok_ok w t" "is_Wait_token t" "tk_addr t \<noteq> nolocked" "tk_addr t \<noteq> nullptr"
      using r(3,4) S Cons by (auto simp: cv_state_def cv_rep_def)
    have coro: "tk_coro t \<noteq> nullptr" using S t(1) by (simp add: cv_state_def tok_ok_def Let_def)
    have "tk_addr t \<notin> set (map tk_addr ts)" "l = Some q \<Longrightarrow> tk_addr t \<notin> set (map tk_addr q)" for q
      using S by (auto simp: cv_state_def cv_rep_def)
    then have fr: "tk_addr t \<notin> set (map tk_addr (mon_tokens (l, ts)))"
      by (auto simp: mon_tokens_split split: option.splits)
    obtain woken M1 where act: "mon_wake (tk_blocked u) t (l, ts) = (woken, M1)"
      by (cases "mon_wake (tk_blocked u) t (l, ts)")
    have len: "length woken \<le> 1" using act by (cases l) (auto split: if_splits)
    from mon_wake_refines [OF R1 sps room _ d t(1,2) coro t(4,3) fr act] obtain s1 where
      v: "cv_wake_up d d Q u sps (tk_addr t) (cv1, m, w) = Inr s1" "mon_rep M1 s1"
        "\<forall>i. queued ql (snd (snd s1)) i = queued ql w i @ handles_of i woken"
        "roomy Q ql (Suc room - length woken) (snd (snd s1))" by blast
    have "roomy Q ql room (snd (snd s1))" by (rule roomy_le [OF v(4)]) (use len in simp)
    with v n act show ?thesis by (simp add: sim_step_def M Cons)
  qed
qed

lemma mon_wake_all_one:
  "mon_wake_all blk ts M = (woken, M1) \<Longrightarrow> length woken \<le> (if fst M = None then 1 else 0)"
proof (induction ts arbitrary: M woken M1)
  case Nil
  then show ?case by simp
next
  case (Cons t ts)
  show ?case
  proof (cases M rule: mon_tokens.cases)
    case (1 cs)
    with Cons.prems Cons.IH [of "(None, cs @ [t])"] show ?thesis
      by (auto simp: mon_wake_all_held split: if_splits prod.splits)
  next
    case (2 q cs)
    with Cons.prems show ?thesis by (simp add: mon_wake_all_held)
  qed
qed

lemma mon_notify_all_refines:
  assumes R: "mon_rep M (cv, m, w)" and room: "roomy Q ql (Suc room) w" and sps: "False \<in> set sps"
    and d: "length (mon_tokens M) < d"
  shows "sim_step Q ql room d sps (u, Mnotify_all) (cv, m, w) (mon_act (u, Mnotify_all) M)"
proof -
  obtain l cs where M: "M = (l, cs)" by (cases M)
  note r = mon_repD [OF R [unfolded M]]
  obtain cv1 where n: "notify_all d d d Q u sps (cv, m, w) = wake_list d d d Q u sps (m_head cv) (cv1, m, w)"
    and S1: "cv_state cv1 m w (map_option (map tk_addr) l) []"
    and ch: "chain (next_of w) (m_head cv) (map tk_addr cs)" and dist: "distinct (map tk_addr cs)"
    using notify_all_takes [OF r(1)] by blast
  have R1: "mon_rep (l, []) (cv1, m, w)"
    by (rule mon_repI) (use S1 r(5) in auto)
  obtain woken M1 where act: "mon_wake_all (tk_blocked u) cs (l, []) = (woken, M1)"
    by (cases "mon_wake_all (tk_blocked u) cs (l, [])")
  have fr: "tok_ok w t \<and> is_Wait_token t \<and> tk_coro t \<noteq> nullptr \<and> tk_addr t \<noteq> nolocked \<and>
      tk_addr t \<notin> set (map tk_addr (mon_tokens (l, [])))" if t: "t \<in> set cs" for t
  proof -
    have ok: "tok_ok w t" "is_Wait_token t" using r(3,4) t by auto
    have "tk_addr t \<noteq> nolocked \<and> m_await_coro (waiters w (tk_addr t)) \<noteq> nullptr \<and>
        (case map_option (map tk_addr) l of None \<Rightarrow> True | Some q \<Rightarrow> tk_addr t \<notin> set q)"
      using r(1) t by (simp add: cv_state_def)
    with ok show ?thesis by (cases l) (auto simp: tok_ok_def Let_def)
  qed
  have "length cs < d" "0 < d" using d M by (cases l; simp)+
  with mon_wake_all_refines [OF R1 sps room _ _ _ ch dist _ act, of d d] fr obtain s1 where
    v: "wake_list d d d Q u sps (m_head cv) (cv1, m, w) = Inr s1" "mon_rep M1 s1"
      "\<forall>i. queued ql (snd (snd s1)) i = queued ql w i @ handles_of i woken"
      "roomy Q ql (Suc room - length woken) (snd (snd s1))" by blast
  have "roomy Q ql room (snd (snd s1))"
    by (rule roomy_le [OF v(4)]) (use mon_wake_all_one [OF act] in \<open>auto split: if_splits\<close>)
  with v n act show ?thesis by (simp add: sim_step_def M mon_notify_all_def)
qed

lemma mon_step_refines:
  assumes R: "mon_rep M s" and ok: "mon_ok x M" and room: "roomy Q ql (Suc room) (snd (snd s))"
    and sps: "False \<in> set sps" and d: "length (mon_tokens M) < d"
  shows "sim_step Q ql room d sps (u, x) s (mon_act (u, x) M)"
proof -
  obtain cv m w where s: "s = (cv, m, w)" by (rule prod_cases3)
  have room': "roomy Q ql (Suc room) w" and d0: "0 < d" using room d s by auto
  note R = R [unfolded s]
  show ?thesis unfolding s
  proof (cases x)
    case (Mlock i a h)
    show "sim_step Q ql room d sps (u, x) (cv, m, w) (mon_act (u, x) M)"
      unfolding Mlock by (rule mon_lock_refines [OF R ok [unfolded Mlock] roomy_mono [OF room'] sps])
  next
    case (Mwait i c a h)
    show "sim_step Q ql room d sps (u, x) (cv, m, w) (mon_act (u, x) M)"
      unfolding Mwait by (rule mon_wait_refines [OF R ok [unfolded Mwait] room' d])
  next
    case Mnotify_one
    show "sim_step Q ql room d sps (u, x) (cv, m, w) (mon_act (u, x) M)"
      unfolding Mnotify_one by (rule mon_notify_one_refines [OF R room' sps d0])
  next
    case Mnotify_all
    show "sim_step Q ql room d sps (u, x) (cv, m, w) (mon_act (u, x) M)"
      unfolding Mnotify_all by (rule mon_notify_all_refines [OF R room' sps d])
  next
    case Munlock
    obtain q cs where M: "M = (Some q, cs)" using ok Munlock by (cases M) auto
    obtain woken M1 where act: "mon_unlock (tk_blocked u) (Some q, cs) = (woken, M1)"
      by (cases "mon_unlock (tk_blocked u) (Some q, cs)")
    have "length q < d" using d M by simp
    from mon_unlock_refines [OF R [unfolded M] this room' act]
    show "sim_step Q ql room d sps (u, x) (cv, m, w) (mon_act (u, x) M)"
      using act by (auto simp: sim_step_def Munlock M)
  qed
qed

section \<open>Sequences of operations\<close>

text \<open>
  Each operation with the spurious failures of its compare-exchanges and the state the conditions
  read meanwhile. The answers are who stays suspended and, in order, who was submitted.
\<close>

type_synonym 'u mon_script = "(bool list \<times> 'u \<times> 'u mon_op) list"

fun mon_run ::
    "nat \<Rightarrow> 'q queue_ops \<Rightarrow> 'u mon_script \<Rightarrow> cond_var \<times> mutex \<times> ('q, 'v, 'u) cv_world \<Rightarrow>
     (bool list \<times> cond_var \<times> mutex \<times> ('q, 'v, 'u) cv_world) res" where
  "mon_run d Q [] s = Inr ([], s)"
| "mon_run d Q ((sps, x) # xs) s =
     bindE (mon_step d Q sps x s) (\<lambda>(susp, s1). bindE (mon_run d Q xs s1) (\<lambda>(susps, s2). Inr (susp # susps, s2)))"

fun mon_acts :: "'u mon_script \<Rightarrow> 'u token monitor \<Rightarrow> bool list \<times> 'u token list \<times> 'u token monitor" where
  "mon_acts [] M = ([], [], M)"
| "mon_acts ((sps, x) # xs) M =
     (case mon_act x M of (susp, woken, M1) \<Rightarrow>
       (case mon_acts xs M1 of (susps, wokens, M2) \<Rightarrow> (susp # susps, woken @ wokens, M2)))"

fun mons_ok :: "'u mon_script \<Rightarrow> 'u token monitor \<Rightarrow> bool" where
  "mons_ok [] M \<longleftrightarrow> True"
| "mons_ok ((sps, u, x) # xs) M \<longleftrightarrow>
     False \<in> set sps \<and> mon_ok x M \<and> mons_ok xs (snd (snd (mon_act (u, x) M)))"

lemma mon_unlock_length: "length (mon_tokens (snd (mon_unlock blk M))) \<le> length (mon_tokens M)"
  by (induction blk M rule: mon_unlock.induct) auto

lemma mon_wake_length: "length (mon_tokens (snd (mon_wake blk t M))) \<le> Suc (length (mon_tokens M))"
  by (cases M rule: mon_tokens.cases) auto

lemma mon_wake_all_length: "length (mon_tokens (snd (mon_wake_all blk ts M))) \<le> length ts + length (mon_tokens M)"
proof (induction ts arbitrary: M)
  case Nil
  then show ?case by simp
next
  case (Cons t ts)
  have "length (mon_tokens (snd (mon_wake_all blk ts (snd (mon_wake blk t M))))) \<le>
      length ts + Suc (length (mon_tokens M))"
    by (rule le_trans [OF Cons.IH]) (simp add: mon_wake_length)
  then show ?case by (simp add: case_prod_beta)
qed

lemma mon_act_length: "length (mon_tokens (snd (snd (mon_act x M)))) \<le> Suc (length (mon_tokens M))"
proof (cases "(x, M)" rule: mon_act.cases)
  case (1 u i a h M)
  then show ?thesis by (cases M rule: mon_tokens.cases) auto
next
  case (2 u i c a h M)
  have "length (mon_tokens (snd (mon_unlock (tk_blocked u) (fst M, snd M @ [Wait_token a i h c])))) \<le>
      length (mon_tokens (fst M, snd M @ [Wait_token a i h c]))" by (rule mon_unlock_length)
  also have "\<dots> = Suc (length (mon_tokens M))" by (simp add: length_mon_tokens)
  finally show ?thesis using 2 by (simp add: mon_wait_def)
next
  case (3 u M)
  obtain l cs where M: "M = (l, cs)" by (cases M)
  show ?thesis
  proof (cases cs)
    case (Cons t ts)
    have "length (mon_tokens (snd (mon_wake (tk_blocked u) t (l, ts)))) \<le> Suc (length (mon_tokens (l, ts)))"
      by (rule mon_wake_length)
    with 3 M Cons show ?thesis by (simp add: length_mon_tokens)
  qed (use 3 M in \<open>simp add: length_mon_tokens\<close>)
next
  case (4 u M)
  have "length (mon_tokens (snd (mon_wake_all (tk_blocked u) (snd M) (fst M, [])))) \<le>
      length (snd M) + length (mon_tokens (fst M, []))" by (rule mon_wake_all_length)
  with 4 show ?thesis by (simp add: mon_notify_all_def length_mon_tokens)
next
  case (5 u M)
  then show ?thesis using mon_unlock_length [of "tk_blocked u" M] by simp
qed

lemma mon_run_refines:
  "mon_rep M s \<Longrightarrow> mons_ok xs M \<Longrightarrow> roomy Q ql (length xs) (snd (snd s)) \<Longrightarrow>
   length (mon_tokens M) + length xs \<le> d \<Longrightarrow> mon_acts xs M = (susps, woken, M1) \<Longrightarrow>
   \<exists>s1. mon_run d Q xs s = Inr (susps, s1) \<and> mon_rep M1 s1 \<and>
     (\<forall>i. queued ql (snd (snd s1)) i = queued ql (snd (snd s)) i @ handles_of i woken)"
proof (induction xs arbitrary: M s susps woken)
  case Nil
  then show ?case by simp
next
  case (Cons y xs)
  obtain sps u x where y: "y = (sps, u, x)" by (rule prod_cases3)
  obtain susp wk M2 where act: "mon_act (u, x) M = (susp, wk, M2)" by (rule prod_cases3)
  obtain susps2 wk2 where rest: "mon_acts xs M2 = (susps2, wk2, M1)" and out: "susps = susp # susps2" "woken = wk @ wk2"
    using Cons.prems(5) y act by (auto split: prod.splits)
  have ok: "False \<in> set sps" "mon_ok x M" "mons_ok xs M2" using Cons.prems(2) y act by auto
  have room: "roomy Q ql (Suc (length xs)) (snd (snd s))" and d: "length (mon_tokens M) < d"
    using Cons.prems(3,4) by simp_all
  from mon_step_refines [OF Cons.prems(1) ok(2) room ok(1) d, of u] act obtain s2 where
    s2: "mon_step d Q sps (u, x) s = Inr (susp, s2)" "mon_rep M2 s2"
      "\<forall>i. queued ql (snd (snd s2)) i = queued ql (snd (snd s)) i @ handles_of i wk"
      "roomy Q ql (length xs) (snd (snd s2))" by (auto simp: sim_step_def)
  have "length (mon_tokens M2) + length xs \<le> d"
    using mon_act_length [of "(u, x)" M] act Cons.prems(4) by simp
  from Cons.IH [OF s2(2) ok(3) s2(4) this rest] s2(1,3) out y show ?case by fastforce
qed

text \<open>
  C2. A mutex and a condition variable used together are a monitor: every sequence of locks, waits,
  notifications and unlocks runs to its end without a failing assertion, suspends exactly the
  coroutines the abstract monitor suspends, and submits exactly those it wakes, in its order, each
  to its own context.
\<close>

theorem monitor_refines:
  assumes "mons_ok xs (None, [])" and "roomy Q ql (length xs) w" and "length xs \<le> d"
    and "mon_acts xs (None, []) = (susps, woken, M1)"
  shows "\<exists>s1. mon_run d Q xs (new_cond_var, new_mutex, w) = Inr (susps, s1) \<and> mon_rep M1 s1 \<and>
    (\<forall>i. queued ql (snd (snd s1)) i = queued ql w i @ handles_of i woken)"
proof -
  have "cv_state new_cond_var new_mutex w None []"
    by (simp add: cv_state_def mutex_rep_def cv_rep_def new_mutex_def new_cond_var_def new_spinlock_def)
  then have R: "mon_rep (None, []) (new_cond_var, new_mutex, w)" by (simp add: mon_rep_def)
  from mon_run_refines [OF R assms(1) _ _ assms(4), of Q ql d] assms(2,3) show ?thesis by simp
qed

text \<open>
  Two coroutines: the first waits until the state is 1, the second makes it 1 and notifies.
\<close>

definition demo_script :: "nat mon_script" where
  "demo_script =
     [([False], 0, Mlock 0 4 104), ([False], 0, Mlock 0 5 105), ([False], 0, Mwait 0 (Some (\<lambda>u. u = 1)) 6 104),
      ([True, False], 1, Mnotify_all), ([False], 1, Munlock), ([False], 1, Munlock)]"

theorem monitor_refines_witness:
  "\<exists>s1. mon_run 6 list_queue demo_script (new_cond_var, new_mutex, demo_cv_world) =
      Inr ([False, True, True, False, False, False], s1) \<and> mon_rep (None, []) s1 \<and>
    queued (\<lambda>q. q) (snd (snd s1)) 0 = [105, 104]"
proof -
  have ok: "mons_ok demo_script (None, [])" by (simp add: demo_script_def nolocked_def mon_wait_def)
  have room: "roomy list_queue (\<lambda>q. q) (length demo_script) demo_cv_world"
    using demo_context_running demo_context_queue by (simp add: roomy_def demo_cv_world_def demo_script_def kQueCap_def)
  have len: "length demo_script \<le> 6" by (simp add: demo_script_def)
  have act: "mon_acts demo_script (None, []) = ([False, True, True, False, False, False],
      [Lock_token 5 0 105, Wait_token 6 0 104 (Some (\<lambda>u::nat. u = 1))], None, [])"
    by (simp add: demo_script_def mon_wait_def)
  have "queued (\<lambda>q. q) demo_cv_world 0 = []" using demo_context_queue by (simp add: demo_cv_world_def)
  moreover obtain s1 where s1: "mon_run 6 list_queue demo_script (new_cond_var, new_mutex, demo_cv_world) =
      Inr ([False, True, True, False, False, False], s1)" "mon_rep (None, []) s1"
    "\<forall>i. queued (\<lambda>q. q) (snd (snd s1)) i = queued (\<lambda>q. q) demo_cv_world i @
      handles_of i [Lock_token 5 0 105, Wait_token 6 0 104 (Some (\<lambda>u::nat. u = 1))]"
    using monitor_refines [OF ok room len act] by blast
  ultimately have "queued (\<lambda>q. q) (snd (snd s1)) 0 = [105, 104]" by (simp add: handles_of_def)
  with s1 show ?thesis by blast
qed

end
