(* ===== verification/Programs.thy ===== *)
theory Programs
  imports Monitor
begin

text \<open>
  Coroutines that share a mutex, a condition variable and data, as the programs under examples and
  benchtests do. A program gives, for each coroutine and each point of its body, the next thing the
  body does; the system interleaves the coroutines in any order, one action at a time, with the
  abstract monitor of Monitor for the two objects.
\<close>

section \<open>Systems of coroutines\<close>

text \<open>
  What a body does next and the point it continues at: \<open>co_await mtx.lock()\<close>,
  \<open>co_await cv.wait(mtx, cond)\<close>, \<open>cv.notify_one()\<close>, \<open>cv.notify_all()\<close>, \<open>mtx.unlock()\<close> or the
  end of the scope of a guard, an access to the shared data, the end of the body.
\<close>

datatype ('u, 'l) action =
  Do_lock 'l
| Do_wait "'u \<Rightarrow> bool" 'l
| Do_notify_one 'l
| Do_notify_all 'l
| Do_unlock 'l
| Do 'u 'l
| Do_return

datatype 'l status = Runs (pc_of: 'l) | Waits (pc_of: 'l)

type_synonym 'u ptoken = "nat \<times> ('u \<Rightarrow> bool) option"

record ('u, 'l) psys =
  p_mon :: "'u ptoken monitor"
  p_at :: "nat \<Rightarrow> 'l status"
  p_data :: 'u

definition p_start :: "(nat \<Rightarrow> 'l) \<Rightarrow> 'u \<Rightarrow> ('u, 'l) psys" where
  "p_start f u = \<lparr>p_mon = (None, []), p_at = (\<lambda>i. Runs (f i)), p_data = u\<rparr>"

fun p_blk :: "'u \<Rightarrow> 'u ptoken \<Rightarrow> bool" where
  "p_blk u (i, None) \<longleftrightarrow> False"
| "p_blk u (i, Some c) \<longleftrightarrow> \<not> c u"

definition p_wake :: "'u ptoken list \<Rightarrow> (nat \<Rightarrow> 'l status) \<Rightarrow> nat \<Rightarrow> 'l status" where
  "p_wake ts at = (\<lambda>j. if j \<in> fst ` set ts then Runs (pc_of (at j)) else at j)"

definition p_put ::
    "nat \<Rightarrow> 'l status \<Rightarrow> 'u ptoken list \<times> 'u ptoken monitor \<Rightarrow> ('u, 'l) psys \<Rightarrow> ('u, 'l) psys" where
  "p_put i st r s = s\<lparr>p_mon := snd r, p_at := p_wake (fst r) ((p_at s)(i := st))\<rparr>"

lemma p_put_rec:
  "p_put i st r s = \<lparr>p_mon = snd r, p_at = p_wake (fst r) ((p_at s)(i := st)), p_data = p_data s\<rparr>"
  by (simp add: p_put_def)

fun p_act :: "nat \<Rightarrow> ('u, 'l) action \<Rightarrow> ('u, 'l) psys \<Rightarrow> ('u, 'l) psys option" where
  "p_act i (Do_lock l) s =
     (case mon_lock (i, None) (p_mon s) of (susp, M) \<Rightarrow>
        Some (p_put i (if susp then Waits l else Runs l) ([], M) s))"
| "p_act i (Do_wait c l) s =
     (case mon_wait (p_blk (p_data s)) (c (p_data s)) (i, Some c) (p_mon s) of (susp, r) \<Rightarrow>
        Some (p_put i (if susp then Waits l else Runs l) r s))"
| "p_act i (Do_notify_one l) s = Some (p_put i (Runs l) (mon_notify_one (p_blk (p_data s)) (p_mon s)) s)"
| "p_act i (Do_notify_all l) s = Some (p_put i (Runs l) (mon_notify_all (p_blk (p_data s)) (p_mon s)) s)"
| "p_act i (Do_unlock l) s = Some (p_put i (Runs l) (mon_unlock (p_blk (p_data s)) (p_mon s)) s)"
| "p_act i (Do u l) s = Some (s\<lparr>p_at := (p_at s)(i := Runs l), p_data := u\<rparr>)"
| "p_act i Do_return s = None"

definition p_step ::
    "(nat \<Rightarrow> 'l \<Rightarrow> 'u \<Rightarrow> ('u, 'l) action) \<Rightarrow> nat \<Rightarrow> ('u, 'l) psys \<Rightarrow> ('u, 'l) psys option" where
  "p_step code i s =
     (case p_at s i of Waits l \<Rightarrow> None | Runs l \<Rightarrow> p_act i (code i l (p_data s)) s)"

text \<open>A schedule: which coroutine does each step. None when it cannot.\<close>

fun p_run :: "(nat \<Rightarrow> 's \<Rightarrow> 's option) \<Rightarrow> nat list \<Rightarrow> 's \<Rightarrow> 's option" where
  "p_run f [] s = Some s"
| "p_run f (i # is) s = (case f i s of None \<Rightarrow> None | Some s1 \<Rightarrow> p_run f is s1)"

text \<open>The system of a program behaves the same whatever the tokens carry besides the condition.\<close>

definition ptoken_of :: "(handle \<Rightarrow> nat) \<Rightarrow> 'u token \<Rightarrow> 'u ptoken" where
  "ptoken_of f t = (f (tk_coro t), case t of Lock_token _ _ _ \<Rightarrow> None | Wait_token _ _ _ c \<Rightarrow> c)"

fun map_mon :: "('a \<Rightarrow> 'b) \<Rightarrow> 'a monitor \<Rightarrow> 'b monitor" where
  "map_mon f (l, cs) = (map_option (map f) l, map f cs)"

lemma p_blk_token: "p_blk u (ptoken_of f t) = tk_blocked u t"
  by (cases "(u, t)" rule: tk_blocked.cases) (simp_all add: ptoken_of_def)

lemma mon_map:
  assumes "\<And>t. blk' (f t) = blk t"
  shows "mon_lock (f t) (map_mon f M) = apsnd (map_mon f) (mon_lock t M)"
    and "mon_unlock blk' (map_mon f M) = map_prod (map f) (map_mon f) (mon_unlock blk M)"
    and "mon_wait blk' rdy (f t) (map_mon f M) = apsnd (map_prod (map f) (map_mon f)) (mon_wait blk rdy t M)"
    and "mon_wake blk' (f t) (map_mon f M) = map_prod (map f) (map_mon f) (mon_wake blk t M)"
    and "mon_notify_one blk' (map_mon f M) = map_prod (map f) (map_mon f) (mon_notify_one blk M)"
    and "mon_notify_all blk' (map_mon f M) = map_prod (map f) (map_mon f) (mon_notify_all blk M)"
proof -
  have unl: "mon_unlock blk' (map_mon f M) = map_prod (map f) (map_mon f) (mon_unlock blk M)" for M
    using assms by (induction blk M rule: mon_unlock.induct) simp_all
  have wake: "mon_wake blk' (f t) (map_mon f M) = map_prod (map f) (map_mon f) (mon_wake blk t M)" for t M
    by (cases M rule: mon_tokens.cases) (simp_all add: assms)
  have all: "mon_wake_all blk' (map f ts) (map_mon f M) = map_prod (map f) (map_mon f) (mon_wake_all blk ts M)" for ts M
  proof (induction ts arbitrary: M)
    case (Cons t ts)
    show ?case by (simp add: wake Cons.IH case_prod_beta map_prod_def del: map_mon.simps)
  qed simp
  show "mon_lock (f t) (map_mon f M) = apsnd (map_mon f) (mon_lock t M)"
    by (cases M rule: mon_tokens.cases) simp_all
  show "mon_unlock blk' (map_mon f M) = map_prod (map f) (map_mon f) (mon_unlock blk M)" by (rule unl)
  show "mon_wait blk' rdy (f t) (map_mon f M) = apsnd (map_prod (map f) (map_mon f)) (mon_wait blk rdy t M)"
    using unl [of "(fst M, snd M @ [t])"] by (cases M) (simp add: mon_wait_def)
  show "mon_wake blk' (f t) (map_mon f M) = map_prod (map f) (map_mon f) (mon_wake blk t M)" by (rule wake)
  show "mon_notify_one blk' (map_mon f M) = map_prod (map f) (map_mon f) (mon_notify_one blk M)"
  proof (cases "(blk, M)" rule: mon_notify_one.cases)
    case (2 b l t cs)
    then show ?thesis using wake [of t "(l, cs)"] by simp
  qed simp
  show "mon_notify_all blk' (map_mon f M) = map_prod (map f) (map_mon f) (mon_notify_all blk M)"
    using all [of "snd M" "(fst M, [])"] by (cases M) (simp add: mon_notify_all_def)
qed

section \<open>Programs that keep the discipline of the monitor\<close>

text \<open>
  Whether a coroutine is in a point where \<open>P\<close> holds, running.
\<close>

definition p_in :: "('l \<Rightarrow> bool) \<Rightarrow> (nat \<Rightarrow> 'l status) \<Rightarrow> nat \<Rightarrow> bool" where
  "p_in P at i = (case at i of Runs l \<Rightarrow> P l | Waits l \<Rightarrow> False)"

text \<open>The tokens of the monitor are the waiting coroutines, once each.\<close>

definition p_tokens ::
    "nat \<Rightarrow> ('l \<Rightarrow> bool) \<Rightarrow> (nat \<Rightarrow> 'l \<Rightarrow> ('u \<Rightarrow> bool) option) \<Rightarrow> 'u ptoken list \<Rightarrow> (nat \<Rightarrow> 'l status) \<Rightarrow> bool" where
  "p_tokens N holds cond ws at \<longleftrightarrow>
     distinct (map fst ws) \<and>
     (\<forall>(i, k) \<in> set ws. i < N \<and> (\<exists>l. at i = Waits l \<and> holds l \<and> k = cond i l)) \<and>
     (\<forall>i<N. \<forall>l. at i = Waits l \<longrightarrow> i \<in> fst ` set ws)"

definition p_good ::
    "nat \<Rightarrow> ('l \<Rightarrow> bool) \<Rightarrow> (nat \<Rightarrow> 'l \<Rightarrow> ('u \<Rightarrow> bool) option) \<Rightarrow> ('l \<Rightarrow> bool) \<Rightarrow> ('u, 'l) psys \<Rightarrow> bool" where
  "p_good N holds cond dirty s \<longleftrightarrow>
     p_tokens N holds cond (mon_tokens (p_mon s)) (p_at s) \<and>
     (\<forall>i<N. \<forall>j<N. p_in holds (p_at s) i \<and> p_in holds (p_at s) j \<longrightarrow> i = j) \<and>
     (fst (p_mon s) = None \<longleftrightarrow> (\<forall>i<N. \<not> p_in holds (p_at s) i)) \<and>
     (\<forall>i<N. \<forall>l c. p_at s i = Runs l \<and> cond i l = Some c \<longrightarrow> c (p_data s)) \<and>
     ((\<exists>i<N. p_in dirty (p_at s) i) \<or> (\<forall>t \<in> set (snd (p_mon s)). p_blk (p_data s) t))"

lemma p_in_simps [simp]:
  "p_in P (at(i := Runs l)) j = (if j = i then P l else p_in P at j)"
  "p_in P (at(i := Waits l)) j = (j \<noteq> i \<and> p_in P at j)"
  by (auto simp: p_in_def)

lemma p_in_Runs: "at i = Runs l \<Longrightarrow> p_in P at i = P l"
  by (simp add: p_in_def)

lemma p_wake_simps [simp]:
  "p_wake [] at = at"
  "p_wake [t] at = at(fst t := Runs (pc_of (at (fst t))))"
  by (auto simp: p_wake_def)

lemma p_tokens_perm: "mset ws = mset ws' \<Longrightarrow> p_tokens N holds cond ws at = p_tokens N holds cond ws' at"
  unfolding p_tokens_def using mset_eq_setD [of ws ws'] distinct_count_atmost_1
  by (metis (no_types, lifting) mset_map mset_eq_imp_distinct_iff)

lemma p_tokens_run:
  assumes "p_tokens N holds cond ws at" and "at i = Runs l"
  shows "p_tokens N holds cond ws (at(i := Runs l'))"
  using assms by (fastforce simp: p_tokens_def)

lemma p_tokens_add:
  assumes "p_tokens N holds cond ws at" and "at i = Runs l" "i < N" "holds l'"
  shows "p_tokens N holds cond ((i, cond i l') # ws) (at(i := Waits l'))"
  using assms by (fastforce simp: p_tokens_def)

lemma p_tokens_remove:
  assumes "p_tokens N holds cond ((j, k) # ws) at"
  shows "p_tokens N holds cond ws (at(j := Runs (pc_of (at j))))" and "j < N"
    and "\<exists>l. at j = Waits l \<and> holds l \<and> k = cond j l"
proof -
  show "p_tokens N holds cond ws (at(j := Runs (pc_of (at j))))"
    unfolding p_tokens_def
  proof (intro conjI)
    show "distinct (map fst ws)" using assms by (simp add: p_tokens_def)
    have "j \<notin> fst ` set ws" using assms by (simp add: p_tokens_def)
    then have "i \<noteq> j" if "(i, m) \<in> set ws" for i m using that by force
    then show "\<forall>(i, k) \<in> set ws. i < N \<and> (\<exists>l. (at(j := Runs (pc_of (at j)))) i = Waits l \<and> holds l \<and> k = cond i l)"
      using assms by (auto simp: p_tokens_def)
    show "\<forall>i<N. \<forall>l. (at(j := Runs (pc_of (at j)))) i = Waits l \<longrightarrow> i \<in> fst ` set ws"
      using assms by (auto simp: p_tokens_def split: if_splits)
  qed
  show "j < N" "\<exists>l. at j = Waits l \<and> holds l \<and> k = cond j l" using assms by (auto simp: p_tokens_def)
qed

lemma mon_unlock_mset:
  "mon_unlock blk (Some q, cs) = (ts, M) \<Longrightarrow> mset ts + mset (mon_tokens M) = mset q + mset cs"
proof (induction q arbitrary: cs)
  case (Cons t q)
  from Cons.prems Cons.IH [of "cs @ [t]"] show ?case by (auto split: if_splits)
qed auto

text \<open>The owner gives the mutex up: the next waiter that may run gets it.\<close>

lemma p_good_release:
  assumes T: "p_tokens N holds cond (q @ cs) at" and none: "\<forall>j<N. \<not> p_in holds at j"
    and C: "\<forall>i<N. \<forall>l c. at i = Runs l \<and> cond i l = Some c \<longrightarrow> c u" and B: "\<forall>t \<in> set cs. p_blk u t"
    and act: "mon_unlock (p_blk u) (Some q, cs) = (ts, M)"
  shows "p_good N holds cond dirty \<lparr>p_mon = M, p_at = p_wake ts at, p_data = u\<rparr>"
proof -
  have M: "ts = take 1 (dropWhile (p_blk u) q)"
    "M = (case dropWhile (p_blk u) q of [] \<Rightarrow> None | t # r \<Rightarrow> Some r, cs @ takeWhile (p_blk u) q)"
    using act by (simp_all add: mon_unlock_skip)
  have ms: "mset ts + mset (mon_tokens M) = mset (q @ cs)" using mon_unlock_mset [OF act] by simp
  have B': "\<forall>t \<in> set (snd M). p_blk u t" using B by (auto simp: M(2) dest: set_takeWhileD)
  show ?thesis
  proof (cases "dropWhile (p_blk u) q")
    case Nil
    then have ts: "ts = []" and f: "fst M = None" using M unfolding Nil by simp_all
    have "p_tokens N holds cond (mon_tokens M) at" using T ms ts p_tokens_perm by (metis add_0 mset.simps(1))
    with ts f none C B' show ?thesis by (simp add: p_good_def)
  next
    case (Cons t r)
    obtain j k where t: "t = (j, k)" by (cases t)
    have ts: "ts = [(j, k)]" and f: "fst M \<noteq> None" using M t unfolding Cons by simp_all
    have nb: "\<not> p_blk u (j, k)" using Cons t by (metis dropWhile_eq_Cons_conv)
    have "mset (q @ cs) = mset ((j, k) # mon_tokens M)" using ms ts by simp
    from p_tokens_perm [OF this] T have "p_tokens N holds cond ((j, k) # mon_tokens M) at" by blast
    note r = p_tokens_remove [OF this]
    obtain l where l: "at j = Waits l" "holds l" "k = cond j l" using r(3) by blast
    have "c u" if "cond j l = Some c" for c using nb l(3) that by simp
    with r(1,2) none C B' f l ts show ?thesis by (auto simp: p_good_def)
  qed
qed

text \<open>
  What a program promises of its bodies. \<open>holds\<close> are the points inside the critical section,
  \<open>cond\<close> is the condition a body waited for just before a point, \<open>dirty\<close> are the points between
  a change of the data that may make a condition true and the notification of it.
\<close>

locale monitor_program =
  fixes N :: nat and code :: "nat \<Rightarrow> 'l \<Rightarrow> 'u \<Rightarrow> ('u, 'l) action"
    and holds :: "'l \<Rightarrow> bool" and cond :: "nat \<Rightarrow> 'l \<Rightarrow> ('u \<Rightarrow> bool) option" and dirty :: "'l \<Rightarrow> bool"
  assumes dirty_inside: "dirty l \<Longrightarrow> holds l" and cond_inside: "cond i l = Some c \<Longrightarrow> holds l"
    and lock: "code i l u = Do_lock l' \<Longrightarrow> \<not> holds l \<and> holds l' \<and> cond i l' = None \<and> \<not> dirty l'"
    and wait: "code i l u = Do_wait c l' \<Longrightarrow> holds l \<and> holds l' \<and> cond i l' = Some c \<and> \<not> dirty l \<and> \<not> dirty l'"
    and notify_one: "code i l u = Do_notify_one l' \<Longrightarrow> N \<le> 2 \<and> holds l \<and> holds l' \<and> cond i l' = None"
    and notify_all: "code i l u = Do_notify_all l' \<Longrightarrow> holds l \<and> holds l' \<and> cond i l' = None"
    and unlock: "code i l u = Do_unlock l' \<Longrightarrow> holds l \<and> \<not> holds l' \<and> cond i l' = None \<and> \<not> dirty l"
    and access: "code i l u = Do u' l' \<Longrightarrow> holds l' = holds l \<and> cond i l' = None \<and> (u' \<noteq> u \<longrightarrow> holds l) \<and>
      (dirty l \<or> (\<exists>j k c. cond j k = Some c \<and> c u' \<and> \<not> c u) \<longrightarrow> dirty l')"
    and return: "code i l u = Do_return \<Longrightarrow> \<not> holds l"
begin

abbreviation good :: "('u, 'l) psys \<Rightarrow> bool" where
  "good \<equiv> p_good N holds cond dirty"

lemma good_start: "(\<And>i. \<not> holds (f i)) \<Longrightarrow> (\<And>i. cond i (f i) = None) \<Longrightarrow> good (p_start f u)"
  by (auto simp: p_good_def p_start_def p_tokens_def p_in_def)

lemma goodD:
  assumes "good s"
  shows "p_tokens N holds cond (mon_tokens (p_mon s)) (p_at s)"
    and "\<And>i j. i < N \<Longrightarrow> j < N \<Longrightarrow> p_in holds (p_at s) i \<Longrightarrow> p_in holds (p_at s) j \<Longrightarrow> i = j"
    and "fst (p_mon s) = None \<longleftrightarrow> (\<forall>i<N. \<not> p_in holds (p_at s) i)"
    and "\<And>i l c. i < N \<Longrightarrow> p_at s i = Runs l \<Longrightarrow> cond i l = Some c \<Longrightarrow> c (p_data s)"
    and "(\<exists>i<N. p_in dirty (p_at s) i) \<or> (\<forall>t \<in> set (snd (p_mon s)). p_blk (p_data s) t)"
  using assms unfolding p_good_def by blast+

lemma goodI:
  assumes "p_tokens N holds cond (mon_tokens M) at"
    and "\<And>i j. i < N \<Longrightarrow> j < N \<Longrightarrow> p_in holds at i \<Longrightarrow> p_in holds at j \<Longrightarrow> i = j"
    and "fst M = None \<longleftrightarrow> (\<forall>i<N. \<not> p_in holds at i)"
    and "\<And>i l c. i < N \<Longrightarrow> at i = Runs l \<Longrightarrow> cond i l = Some c \<Longrightarrow> c u"
    and "(\<exists>i<N. p_in dirty at i) \<or> (\<forall>t \<in> set (snd M). p_blk u t)"
  shows "good \<lparr>p_mon = M, p_at = at, p_data = u\<rparr>"
  using assms unfolding p_good_def psys.simps by blast

lemma dirty_in: "p_in dirty at i \<Longrightarrow> p_in holds at i"
  by (cases "at i") (simp_all add: p_in_def dirty_inside)

text \<open>A step that leaves the waiting coroutines and the owner as they are.\<close>

lemma good_local:
  assumes G: "good s" and i: "i < N" "p_at s i = Runs l" and h: "holds l' = holds l"
    and M: "mset (mon_tokens M) = mset (mon_tokens (p_mon s))" "fst M = None \<longleftrightarrow> fst (p_mon s) = None"
    and u: "u' \<noteq> p_data s \<Longrightarrow> holds l" and c: "\<And>c. cond i l' = Some c \<Longrightarrow> c u'"
    and d: "(\<exists>j<N. p_in dirty ((p_at s)(i := Runs l')) j) \<or> (\<forall>t \<in> set (snd M). p_blk u' t)"
  shows "good \<lparr>p_mon = M, p_at = (p_at s)(i := Runs l'), p_data = u'\<rparr>"
proof -
  note g = goodD [OF G]
  have T: "p_tokens N holds cond (mon_tokens M) ((p_at s)(i := Runs l'))"
    using p_tokens_run [OF g(1) i(2)] p_tokens_perm [OF M(1)] by metis
  have own: "p_in holds ((p_at s)(i := Runs l')) j = p_in holds (p_at s) j" for j
    using h i(2) by (simp add: p_in_Runs)
  have C: "x u'" if j: "j < N" "((p_at s)(i := Runs l')) j = Runs k" "cond j k = Some x" for j k x
  proof (cases "j = i")
    case True
    with j c show ?thesis by auto
  next
    case False
    then have "p_at s j = Runs k" using j(2) by simp
    then have x: "x (p_data s)" using g(4) j by blast
    show ?thesis
    proof (cases "u' = p_data s")
      case True
      with x show ?thesis by simp
    next
      case False
      then have "p_in holds (p_at s) i" using u i(2) by (simp add: p_in_Runs)
      moreover have "p_in holds (p_at s) j"
        using \<open>p_at s j = Runs k\<close> cond_inside [OF j(3)] by (simp add: p_in_Runs)
      ultimately show ?thesis using g(2) i(1) j(1) \<open>j \<noteq> i\<close> by blast
    qed
  qed
  show ?thesis
  proof (rule goodI [OF T])
    show "a = b" if "a < N" "b < N" "p_in holds ((p_at s)(i := Runs l')) a" "p_in holds ((p_at s)(i := Runs l')) b" for a b
      using g(2) that unfolding own by blast
    show "fst M = None \<longleftrightarrow> (\<forall>j<N. \<not> p_in holds ((p_at s)(i := Runs l')) j)"
      using g(3) M(2) unfolding own by simp
    show "x u'" if "j < N" "((p_at s)(i := Runs l')) j = Runs k" "cond j k = Some x" for j k x
      by (rule C [OF that])
    show "(\<exists>j<N. p_in dirty ((p_at s)(i := Runs l')) j) \<or> (\<forall>t \<in> set (snd M). p_blk u' t)" by (rule d)
  qed
qed

text \<open>The owner is alone: everything that concerns the other coroutines is at rest.\<close>

lemma owner:
  assumes "good s" and "i < N" "p_at s i = Runs l" "holds l"
  shows "\<exists>q cs. p_mon s = (Some q, cs)" and "\<And>j. j < N \<Longrightarrow> j \<noteq> i \<Longrightarrow> \<not> p_in holds (p_at s) j"
    and "\<not> dirty l \<Longrightarrow> \<forall>t \<in> set (snd (p_mon s)). p_blk (p_data s) t"
proof -
  note g = goodD [OF assms(1)]
  have own: "p_in holds (p_at s) i" using assms(3,4) by (simp add: p_in_Runs)
  show "\<exists>q cs. p_mon s = (Some q, cs)" using g(3) own assms(2) by (cases "p_mon s") auto
  show out: "\<not> p_in holds (p_at s) j" if "j < N" "j \<noteq> i" for j using g(2) own assms(2) that by blast
  show "\<forall>t \<in> set (snd (p_mon s)). p_blk (p_data s) t" if "\<not> dirty l"
    using g(5) out dirty_in that assms(2,3) p_in_Runs by metis
qed

lemma good_lock:
  assumes G: "good s" and i: "i < N" "p_at s i = Runs l" and l: "code i l (p_data s) = Do_lock l'"
    and s': "p_act i (Do_lock l') s = Some s'"
  shows "good s'"
proof -
  note g = goodD [OF G] and d = lock [OF l]
  obtain lk cs where M: "p_mon s = (lk, cs)" by (cases "p_mon s")
  have own: "p_in holds ((p_at s)(i := Runs l')) j = (j = i \<or> p_in holds (p_at s) j)"
    and dr: "p_in dirty ((p_at s)(i := Runs l')) j = p_in dirty (p_at s) j" for j
    using d i(2) dirty_inside [of l] by (auto simp: p_in_Runs)
  show ?thesis
  proof (cases lk)
    case None
    then have free: "\<forall>j<N. \<not> p_in holds (p_at s) j" using g(3) M by simp
    have s'': "s' = \<lparr>p_mon = (Some [], cs), p_at = (p_at s)(i := Runs l'), p_data = p_data s\<rparr>"
      using s' M None by (simp add: p_put_rec)
    show ?thesis unfolding s''
    proof (rule goodI)
      show "p_tokens N holds cond (mon_tokens (Some [], cs)) ((p_at s)(i := Runs l'))"
        using p_tokens_run [OF g(1) i(2)] M None by simp
      show "a = b" if "a < N" "b < N" "p_in holds ((p_at s)(i := Runs l')) a" "p_in holds ((p_at s)(i := Runs l')) b" for a b
        using free that unfolding own by blast
      show "fst (Some [], cs) = None \<longleftrightarrow> (\<forall>j<N. \<not> p_in holds ((p_at s)(i := Runs l')) j)"
        using i(1) unfolding own by auto
      show "x (p_data s)" if "j < N" "((p_at s)(i := Runs l')) j = Runs k" "cond j k = Some x" for j k x
        using that d g(4) by (cases "j = i") auto
      show "(\<exists>j<N. p_in dirty ((p_at s)(i := Runs l')) j) \<or> (\<forall>t \<in> set (snd (Some [], cs)). p_blk (p_data s) t)"
        using g(5) M unfolding dr by simp
    qed
  next
    case (Some q)
    have s'': "s' = \<lparr>p_mon = (Some (q @ [(i, None)]), cs), p_at = (p_at s)(i := Waits l'), p_data = p_data s\<rparr>"
      using s' M Some by (simp add: p_put_rec)
    have own: "p_in holds ((p_at s)(i := Waits l')) j = p_in holds (p_at s) j"
      and dr: "p_in dirty ((p_at s)(i := Waits l')) j = p_in dirty (p_at s) j" for j
      using d i(2) dirty_inside [of l] by (auto simp: p_in_Runs)
    have ms: "mset (mon_tokens (Some (q @ [(i, None)]), cs)) = mset ((i, cond i l') # mon_tokens (p_mon s))"
      using M Some d by simp
    show ?thesis unfolding s''
    proof (rule goodI)
      show "p_tokens N holds cond (mon_tokens (Some (q @ [(i, None)]), cs)) ((p_at s)(i := Waits l'))"
        unfolding p_tokens_perm [OF ms] by (rule p_tokens_add [OF g(1) i(2,1)]) (use d in simp)
      show "a = b" if "a < N" "b < N" "p_in holds ((p_at s)(i := Waits l')) a" "p_in holds ((p_at s)(i := Waits l')) b" for a b
        using g(2) that unfolding own by blast
      show "fst (Some (q @ [(i, None)]), cs) = None \<longleftrightarrow> (\<forall>j<N. \<not> p_in holds ((p_at s)(i := Waits l')) j)"
        using g(3) M Some unfolding own by simp
      show "x (p_data s)" if "j < N" "((p_at s)(i := Waits l')) j = Runs k" "cond j k = Some x" for j k x
        using that g(4) by (cases "j = i") auto
      show "(\<exists>j<N. p_in dirty ((p_at s)(i := Waits l')) j) \<or>
          (\<forall>t \<in> set (snd (Some (q @ [(i, None)]), cs)). p_blk (p_data s) t)"
        using g(5) M unfolding dr by simp
    qed
  qed
qed

lemma good_release:
  assumes G: "good s" and i: "i < N" "p_at s i = Runs l" "holds l" and nd: "\<not> dirty l"
    and T: "p_tokens N holds cond (q @ cs) ((p_at s)(i := st))" and st: "\<not> p_in holds ((p_at s)(i := st)) i"
    and C: "\<And>k c. st = Runs k \<Longrightarrow> cond i k = Some c \<Longrightarrow> c (p_data s)"
    and B: "\<forall>t \<in> set cs. p_blk (p_data s) t"
  shows "good (p_put i st (mon_unlock (p_blk (p_data s)) (Some q, cs)) s)"
proof -
  note g = goodD [OF G] and o = owner [OF G i]
  obtain ts M where act: "mon_unlock (p_blk (p_data s)) (Some q, cs) = (ts, M)"
    by (cases "mon_unlock (p_blk (p_data s)) (Some q, cs)")
  have none: "\<forall>j<N. \<not> p_in holds ((p_at s)(i := st)) j"
    using st o(2) by (auto simp: p_in_def)
  have C': "\<forall>j<N. \<forall>k c. ((p_at s)(i := st)) j = Runs k \<and> cond j k = Some c \<longrightarrow> c (p_data s)"
    using C g(4) by (auto split: if_splits)
  have "p_good N holds cond dirty \<lparr>p_mon = M, p_at = p_wake ts ((p_at s)(i := st)), p_data = p_data s\<rparr>"
    by (rule p_good_release [OF T none _ B act]) (use C' in blast)
  then show ?thesis by (simp only: p_put_rec act fst_conv snd_conv)
qed

lemma good_wait:
  assumes G: "good s" and i: "i < N" "p_at s i = Runs l" and l: "code i l (p_data s) = Do_wait c l'"
    and s': "p_act i (Do_wait c l') s = Some s'"
  shows "good s'"
proof -
  note g = goodD [OF G] and d = wait [OF l]
  have h: "holds l" "\<not> dirty l" using d by simp_all
  note o = owner [OF G i h(1)]
  obtain q cs where M: "p_mon s = (Some q, cs)" using o(1) by blast
  show ?thesis
  proof (cases "c (p_data s)")
    case True
    then have s'': "s' = \<lparr>p_mon = p_mon s, p_at = (p_at s)(i := Runs l'), p_data = p_data s\<rparr>"
      using s' by (simp add: p_put_rec mon_wait_def)
    show ?thesis unfolding s''
      by (rule good_local [OF G i]) (use d True o(3) h in auto)
  next
    case False
    have s'': "s' = p_put i (Waits l') (mon_unlock (p_blk (p_data s)) (Some q, cs @ [(i, Some c)])) s"
      using s' False M by (simp add: mon_wait_def)
    have ms: "mset (q @ cs @ [(i, Some c)]) = mset ((i, cond i l') # mon_tokens (p_mon s))" using M d by simp
    have "p_tokens N holds cond (q @ cs @ [(i, Some c)]) ((p_at s)(i := Waits l'))"
      unfolding p_tokens_perm [OF ms] by (rule p_tokens_add [OF g(1) i(2,1)]) (use d in simp)
    then show ?thesis unfolding s''
      by (rule good_release [OF G i h]) (use False o(3) h M in auto)
  qed
qed

lemma good_unlock:
  assumes G: "good s" and i: "i < N" "p_at s i = Runs l" and l: "code i l (p_data s) = Do_unlock l'"
    and s': "p_act i (Do_unlock l') s = Some s'"
  shows "good s'"
proof -
  note g = goodD [OF G] and d = unlock [OF l]
  have h: "holds l" "\<not> dirty l" using d by simp_all
  note o = owner [OF G i h(1)]
  obtain q cs where M: "p_mon s = (Some q, cs)" using o(1) by blast
  have s'': "s' = p_put i (Runs l') (mon_unlock (p_blk (p_data s)) (Some q, cs)) s" using s' M by simp
  have "p_tokens N holds cond (q @ cs) ((p_at s)(i := Runs l'))"
    using p_tokens_run [OF g(1) i(2)] M by simp
  then show ?thesis unfolding s''
    by (rule good_release [OF G i h]) (use d o(3) h M in auto)
qed

lemma two_coroutines:
  assumes G: "good s" and i: "i < N" "p_at s i = Runs l" "holds l" and N: "N \<le> 2"
    and M: "p_mon s = (lk, cs)"
  shows "length cs \<le> 1"
proof (rule ccontr)
  assume "\<not> length cs \<le> 1"
  then obtain a b r where cs: "cs = a # b # r" by (cases cs; cases "tl cs") auto
  have T: "p_tokens N holds cond (mon_tokens (lk, cs)) (p_at s)" using goodD(1) [OF G] M by simp
  have "fst a < N" "fst b < N" "fst a \<noteq> fst b" "fst a \<noteq> i" "fst b \<noteq> i"
    using T cs i(2) by (cases lk; force simp: p_tokens_def)+
  then show False using N i(1) by linarith
qed

lemma good_notify:
  assumes G: "good s" and i: "i < N" "p_at s i = Runs l" and h: "holds l" "holds l'" "cond i l' = None"
    and r: "r = mon_notify_all (p_blk (p_data s)) (p_mon s)"
  shows "good (p_put i (Runs l') r s)"
proof -
  obtain q cs where M: "p_mon s = (Some q, cs)" using owner(1) [OF G i h(1)] by blast
  have s'': "p_put i (Runs l') r s =
      \<lparr>p_mon = (Some (q @ cs), []), p_at = (p_at s)(i := Runs l'), p_data = p_data s\<rparr>"
    using r M by (simp add: p_put_rec)
  show ?thesis unfolding s'' by (rule good_local [OF G i]) (use h M in simp_all)
qed

lemma good_step:
  assumes G: "good s" and i: "i < N" and step: "p_step code i s = Some s'"
  shows "good s'"
proof -
  obtain l where l: "p_at s i = Runs l" using step by (cases "p_at s i") (auto simp: p_step_def)
  have act: "p_act i (code i l (p_data s)) s = Some s'" using step l by (simp add: p_step_def)
  show ?thesis
  proof (cases "code i l (p_data s)")
    case (Do_lock l')
    with act show ?thesis by (intro good_lock [OF G i l]) auto
  next
    case (Do_wait c l')
    with act show ?thesis by (intro good_wait [OF G i l]) auto
  next
    case (Do_notify_one l')
    note d = notify_one [OF this]
    obtain q cs where M: "p_mon s = (Some q, cs)" using owner(1) [OF G i l] d by blast
    have "length cs \<le> 1" by (rule two_coroutines [OF G i l _ _ M]) (use d in auto)
    then have "mon_notify_one (p_blk (p_data s)) (p_mon s) = mon_notify_all (p_blk (p_data s)) (p_mon s)"
      using M by (cases cs) auto
    with act Do_notify_one have s': "s' = p_put i (Runs l') (mon_notify_all (p_blk (p_data s)) (p_mon s)) s" by simp
    show ?thesis unfolding s' by (rule good_notify [OF G i l _ _ _ refl]) (use d in auto)
  next
    case (Do_notify_all l')
    note d = notify_all [OF this]
    have s': "s' = p_put i (Runs l') (mon_notify_all (p_blk (p_data s)) (p_mon s)) s" using act Do_notify_all by simp
    show ?thesis unfolding s' by (rule good_notify [OF G i l _ _ _ refl]) (use d in auto)
  next
    case (Do_unlock l')
    with act show ?thesis by (intro good_unlock [OF G i l]) auto
  next
    case (Do u l')
    note d = access [OF this] and g = goodD [OF G]
    have s': "s' = \<lparr>p_mon = p_mon s, p_at = (p_at s)(i := Runs l'), p_data = u\<rparr>"
      using act Do by (cases s) auto
    have "(\<exists>j<N. p_in dirty ((p_at s)(i := Runs l')) j) \<or> (\<forall>t \<in> set (snd (p_mon s)). p_blk u t)"
    proof (cases "dirty l'")
      case True
      then have "p_in dirty ((p_at s)(i := Runs l')) i" by simp
      with i show ?thesis by blast
    next
      case False
      then have nd: "\<not> dirty l" and keep: "\<And>j k c. cond j k = Some c \<Longrightarrow> c u \<Longrightarrow> c (p_data s)" using d by blast+
      have "p_in dirty ((p_at s)(i := Runs l')) j = p_in dirty (p_at s) j" for j
        using False nd l by (simp add: p_in_Runs)
      moreover have "p_blk u t" if t: "t \<in> set (snd (p_mon s))" and b: "p_blk (p_data s) t" for t
      proof -
        obtain j k where jk: "t = (j, k)" by (cases t)
        have "t \<in> set (mon_tokens (p_mon s))" using t by (simp add: mon_tokens_split)
        then obtain m where "k = cond j m" using g(1) jk by (auto simp: p_tokens_def)
        with b jk keep [of j m] show ?thesis by (cases "cond j m") auto
      qed
      ultimately show ?thesis using g(5) by auto
    qed
    then show ?thesis unfolding s' by (intro good_local [OF G i l]) (use d in auto)
  next
    case Do_return
    with act show ?thesis by simp
  qed
qed

text \<open>
  When nothing can move, every coroutine has returned or waits in the list of the condition
  variable for a condition that is false.
\<close>

lemma stuck:
  assumes G: "good s" and no: "\<forall>i<N. p_step code i s = None" and i: "i < N"
  shows "(\<exists>l. p_at s i = Runs l \<and> code i l (p_data s) = Do_return) \<or>
    (\<exists>l c. p_at s i = Waits l \<and> cond i l = Some c \<and> \<not> c (p_data s))"
proof -
  note g = goodD [OF G]
  have ret: "code j l (p_data s) = Do_return" if "j < N" "p_at s j = Runs l" for j l
  proof -
    have "p_step code j s = None" using no that(1) by blast
    then have "p_act j (code j l (p_data s)) s = None" using that(2) by (simp add: p_step_def)
    then show ?thesis by (cases "code j l (p_data s)") (auto split: prod.splits)
  qed
  have free: "\<forall>j<N. \<not> p_in holds (p_at s) j"
  proof (intro allI impI)
    fix j assume j: "j < N"
    show "\<not> p_in holds (p_at s) j"
    proof (cases "p_at s j")
      case (Runs l)
      with ret [OF j] return show ?thesis by (auto simp: p_in_Runs)
    qed (simp add: p_in_def)
  qed
  then obtain cs where M: "p_mon s = (None, cs)" using g(3) by (cases "p_mon s") auto
  have blk: "\<forall>t \<in> set cs. p_blk (p_data s) t" using g(5) free dirty_in M by auto
  show ?thesis
  proof (cases "p_at s i")
    case (Runs l)
    with ret [OF i] show ?thesis by blast
  next
    case (Waits l)
    then have "i \<in> fst ` set cs" using g(1) i M unfolding p_tokens_def by simp
    then obtain k where k: "(i, k) \<in> set cs" by force
    have c: "k = cond i l" using g(1) M k Waits by (fastforce simp: p_tokens_def)
    have "p_blk (p_data s) (i, k)" using blk k by blast
    then obtain x where x: "k = Some x" "\<not> x (p_data s)" by (cases k) auto
    then have "cond i l = Some x" using c by simp
    with Waits x(2) show ?thesis by blast
  qed
qed

end

section \<open>Programs that end\<close>

text \<open>
  A step function with an invariant and a rank that every step decreases: no schedule is longer than
  the rank of its start.
\<close>

locale ranked_program =
  fixes procs :: nat and stp :: "nat \<Rightarrow> 's \<Rightarrow> 's option" and inv :: "'s \<Rightarrow> bool" and rank :: "'s \<Rightarrow> nat"
  assumes stp_inv: "inv s \<Longrightarrow> i < procs \<Longrightarrow> stp i s = Some s' \<Longrightarrow> inv s'"
    and stp_rank: "inv s \<Longrightarrow> i < procs \<Longrightarrow> stp i s = Some s' \<Longrightarrow> rank s' < rank s"
begin

lemma run:
  "p_run stp is s = Some s' \<Longrightarrow> set is \<subseteq> {..<procs} \<Longrightarrow> inv s \<Longrightarrow> inv s' \<and> length is + rank s' \<le> rank s"
proof (induction "is" arbitrary: s)
  case Nil
  then show ?case by simp
next
  case (Cons i "is")
  obtain s1 where s1: "stp i s = Some s1" "p_run stp is s1 = Some s'"
    using Cons.prems(1) by (auto split: option.splits)
  have "inv s1" "rank s1 < rank s" using stp_inv stp_rank s1(1) Cons.prems(2,3) by auto
  with Cons.IH [OF s1(2)] Cons.prems(2) show ?case by auto
qed

end

text \<open>The sum over the coroutines when one of them moves.\<close>

lemma sum_move:
  fixes f :: "'a \<Rightarrow> nat" and i n :: nat
  assumes "i < n"
  shows "(\<Sum>j<n. f ((at(i := x)) j)) + f (at i) = (\<Sum>j<n. f (at j)) + f x"
proof -
  have "(\<Sum>j<n. f ((at(i := x)) j)) = f x + (\<Sum>j \<in> {..<n} - {i}. f (at j))"
    using assms by (subst sum.remove [of _ i]) (auto intro: sum.cong)
  moreover have "(\<Sum>j<n. f (at j)) = f (at i) + (\<Sum>j \<in> {..<n} - {i}. f (at j))"
    using assms by (subst sum.remove [of _ i]) auto
  ultimately show ?thesis by simp
qed

text \<open>Waking a coroutine does not change what counts its remaining steps.\<close>

definition p_rank :: "nat \<Rightarrow> ('l \<Rightarrow> nat) \<Rightarrow> ('u, 'l) psys \<Rightarrow> nat" where
  "p_rank n f s = (\<Sum>i<n. f (pc_of (p_at s i)))"

lemma pc_of_wake [simp]: "pc_of (p_wake ts at j) = pc_of (at j)"
  by (simp add: p_wake_def)

lemma p_rank_put:
  assumes "i < n"
  shows "p_rank n f (p_put i st r s) + f (pc_of (p_at s i)) = p_rank n f s + f (pc_of st)"
  using sum_move [OF assms, of "\<lambda>x. f (pc_of x)" "p_at s" st] by (simp add: p_rank_def p_put_def)

text \<open>The point a step leads to.\<close>

fun next_pc :: "('u, 'l) action \<Rightarrow> 'l \<Rightarrow> 'l" where
  "next_pc (Do_lock l) k = l"
| "next_pc (Do_wait c l) k = l"
| "next_pc (Do_notify_one l) k = l"
| "next_pc (Do_notify_all l) k = l"
| "next_pc (Do_unlock l) k = l"
| "next_pc (Do u l) k = l"
| "next_pc Do_return k = k"

lemma p_step_pc:
  assumes "p_step code i s = Some s'"
  shows "\<exists>l. p_at s i = Runs l \<and> code i l (p_data s) \<noteq> Do_return \<and>
    pc_of (p_at s' i) = next_pc (code i l (p_data s)) l \<and> (\<forall>j. j \<noteq> i \<longrightarrow> pc_of (p_at s' j) = pc_of (p_at s j))"
proof -
  obtain l where l: "p_at s i = Runs l" using assms by (cases "p_at s i") (auto simp: p_step_def)
  have act: "p_act i (code i l (p_data s)) s = Some s'" using assms l by (simp add: p_step_def)
  then have "pc_of (p_at s' i) = next_pc (code i l (p_data s)) l \<and> (\<forall>j. j \<noteq> i \<longrightarrow> pc_of (p_at s' j) = pc_of (p_at s j))"
    by (cases "code i l (p_data s)") (auto simp: p_put_def split: prod.splits)
  with act l show ?thesis by auto
qed

lemma p_step_data:
  assumes "p_step code i s = Some s'" and "p_at s i = Runs l"
  shows "p_data s' = (case code i l (p_data s) of Do u l' \<Rightarrow> u | _ \<Rightarrow> p_data s)"
  using assms by (cases "code i l (p_data s)") (auto simp: p_step_def p_put_def split: prod.splits)

lemma p_rank_step:
  assumes "p_step code i s = Some s'" and "i < n" and "p_at s i = Runs l"
  shows "p_rank n f s' + f l = p_rank n f s + f (next_pc (code i l (p_data s)) l)"
proof -
  obtain m where m: "p_at s i = Runs m" "pc_of (p_at s' i) = next_pc (code i m (p_data s)) m"
    "\<forall>j. j \<noteq> i \<longrightarrow> pc_of (p_at s' j) = pc_of (p_at s j)" using p_step_pc [OF assms(1)] by blast
  have "(\<lambda>j. pc_of (p_at s' j)) = (\<lambda>j. pc_of (p_at s j))(i := next_pc (code i l (p_data s)) l)"
    using m assms(3) by auto
  then have "p_rank n f s' = (\<Sum>j<n. f (((\<lambda>j. pc_of (p_at s j))(i := next_pc (code i l (p_data s)) l)) j))"
    by (simp add: p_rank_def fun_eq_iff)
  with sum_move [OF assms(2), of f "\<lambda>j. pc_of (p_at s j)" "next_pc (code i l (p_data s)) l"] assms(3)
  show ?thesis by (simp add: p_rank_def)
qed

text \<open>Who waits after a step: those that waited, and the coroutine itself after a lock or a wait.\<close>

lemma p_step_waits:
  assumes "p_step code i s = Some s'" and "p_at s' j = Waits m"
  shows "(j \<noteq> i \<and> p_at s j = Waits m) \<or>
    (j = i \<and> (\<exists>l. p_at s i = Runs l \<and>
      (code i l (p_data s) = Do_lock m \<or> (\<exists>c. code i l (p_data s) = Do_wait c m))))"
proof -
  obtain l where l: "p_at s i = Runs l" using assms by (cases "p_at s i") (auto simp: p_step_def)
  have act: "p_act i (code i l (p_data s)) s = Some s'" using assms(1) l by (simp add: p_step_def)
  have w: "p_wake ts at k = Waits m \<Longrightarrow> at k = Waits m" for ts at k by (simp add: p_wake_def split: if_splits)
  show ?thesis
    using act assms(2) l
    by (cases "code i l (p_data s)") (auto simp: p_put_rec dest!: w split: prod.splits if_splits)
qed

lemma p_step_waits_in:
  assumes "p_step code i s = Some s'" and "\<And>l c m. code i l (p_data s) = Do_lock m \<or> code i l (p_data s) = Do_wait c m \<Longrightarrow> W m"
    and "\<forall>j<n. \<forall>m. p_at s j = Waits m \<longrightarrow> W m"
  shows "\<forall>j<n. \<forall>m. p_at s' j = Waits m \<longrightarrow> W m"
  using p_step_waits [OF assms(1)] assms(2,3) by metis

lemma p_at_other:
  assumes "p_step code i s = Some s'" and "j \<noteq> i" and "p_at s' j = Runs m"
  shows "p_at s j = Runs m \<or> p_at s j = Waits m"
proof -
  have "pc_of (p_at s j) = m" using p_step_pc [OF assms(1)] assms(2,3) by auto
  then show ?thesis by (cases "p_at s j") auto
qed

section \<open>Proving programs correct\<close>

text \<open>
  The proof rule of monitors: \<open>R\<close> holds whenever the mutex is free, \<open>J i\<close> while coroutine \<open>i\<close>
  owns it. Both may speak about the points all coroutines are at. \<open>W\<close> are the points that follow
  a lock or a wait.
\<close>

abbreviation p_points :: "('u, 'l) psys \<Rightarrow> nat \<Rightarrow> 'l" where
  "p_points s \<equiv> \<lambda>j. pc_of (p_at s j)"

definition p_proved ::
    "nat \<Rightarrow> ('l \<Rightarrow> bool) \<Rightarrow> (nat \<Rightarrow> 'l \<Rightarrow> ('u \<Rightarrow> bool) option) \<Rightarrow> ('l \<Rightarrow> bool) \<Rightarrow> ('l \<Rightarrow> bool) \<Rightarrow>
     ((nat \<Rightarrow> 'l) \<Rightarrow> 'u \<Rightarrow> bool) \<Rightarrow> (nat \<Rightarrow> (nat \<Rightarrow> 'l) \<Rightarrow> 'u \<Rightarrow> bool) \<Rightarrow> ('u, 'l) psys \<Rightarrow> bool" where
  "p_proved N holds cond dirty W R J s \<longleftrightarrow>
     p_good N holds cond dirty s \<and>
     (\<forall>i<N. \<forall>m. p_at s i = Waits m \<longrightarrow> W m) \<and>
     (\<forall>i<N. p_in holds (p_at s) i \<longrightarrow> J i (p_points s) (p_data s)) \<and>
     ((\<forall>i<N. \<not> p_in holds (p_at s) i) \<longrightarrow> R (p_points s) (p_data s))"

locale monitor_proof = monitor_program N code holds cond dirty
  for N :: nat and code :: "nat \<Rightarrow> 'l \<Rightarrow> 'u \<Rightarrow> ('u, 'l) action"
    and holds :: "'l \<Rightarrow> bool" and cond :: "nat \<Rightarrow> 'l \<Rightarrow> ('u \<Rightarrow> bool) option" and dirty :: "'l \<Rightarrow> bool" +
  fixes W :: "'l \<Rightarrow> bool" and R :: "(nat \<Rightarrow> 'l) \<Rightarrow> 'u \<Rightarrow> bool" and J :: "nat \<Rightarrow> (nat \<Rightarrow> 'l) \<Rightarrow> 'u \<Rightarrow> bool"
  assumes inside: "code i l u = Do u' l' \<Longrightarrow> holds l"
    and enter: "R P u \<Longrightarrow> i < N \<Longrightarrow> code i (P i) u = Do_lock l' \<Longrightarrow> J i (P(i := l')) u"
    and queue: "J j P u \<Longrightarrow> j < N \<Longrightarrow> i < N \<Longrightarrow> i \<noteq> j \<Longrightarrow> code i (P i) u = Do_lock l' \<Longrightarrow> J j (P(i := l')) u"
    and wait_go: "J i P u \<Longrightarrow> i < N \<Longrightarrow> code i (P i) u = Do_wait c l' \<Longrightarrow> c u \<Longrightarrow> J i (P(i := l')) u"
    and wait_stop: "J i P u \<Longrightarrow> i < N \<Longrightarrow> code i (P i) u = Do_wait c l' \<Longrightarrow> \<not> c u \<Longrightarrow> R (P(i := l')) u"
    and after: "code i l u = Do_lock m \<or> code i l u = Do_wait c m \<Longrightarrow> W m"
    and resume: "R P u \<Longrightarrow> i < N \<Longrightarrow> W (P i) \<Longrightarrow> (\<And>c. cond i (P i) = Some c \<Longrightarrow> c u) \<Longrightarrow> J i P u"
    and notified: "J i P u \<Longrightarrow> i < N \<Longrightarrow> code i (P i) u = Do_notify_one l' \<or> code i (P i) u = Do_notify_all l' \<Longrightarrow>
      J i (P(i := l')) u"
    and leave: "J i P u \<Longrightarrow> i < N \<Longrightarrow> code i (P i) u = Do_unlock l' \<Longrightarrow> R (P(i := l')) u"
    and change: "J i P u \<Longrightarrow> i < N \<Longrightarrow> code i (P i) u = Do u' l' \<Longrightarrow> J i (P(i := l')) u'"
begin

abbreviation proved :: "('u, 'l) psys \<Rightarrow> bool" where
  "proved \<equiv> p_proved N holds cond dirty W R J"

lemma proved_start: "(\<And>i. \<not> holds (f i)) \<Longrightarrow> (\<And>i. cond i (f i) = None) \<Longrightarrow> R f u \<Longrightarrow> proved (p_start f u)"
  using good_start [of f u] by (simp add: p_proved_def p_in_def p_start_def)

lemma proved_owner:
  assumes G: "good s" and w: "\<forall>i<N. \<forall>m. p_at s i = Waits m \<longrightarrow> W m"
    and i: "i < N" "p_in holds (p_at s) i" and J: "J i (p_points s) (p_data s)"
  shows "proved s"
  unfolding p_proved_def using assms goodD(2) [OF G] by metis

lemma proved_free:
  assumes G: "good s" and w: "\<forall>i<N. \<forall>m. p_at s i = Waits m \<longrightarrow> W m"
    and W: "\<And>i. i < N \<Longrightarrow> p_in holds (p_at s) i \<Longrightarrow> W (p_points s i)" and R: "R (p_points s) (p_data s)"
  shows "proved s"
proof -
  have "J i (p_points s) (p_data s)" if i: "i < N" "p_in holds (p_at s) i" for i
  proof (rule resume [OF R i(1) W [OF i]])
    obtain l where l: "p_at s i = Runs l" "holds l" using i(2) by (cases "p_at s i") (auto simp: p_in_def)
    show "c (p_data s)" if "cond i (p_points s i) = Some c" for c using goodD(4) [OF G i(1) l(1)] l that by simp
  qed
  with G R w show ?thesis by (simp add: p_proved_def)
qed

lemma proved_step:
  assumes I: "proved s" and i: "i < N" and step: "p_step code i s = Some s'"
  shows "proved s'"
proof -
  have G: "good s" using I by (simp add: p_proved_def)
  have G': "good s'" by (rule good_step [OF G i step])
  obtain l where l: "p_at s i = Runs l" using p_step_pc [OF step] by blast
  have P: "p_points s' = (p_points s)(i := next_pc (code i l (p_data s)) l)" and Pi: "p_points s i = l"
    using p_step_pc [OF step] l by auto
  note u = p_step_data [OF step l]
  have act: "p_act i (code i l (p_data s)) s = Some s'" using step l by (simp add: p_step_def)
  have w0: "\<forall>j<N. \<forall>m. p_at s j = Waits m \<longrightarrow> W m" using I by (simp add: p_proved_def)
  have w: "\<forall>j<N. \<forall>m. p_at s' j = Waits m \<longrightarrow> W m" by (rule p_step_waits_in [OF step after w0])
  show ?thesis
  proof (cases "holds l")
    case True
    then have own: "p_in holds (p_at s) i" using l by (simp add: p_in_Runs)
    then have J: "J i (p_points s) (p_data s)" using I i by (simp add: p_proved_def)
    have stay: "proved s'" if "p_at s' i = Runs l'" "holds l'" "J i (p_points s') (p_data s')" for l'
      by (rule proved_owner [OF G' w i _ that(3)]) (use that(1,2) in \<open>simp add: p_in_Runs\<close>)
    have woken: "W (p_points s' k)" if k: "k < N" "p_in holds (p_at s') k" and i': "holds (p_points s' i) \<Longrightarrow> W (p_points s' i)" for k
    proof (cases "k = i")
      case k_i: True
      obtain m where "p_at s' i = Runs m" "holds m" using k(2) k_i by (cases "p_at s' i") (auto simp: p_in_def)
      then show ?thesis using i' k_i by simp
    next
      case False
      obtain m where m: "p_at s' k = Runs m" "holds m" using k(2) by (cases "p_at s' k") (auto simp: p_in_def)
      have "p_at s k \<noteq> Runs m" using goodD(2) [OF G k(1) i _ own] False m(2) by (auto simp: p_in_Runs)
      then have "p_at s k = Waits m" using p_at_other [OF step False m(1)] by blast
      then show ?thesis using w0 k(1) m(1) by simp
    qed
    show ?thesis
    proof (cases "code i l (p_data s)")
      case (Do_lock l')
      with lock True show ?thesis by blast
    next
      case (Do_wait c l')
      show ?thesis
      proof (cases "c (p_data s)")
        case c: True
        have "J i (p_points s') (p_data s')" using wait_go [OF J i] c Do_wait Pi P u by simp
        moreover have "p_at s' i = Runs l'" using act Do_wait c by (auto simp: mon_wait_def p_put_def)
        ultimately show ?thesis using stay wait [OF Do_wait] by blast
      next
        case False
        have "R (p_points s') (p_data s')" using wait_stop [OF J i] False Do_wait Pi P u by simp
        moreover have "W (p_points s' i)" using fun_cong [OF P, of i] Do_wait after [of i l "p_data s" l' c] by simp
        ultimately show ?thesis using proved_free [OF G' w] woken by blast
      qed
    next
      case (Do_notify_one l')
      have "J i (p_points s') (p_data s')" using notified [OF J i] Do_notify_one Pi P u by simp
      moreover have "p_at s' i = Runs l'" using act Do_notify_one by (auto simp: p_put_def p_wake_def)
      ultimately show ?thesis using stay notify_one [OF Do_notify_one] by blast
    next
      case (Do_notify_all l')
      have "J i (p_points s') (p_data s')" using notified [OF J i] Do_notify_all Pi P u by simp
      moreover have "p_at s' i = Runs l'" using act Do_notify_all by (auto simp: p_put_def p_wake_def)
      ultimately show ?thesis using stay notify_all [OF Do_notify_all] by blast
    next
      case (Do_unlock l')
      have "R (p_points s') (p_data s')" using leave [OF J i] Do_unlock Pi P u by simp
      moreover have "\<not> holds (p_points s' i)" using fun_cong [OF P, of i] Do_unlock unlock [OF Do_unlock] by simp
      ultimately show ?thesis using proved_free [OF G' w] woken by blast
    next
      case (Do u' l')
      have "J i (p_points s') (p_data s')" using change [OF J i] Do Pi P u by simp
      moreover have "p_at s' i = Runs l'" using act Do by auto
      ultimately show ?thesis using stay access [OF Do] True by blast
    next
      case Do_return
      with act show ?thesis by simp
    qed
  next
    case False
    obtain l' where c: "code i l (p_data s) = Do_lock l'"
      using False wait notify_one notify_all unlock inside act by (cases "code i l (p_data s)") fastforce+
    have P': "p_points s' = (p_points s)(i := l')" and u': "p_data s' = p_data s" using P u c by simp_all
    show ?thesis
    proof (cases "\<exists>j<N. p_in holds (p_at s) j")
      case True
      then obtain j where j: "j < N" "p_in holds (p_at s) j" by blast
      have ne: "i \<noteq> j" using j False l by (auto simp: p_in_Runs)
      have "J j (p_points s) (p_data s)" using I j by (simp add: p_proved_def)
      then have "J j (p_points s') (p_data s')" unfolding P' u' by (rule queue [OF _ j(1) i ne]) (use c Pi in simp)
      moreover have "p_at s' j = p_at s j" using act c ne by (auto simp: p_put_def split: prod.splits)
      then have "p_in holds (p_at s') j" using j(2) by (simp add: p_in_def)
      ultimately show ?thesis by (intro proved_owner [OF G' w j(1)])
    next
      case free: False
      then have "R (p_points s) (p_data s)" using I by (simp add: p_proved_def)
      then have "J i (p_points s') (p_data s')" unfolding P' u' by (rule enter [OF _ i]) (use c Pi in simp)
      moreover obtain cs where "p_mon s = (None, cs)" using goodD(3) [OF G] free by (cases "p_mon s") auto
      then have "p_at s' i = Runs l'" using act c by (auto simp: p_put_def)
      then have "p_in holds (p_at s') i" using lock [OF c] by (simp add: p_in_Runs)
      ultimately show ?thesis by (intro proved_owner [OF G' w i])
    qed
  qed
qed

text \<open>When nothing can move the mutex is free.\<close>

lemma proved_stuck:
  assumes I: "proved s" and no: "\<forall>i<N. p_step code i s = None"
  shows "R (p_points s) (p_data s)"
proof -
  have G: "good s" using I by (simp add: p_proved_def)
  have "\<not> p_in holds (p_at s) i" if i: "i < N" for i
    using stuck [OF G no i] return by (auto simp: p_in_def)
  with I show ?thesis by (simp add: p_proved_def)
qed

end

text \<open>With a count of the steps left at each point the program ends.\<close>

locale ranked_proof = monitor_proof N code holds cond dirty W R J
  for N :: nat and code :: "nat \<Rightarrow> 'l \<Rightarrow> 'u \<Rightarrow> ('u, 'l) action"
    and holds :: "'l \<Rightarrow> bool" and cond :: "nat \<Rightarrow> 'l \<Rightarrow> ('u \<Rightarrow> bool) option" and dirty :: "'l \<Rightarrow> bool"
    and W :: "'l \<Rightarrow> bool" and R :: "(nat \<Rightarrow> 'l) \<Rightarrow> 'u \<Rightarrow> bool" and J :: "nat \<Rightarrow> (nat \<Rightarrow> 'l) \<Rightarrow> 'u \<Rightarrow> bool" +
  fixes rem :: "'l \<Rightarrow> nat"
  assumes rem_lock: "code i l u = Do_lock l' \<Longrightarrow> rem l' < rem l"
    and rem_owner: "J i P u \<Longrightarrow> i < N \<Longrightarrow> code i (P i) u \<noteq> Do_return \<Longrightarrow> (\<And>l'. code i (P i) u \<noteq> Do_lock l') \<Longrightarrow>
      rem (next_pc (code i (P i) u) (P i)) < rem (P i)"
begin

lemma rank_step:
  assumes I: "proved s" and i: "i < N" and step: "p_step code i s = Some s'"
  shows "p_rank N rem s' < p_rank N rem s"
proof -
  obtain l where l: "p_at s i = Runs l" and nr: "code i l (p_data s) \<noteq> Do_return"
    using p_step_pc [OF step] by blast
  have "rem (next_pc (code i l (p_data s)) l) < rem l"
  proof (cases "\<exists>l'. code i l (p_data s) = Do_lock l'")
    case True
    with rem_lock show ?thesis by auto
  next
    case False
    then have "holds l" using nr wait notify_one notify_all unlock inside by (cases "code i l (p_data s)") fastforce+
    then have "J i (p_points s) (p_data s)" using I i l by (simp add: p_proved_def p_in_Runs)
    from rem_owner [OF this i] nr False l show ?thesis by simp
  qed
  with p_rank_step [OF step i l, of rem] show ?thesis by simp
qed

end

sublocale ranked_proof \<subseteq> steps: ranked_program N "p_step code" proved "p_rank N rem"
  by unfold_locales (rule proved_step rank_step; assumption)+

context ranked_proof
begin

lemma complete_run:
  assumes "p_run (p_step code) is s0 = Some s" and "set is \<subseteq> {..<N}" and "proved s0"
  shows "length is \<le> p_rank N rem s0"
    and "\<forall>i<N. p_step code i s = None \<Longrightarrow> R (p_points s) (p_data s)"
    and "\<forall>i<N. p_step code i s = None \<Longrightarrow> i < N \<Longrightarrow>
      (\<exists>l. p_at s i = Runs l \<and> code i l (p_data s) = Do_return) \<or>
      (\<exists>l c. p_at s i = Waits l \<and> cond i l = Some c \<and> \<not> c (p_data s))"
proof -
  note r = steps.run [OF assms]
  then show "length is \<le> p_rank N rem s0" by simp
  have I: "proved s" using r by simp
  show "\<forall>i<N. p_step code i s = None \<Longrightarrow> R (p_points s) (p_data s)" by (rule proved_stuck [OF I])
  have G: "good s" using I by (simp add: p_proved_def)
  show "\<forall>i<N. p_step code i s = None \<Longrightarrow> i < N \<Longrightarrow>
      (\<exists>l. p_at s i = Runs l \<and> code i l (p_data s) = Do_return) \<or>
      (\<exists>l c. p_at s i = Waits l \<and> cond i l = Some c \<and> \<not> c (p_data s))"
    by (rule stuck [OF G])
qed

end

end
