(* ===== verification/Std_System.thy ===== *)
theory Std_System
  imports Programs
begin

text \<open>
  Threads that share a \<open>std::mutex\<close>, a \<open>std::condition_variable\<close> and data: the base lines the
  benchmarks measure the library against, and the coroutines that block their worker in them.
  Bodies are written with the actions of Programs.
\<close>

section \<open>Systems of threads\<close>

text \<open>
  A thread is at a point of its body, asleep in the condition variable, or about to take the mutex
  again. \<open>cv.wait(lck, pred)\<close> is \<open>while (!pred()) cv.wait(lck)\<close>: a thread that has the mutex
  again is back at the point of its wait.
\<close>

datatype 'l std_status = On (std_pc: 'l) | Sleeps (std_pc: 'l) | Relocks (std_pc: 'l)

record ('u, 'l) std_sys =
  s_own :: "nat option"
  s_at :: "nat \<Rightarrow> 'l std_status"
  s_data :: 'u

text \<open>
  \<open>Go i j\<close> is a step of thread \<open>i\<close>; when it is a \<open>notify_one\<close> and threads are asleep, it wakes
  \<open>j\<close>. \<open>Spurious i\<close> is a spurious wake-up of \<open>i\<close>. A step is not possible, or has undefined
  behaviour (taking a mutex twice, or giving up or waiting with one that is not owned), or leads to
  a state.
\<close>

datatype std_event = Go nat nat | Spurious nat

datatype 's outcome = Blocked | Undefined | Next 's

definition std_start :: "(nat \<Rightarrow> 'l) \<Rightarrow> 'u \<Rightarrow> ('u, 'l) std_sys" where
  "std_start f u = \<lparr>s_own = None, s_at = (\<lambda>i. On (f i)), s_data = u\<rparr>"

fun std_wake :: "'l std_status \<Rightarrow> 'l std_status" where
  "std_wake (Sleeps l) = Relocks l"
| "std_wake (Relocks l) = Relocks l"
| "std_wake (On l) = On l"

fun std_sleeps :: "'l std_status \<Rightarrow> bool" where
  "std_sleeps (Sleeps l) \<longleftrightarrow> True"
| "std_sleeps (Relocks l) \<longleftrightarrow> False"
| "std_sleeps (On l) \<longleftrightarrow> False"

fun std_act ::
    "nat \<Rightarrow> nat \<Rightarrow> nat \<Rightarrow> 'l \<Rightarrow> ('u, 'l) action \<Rightarrow> ('u, 'l) std_sys \<Rightarrow> ('u, 'l) std_sys outcome" where
  "std_act N i j l (Do_lock l') s =
     (if s_own s = None then Next (s\<lparr>s_own := Some i, s_at := (s_at s)(i := On l')\<rparr>)
      else if s_own s = Some i then Undefined else Blocked)"
| "std_act N i j l (Do_wait c l') s =
     (if s_own s \<noteq> Some i then Undefined
      else if c (s_data s) then Next (s\<lparr>s_at := (s_at s)(i := On l')\<rparr>)
      else Next (s\<lparr>s_own := None, s_at := (s_at s)(i := Sleeps l)\<rparr>))"
| "std_act N i j l (Do_notify_one l') s =
     (if std_sleeps (s_at s j) then Next (s\<lparr>s_at := (s_at s)(i := On l', j := std_wake (s_at s j))\<rparr>)
      else if \<exists>k<N. std_sleeps (s_at s k) then Blocked
      else Next (s\<lparr>s_at := (s_at s)(i := On l')\<rparr>))"
| "std_act N i j l (Do_notify_all l') s = Next (s\<lparr>s_at := (\<lambda>k. std_wake (((s_at s)(i := On l')) k))\<rparr>)"
| "std_act N i j l (Do_unlock l') s =
     (if s_own s = Some i then Next (s\<lparr>s_own := None, s_at := (s_at s)(i := On l')\<rparr>) else Undefined)"
| "std_act N i j l (Do u l') s = Next (s\<lparr>s_at := (s_at s)(i := On l'), s_data := u\<rparr>)"
| "std_act N i j l Do_return s = Blocked"

fun std_step ::
    "nat \<Rightarrow> (nat \<Rightarrow> 'l \<Rightarrow> 'u \<Rightarrow> ('u, 'l) action) \<Rightarrow> std_event \<Rightarrow> ('u, 'l) std_sys \<Rightarrow>
     ('u, 'l) std_sys outcome" where
  "std_step N code (Go i j) s =
     (case s_at s i of
        On l \<Rightarrow> std_act N i j l (code i l (s_data s)) s
      | Sleeps l \<Rightarrow> Blocked
      | Relocks l \<Rightarrow>
          if s_own s = None then Next (s\<lparr>s_own := Some i, s_at := (s_at s)(i := On l)\<rparr>) else Blocked)"
| "std_step N code (Spurious i) s =
     (if std_sleeps (s_at s i) then Next (s\<lparr>s_at := (s_at s)(i := std_wake (s_at s i))\<rparr>) else Blocked)"

fun std_run ::
    "nat \<Rightarrow> (nat \<Rightarrow> 'l \<Rightarrow> 'u \<Rightarrow> ('u, 'l) action) \<Rightarrow> std_event list \<Rightarrow> ('u, 'l) std_sys \<Rightarrow>
     ('u, 'l) std_sys outcome" where
  "std_run N code [] s = Next s"
| "std_run N code (e # es) s =
     (case std_step N code e s of Blocked \<Rightarrow> Blocked | Undefined \<Rightarrow> Undefined | Next s1 \<Rightarrow> std_run N code es s1)"

text \<open>A schedule of the first \<open>N\<close> threads, how many spurious wake-ups it has, and when none can move.\<close>

fun std_of :: "nat \<Rightarrow> std_event \<Rightarrow> bool" where
  "std_of N (Go i j) \<longleftrightarrow> i < N \<and> j < N"
| "std_of N (Spurious i) \<longleftrightarrow> i < N"

fun std_spurious :: "std_event list \<Rightarrow> nat" where
  "std_spurious [] = 0"
| "std_spurious (Go i j # es) = std_spurious es"
| "std_spurious (Spurious i # es) = Suc (std_spurious es)"

definition std_halted ::
    "nat \<Rightarrow> (nat \<Rightarrow> 'l \<Rightarrow> 'u \<Rightarrow> ('u, 'l) action) \<Rightarrow> ('u, 'l) std_sys \<Rightarrow> bool" where
  "std_halted N code s \<longleftrightarrow> (\<forall>i<N. \<forall>j<N. std_step N code (Go i j) s = Blocked)"

section \<open>Programs that keep the discipline\<close>

definition std_in :: "('l \<Rightarrow> bool) \<Rightarrow> 'l std_status \<Rightarrow> bool" where
  "std_in P st = (case st of On l \<Rightarrow> P l | Sleeps l \<Rightarrow> False | Relocks l \<Rightarrow> False)"

lemma std_in_simps [simp]:
  "std_in P (On l) = P l" "\<not> std_in P (Sleeps l)" "\<not> std_in P (Relocks l)" "std_in P (std_wake st) = std_in P st"
  by (cases st; simp add: std_in_def)+

lemma std_wake_simps [simp]:
  "std_pc (std_wake st) = std_pc st" "\<not> std_sleeps (std_wake st)" "std_wake st \<noteq> Sleeps l" "Sleeps l \<noteq> std_wake st"
  "std_wake st = On l \<longleftrightarrow> st = On l"
  by (cases st; simp)+

text \<open>What the next step does to the data.\<close>

fun next_data :: "('u, 'l) action \<Rightarrow> 'u \<Rightarrow> 'u" where
  "next_data (Do u' l) u = u'"
| "next_data (Do_lock l) u = u"
| "next_data (Do_wait c l) u = u"
| "next_data (Do_notify_one l) u = u"
| "next_data (Do_notify_all l) u = u"
| "next_data (Do_unlock l) u = u"
| "next_data Do_return u = u"

text \<open>A step that goes on: a wait whose condition holds, an unlock inside the critical section.\<close>

fun std_goes :: "('l \<Rightarrow> bool) \<Rightarrow> 'l \<Rightarrow> ('u, 'l) action \<Rightarrow> 'u \<Rightarrow> bool" where
  "std_goes holds l (Do_wait c l') u \<longleftrightarrow> c u"
| "std_goes holds l (Do_unlock l') u \<longleftrightarrow> holds l"
| "std_goes holds l Do_return u \<longleftrightarrow> False"
| "std_goes holds l (Do_lock l') u \<longleftrightarrow> True"
| "std_goes holds l (Do_notify_one l') u \<longleftrightarrow> True"
| "std_goes holds l (Do_notify_all l') u \<longleftrightarrow> True"
| "std_goes holds l (Do u' l') u \<longleftrightarrow> True"

text \<open>
  What a thread may still do before it is asleep or past its next step, and what is saved by it.
\<close>

fun std_cost :: "'l std_status \<Rightarrow> nat" where
  "std_cost (On l) = 2"
| "std_cost (Sleeps l) = 0"
| "std_cost (Relocks l) = 3"

lemma std_cost_le: "std_cost st \<le> 3" "std_cost (std_wake st) \<le> std_cost st + 3"
  by (cases st; simp)+

text \<open>
  \<open>holds\<close> are the points with the mutex, \<open>dirty\<close> those between a change that may make a condition
  true and its notification, \<open>I\<close> is an invariant of the points of the threads and the data, \<open>rk\<close> a
  count of what is left to do.
\<close>

locale std_program =
  fixes N :: nat and code :: "nat \<Rightarrow> 'l \<Rightarrow> 'u \<Rightarrow> ('u, 'l) action"
    and holds :: "'l \<Rightarrow> bool" and dirty :: "'l \<Rightarrow> bool"
    and I :: "(nat \<Rightarrow> 'l) \<Rightarrow> 'u \<Rightarrow> bool" and rk :: "(nat \<Rightarrow> 'l) \<Rightarrow> 'u \<Rightarrow> nat"
  assumes dirty_inside: "dirty l \<Longrightarrow> holds l"
    and lock: "code i l u = Do_lock l' \<Longrightarrow> \<not> holds l \<and> holds l'"
    and wait: "code i l u = Do_wait c l' \<Longrightarrow> holds l \<and> holds l' \<and> \<not> dirty l \<and> code i l v = Do_wait c l'"
    and notify_one: "code i l u = Do_notify_one l' \<Longrightarrow> N \<le> 2 \<and> holds l \<and> holds l'"
    and notify_all: "code i l u = Do_notify_all l' \<Longrightarrow> holds l \<and> holds l'"
    and unlock: "code i l u = Do_unlock l' \<Longrightarrow> \<not> holds l' \<and> \<not> dirty l"
    and access: "code i l u = Do u' l' \<Longrightarrow> holds l' = holds l \<and> (u' \<noteq> u \<longrightarrow> holds l) \<and>
      (dirty l \<or> (\<exists>j k c m. code j k u = Do_wait c m \<and> c u' \<and> \<not> c u) \<longrightarrow> dirty l')"
    and return: "code i l u = Do_return \<Longrightarrow> \<not> holds l"
    and go: "I P u \<Longrightarrow> i < N \<Longrightarrow> std_goes holds (P i) (code i (P i) u) u \<Longrightarrow>
      I (P(i := next_pc (code i (P i) u) (P i))) (next_data (code i (P i) u) u) \<and>
      rk (P(i := next_pc (code i (P i) u) (P i))) (next_data (code i (P i) u) u) < rk P u"
begin

definition points :: "('u, 'l) std_sys \<Rightarrow> nat \<Rightarrow> 'l" where
  "points s i = std_pc (s_at s i)"

definition good :: "('u, 'l) std_sys \<Rightarrow> bool" where
  "good s \<longleftrightarrow>
     (\<forall>i<N. s_own s = Some i \<longleftrightarrow> std_in holds (s_at s i)) \<and>
     (\<forall>i. s_own s = Some i \<longrightarrow> i < N) \<and>
     (\<forall>i<N. \<forall>l. s_at s i = Sleeps l \<or> s_at s i = Relocks l \<longrightarrow> (\<exists>c m. \<forall>u. code i l u = Do_wait c m)) \<and>
     ((\<exists>i<N. std_in dirty (s_at s i)) \<or>
      (\<forall>i<N. \<forall>l c m. s_at s i = Sleeps l \<and> code i l (s_data s) = Do_wait c m \<longrightarrow> \<not> c (s_data s))) \<and>
     I (points s) (s_data s)"

lemma good_start: "(\<And>i. \<not> holds (f i)) \<Longrightarrow> I f u \<Longrightarrow> good (std_start f u)"
  unfolding good_def std_start_def by (simp add: points_def [abs_def])

lemma goodD:
  assumes "good s"
  shows "\<And>i. i < N \<Longrightarrow> s_own s = Some i \<longleftrightarrow> std_in holds (s_at s i)"
    and "\<And>i. s_own s = Some i \<Longrightarrow> i < N"
    and "\<And>i l. i < N \<Longrightarrow> s_at s i = Sleeps l \<or> s_at s i = Relocks l \<Longrightarrow> \<exists>c m. \<forall>u. code i l u = Do_wait c m"
    and "(\<exists>i<N. std_in dirty (s_at s i)) \<or>
      (\<forall>i<N. \<forall>l c m. s_at s i = Sleeps l \<and> code i l (s_data s) = Do_wait c m \<longrightarrow> \<not> c (s_data s))"
    and "I (points s) (s_data s)"
  using assms unfolding good_def by blast+

lemma dirty_owner: "good s \<Longrightarrow> i < N \<Longrightarrow> std_in dirty (s_at s i) \<Longrightarrow> s_own s = Some i"
  using goodD(1) dirty_inside by (cases "s_at s i") auto

text \<open>When no thread can move, each has returned or is asleep and its condition is false.\<close>

lemma halted:
  assumes G: "good s" and no: "std_halted N code s" and i: "i < N"
  shows "(\<exists>l. s_at s i = On l \<and> code i l (s_data s) = Do_return) \<or>
    (\<exists>l c m. s_at s i = Sleeps l \<and> code i l (s_data s) = Do_wait c m \<and> \<not> c (s_data s))"
proof -
  have stop: "std_step N code (Go k j) s = Blocked" if "k < N" "j < N" for k j
    using no that by (simp add: std_halted_def)
  have act: "code k l (s_data s) = Do_return \<or> (\<exists>l'. code k l (s_data s) = Do_lock l' \<and> s_own s \<noteq> None)"
    if k: "k < N" "s_at s k = On l" for k l
  proof (cases "code k l (s_data s)")
    case (Do_notify_one l')
    obtain j where j: "j < N" "std_sleeps (s_at s j) \<or> \<not> (\<exists>m<N. std_sleeps (s_at s m))" using k(1) by blast
    have "std_step N code (Go k j) s \<noteq> Blocked" using j Do_notify_one k(2) by auto
    with stop k(1) j(1) show ?thesis by blast
  qed (use stop [OF k(1) k(1)] k(2) in \<open>auto split: if_splits\<close>)
  have free: "s_own s = None"
  proof (cases "s_own s")
    case (Some k)
    then have k: "k < N" "std_in holds (s_at s k)" using goodD(1,2) [OF G] by auto
    then obtain l where l: "s_at s k = On l" "holds l" by (cases "s_at s k") auto
    from act [OF k(1) l(1)] l(2) return lock show ?thesis by blast
  qed
  show ?thesis
  proof (cases "s_at s i")
    case (On l)
    with act [OF i] free show ?thesis by auto
  next
    case (Sleeps l)
    then obtain c m where c: "\<forall>u. code i l u = Do_wait c m" using goodD(3) [OF G i] by blast
    have "\<not> (\<exists>k<N. std_in dirty (s_at s k))" using dirty_owner [OF G] free by auto
    with goodD(4) [OF G] c Sleeps i show ?thesis by blast
  next
    case (Relocks l)
    with stop [OF i i] free show ?thesis by auto
  qed
qed

text \<open>A step of thread \<open>i\<close> that wakes some of the others.\<close>

lemma good_move:
  assumes G: "good s" and i: "i < N"
    and own: "own = Some i \<longleftrightarrow> std_in holds (at i)" "own = Some i \<or> own = s_own s \<or> own = None \<and> s_own s = Some i"
      "own = Some i \<Longrightarrow> s_own s = Some i \<or> s_own s = None"
    and rest: "\<And>k. k \<noteq> i \<Longrightarrow> at k = s_at s k \<or> at k = std_wake (s_at s k)"
    and mine: "\<And>l. at i = Sleeps l \<or> at i = Relocks l \<Longrightarrow> \<exists>c m. \<forall>u. code i l u = Do_wait c m"
    and clean: "(\<exists>k<N. std_in dirty (at k)) \<or>
      (\<forall>k<N. \<forall>l c m. at k = Sleeps l \<and> code k l u = Do_wait c m \<longrightarrow> \<not> c u)"
    and inv: "I (\<lambda>k. std_pc (at k)) u"
  shows "good \<lparr>s_own = own, s_at = at, s_data = u\<rparr>"
proof -
  note g = goodD [OF G]
  have same: "std_in P (at k) = std_in P (s_at s k)" if "k \<noteq> i" for k P using rest [OF that] by auto
  have "own = Some k \<longleftrightarrow> std_in holds (at k)" if k: "k < N" for k
  proof (cases "k = i")
    case True
    with own(1) show ?thesis by simp
  next
    case False
    have "own = Some k \<longleftrightarrow> s_own s = Some k" using own(2,3) False by auto
    with same [OF False] g(1) [OF k] show ?thesis by simp
  qed
  moreover have "k < N" if "own = Some k" for k using that own(2) g(2) i by auto
  moreover have "\<exists>c m. \<forall>u. code k l u = Do_wait c m" if "k < N" "at k = Sleeps l \<or> at k = Relocks l" for k l
  proof (cases "k = i")
    case True
    with mine that show ?thesis by simp
  next
    case False
    from rest [OF this] that have "s_at s k = Sleeps l \<or> s_at s k = Relocks l"
      by (cases "s_at s k") auto
    with g(3) that show ?thesis by blast
  qed
  ultimately show ?thesis using clean inv unfolding good_def by (simp add: points_def [abs_def])
qed

definition potential :: "('u, 'l) std_sys \<Rightarrow> nat" where
  "potential s = rk (points s) (s_data s) * (3 * N + 1) + (\<Sum>k<N. std_cost (s_at s k))"

lemma clean_keep:
  assumes G: "good s" and d: "\<And>k. std_in dirty (s_at s k) \<Longrightarrow> std_in dirty (at k)"
    and sl: "\<And>k m. at k = Sleeps m \<Longrightarrow> s_at s k = Sleeps m"
    and w: "\<And>k m c n. code k m u = Do_wait c n \<Longrightarrow> code k m (s_data s) = Do_wait c n \<and> (c u \<longrightarrow> c (s_data s))"
  shows "(\<exists>k<N. std_in dirty (at k)) \<or>
    (\<forall>k<N. \<forall>l c m. at k = Sleeps l \<and> code k l u = Do_wait c m \<longrightarrow> \<not> c u)"
  using goodD(4) [OF G]
proof
  assume "\<exists>k<N. std_in dirty (s_at s k)"
  with d show ?thesis by blast
next
  assume a: "\<forall>k<N. \<forall>l c m. s_at s k = Sleeps l \<and> code k l (s_data s) = Do_wait c m \<longrightarrow> \<not> c (s_data s)"
  have "\<not> c u" if k: "k < N" "at k = Sleeps l" and c: "code k l u = Do_wait c m" for k l c m
    using a k(1) sl [OF k(2)] w [OF c] by blast
  then show ?thesis by blast
qed

lemma clean_move:
  assumes G: "good s" and i: "i < N" "s_at s i = On l" "\<not> dirty l"
    and rest: "\<And>k. k \<noteq> i \<Longrightarrow> at k = s_at s k \<or> at k = std_wake (s_at s k)" and mine: "\<not> std_sleeps (at i)"
    and w: "\<And>k m c n. code k m u = Do_wait c n \<Longrightarrow> code k m (s_data s) = Do_wait c n \<and> (c u \<longrightarrow> c (s_data s))"
  shows "(\<exists>k<N. std_in dirty (at k)) \<or>
    (\<forall>k<N. \<forall>l c m. at k = Sleeps l \<and> code k l u = Do_wait c m \<longrightarrow> \<not> c u)"
proof (rule clean_keep [OF G _ _ w])
  show "std_in dirty (at k)" if "std_in dirty (s_at s k)" for k
    using rest [of k] that i(2,3) by (cases "k = i") auto
  show "s_at s k = Sleeps m" if "at k = Sleeps m" for k m
    using rest [of k] that mine by (cases "k = i") auto
qed

lemma potential_go:
  assumes G: "good s" and i: "i < N" "s_at s i = On l" and go': "std_goes holds l (code i l (s_data s)) (s_data s)"
    and s': "\<And>k. k \<noteq> i \<Longrightarrow> s_at s' k = s_at s k \<or> s_at s' k = std_wake (s_at s k)"
      "s_at s' i = On (next_pc (code i l (s_data s)) l)" "s_data s' = next_data (code i l (s_data s)) (s_data s)"
  shows "I (\<lambda>k. std_pc (s_at s' k)) (s_data s') \<and> potential s' < potential s"
proof -
  have P: "points s' = (points s)(i := next_pc (code i l (s_data s)) l)"
    using s'(1,2) by (fastforce simp: points_def)
  have l: "points s i = l" using i(2) by (simp add: points_def)
  note g = go [OF goodD(5) [OF G] i(1), unfolded l, OF go', folded P s'(3)]
  have "std_cost (s_at s' k) \<le> std_cost (s_at s k) + 3" for k
    using s'(1) [of k] s'(2) i(2) std_cost_le(2) by (cases "k = i") auto
  then have "(\<Sum>k<N. std_cost (s_at s' k)) \<le> (\<Sum>k<N. std_cost (s_at s k) + 3)" by (rule sum_mono)
  also have "\<dots> = (\<Sum>k<N. std_cost (s_at s k)) + 3 * N" by (simp add: sum.distrib)
  finally have c: "(\<Sum>k<N. std_cost (s_at s' k)) \<le> (\<Sum>k<N. std_cost (s_at s k)) + 3 * N" .
  have "Suc (rk (points s') (s_data s')) * (3 * N + 1) \<le> rk (points s) (s_data s) * (3 * N + 1)"
    using g by (intro mult_le_mono1) simp
  then have "potential s' < potential s" using c by (simp add: potential_def)
  with g show ?thesis by (simp add: points_def [abs_def])
qed

text \<open>A thread that changes its status only.\<close>

lemma potential_put:
  assumes "i < N" and "s_at s' = (s_at s)(i := st)" "std_pc st = std_pc (s_at s i)" "s_data s' = s_data s"
  shows "I (\<lambda>k. std_pc (s_at s' k)) (s_data s') = I (points s) (s_data s)"
    and "potential s' + std_cost (s_at s i) = potential s + std_cost st"
proof -
  have P: "points s' = points s" using assms(2,3) by (auto simp: points_def)
  then show "I (\<lambda>k. std_pc (s_at s' k)) (s_data s') = I (points s) (s_data s)"
    using assms(4) by (simp add: points_def [abs_def])
  show "potential s' + std_cost (s_at s i) = potential s + std_cost st"
    using sum_move [OF assms(1), of std_cost "s_at s" st] assms(2,4) P by (simp add: potential_def)
qed

lemma good_go:
  assumes G: "good s" and i: "i < N" "s_at s i = On l" and j: "j < N"
    and step: "std_act N i j l (code i l (s_data s)) s = Next s'"
  shows "good s' \<and> potential s' < potential s"
proof -
  note g = goodD [OF G]
  have own: "s_own s = Some i \<longleftrightarrow> holds l" using g(1) [OF i(1)] i(2) by simp
  have rec: "\<lparr>s_own = s_own s', s_at = s_at s', s_data = s_data s'\<rparr> = s'" by simp
  show ?thesis
  proof (cases "code i l (s_data s)")
    case (Do_lock l')
    have s': "s_own s = None" "s' = s\<lparr>s_own := Some i, s_at := (s_at s)(i := On l')\<rparr>"
      using step Do_lock by (auto split: if_splits)
    have nd: "\<not> dirty l" using own s'(1) dirty_inside by auto
    have p: "I (\<lambda>k. std_pc (s_at s' k)) (s_data s') \<and> potential s' < potential s"
      by (rule potential_go [OF G i]) (use s' i(2) Do_lock in auto)
    have "good \<lparr>s_own = s_own s', s_at = s_at s', s_data = s_data s'\<rparr>"
      by (rule good_move [OF G i(1)]) (use s' lock [OF Do_lock] p clean_move [OF G i nd, of "s_at s'" "s_data s"] in auto)
    with p show ?thesis unfolding rec by blast
  next
    case (Do_wait c l')
    note w = wait [OF Do_wait]
    have o: "s_own s = Some i" using own w by simp
    show ?thesis
    proof (cases "c (s_data s)")
      case True
      have s': "s' = s\<lparr>s_at := (s_at s)(i := On l')\<rparr>" using step Do_wait o True by simp
      have p: "I (\<lambda>k. std_pc (s_at s' k)) (s_data s') \<and> potential s' < potential s"
        by (rule potential_go [OF G i]) (use s' i(2) Do_wait True in auto)
      have "good \<lparr>s_own = s_own s', s_at = s_at s', s_data = s_data s'\<rparr>"
        by (rule good_move [OF G i(1)]) (use s' w o p clean_move [OF G i, of "s_at s'" "s_data s"] in auto)
      with p show ?thesis unfolding rec by blast
    next
      case False
      have s': "s' = s\<lparr>s_own := None, s_at := (s_at s)(i := Sleeps l)\<rparr>" using step Do_wait o False by simp
      have p: "I (\<lambda>k. std_pc (s_at s' k)) (s_data s') = I (points s) (s_data s)"
        "potential s' + std_cost (s_at s i) = potential s + std_cost (Sleeps l)"
        using potential_put [OF i(1), of s' s "Sleeps l"] s' i(2) by simp_all
      then have pot: "potential s' < potential s" using i(2) by simp
      have "\<not> std_in dirty (s_at s k)" if "k < N" for k
        using dirty_owner [OF G that] o w i(2) by (cases "k = i") auto
      then have cl: "\<not> c (s_data s)" if "k < N" "s_at s k = Sleeps m" "code k m (s_data s) = Do_wait c n" for k m n c
        using g(4) that by blast
      have "\<not> d (s_data s')" if "k < N" "s_at s' k = Sleeps m" "code k m (s_data s') = Do_wait d n" for k m n d
        using that s' Do_wait False cl [of k m d n] by (cases "k = i") auto
      then have clean: "(\<exists>k<N. std_in dirty (s_at s' k)) \<or>
          (\<forall>k<N. \<forall>m d n. s_at s' k = Sleeps m \<and> code k m (s_data s') = Do_wait d n \<longrightarrow> \<not> d (s_data s'))"
        by blast
      have "good \<lparr>s_own = s_own s', s_at = s_at s', s_data = s_data s'\<rparr>"
        by (rule good_move [OF G i(1) _ _ _ _ _ clean]) (use s' w o p g(5) in auto)
      with pot show ?thesis unfolding rec by blast
    qed
  next
    case (Do_notify_one l')
    note n = notify_one [OF Do_notify_one]
    have o: "s_own s = Some i" using own n by simp
    have s': "s_own s' = s_own s" "s_data s' = s_data s" "s_at s' i = On l'"
      "\<And>k. k \<noteq> i \<Longrightarrow> s_at s' k = s_at s k \<or> s_at s' k = std_wake (s_at s k)"
      using step Do_notify_one i(2) by (auto split: if_splits)
    have none: "\<not> std_sleeps (s_at s' k)" if k: "k < N" for k
    proof (cases "k = i \<or> k = j")
      case True
      with step Do_notify_one s'(3) k show ?thesis by (auto split: if_splits)
    next
      case False
      with k i(1) j n have "i = j" by arith
      with step Do_notify_one i(2) k False show ?thesis by (auto split: if_splits)
    qed
    have p: "I (\<lambda>k. std_pc (s_at s' k)) (s_data s') \<and> potential s' < potential s"
      by (rule potential_go [OF G i]) (use s' Do_notify_one in auto)
    have "good \<lparr>s_own = s_own s', s_at = s_at s', s_data = s_data s'\<rparr>"
      by (rule good_move [OF G i(1)]) (use s' n o p none std_sleeps.simps(1) in \<open>auto, metis\<close>)
    with p show ?thesis unfolding rec by blast
  next
    case (Do_notify_all l')
    note n = notify_all [OF Do_notify_all]
    have o: "s_own s = Some i" using own n by simp
    have s': "s' = s\<lparr>s_at := (\<lambda>k. std_wake (((s_at s)(i := On l')) k))\<rparr>" using step Do_notify_all by simp
    have p: "I (\<lambda>k. std_pc (s_at s' k)) (s_data s') \<and> potential s' < potential s"
      by (rule potential_go [OF G i]) (use s' i(2) Do_notify_all in auto)
    have "good \<lparr>s_own = s_own s', s_at = s_at s', s_data = s_data s'\<rparr>"
      by (rule good_move [OF G i(1)]) (use s' n o p in auto)
    with p show ?thesis unfolding rec by blast
  next
    case (Do_unlock l')
    note u = unlock [OF Do_unlock]
    have o: "s_own s = Some i" and s': "s' = s\<lparr>s_own := None, s_at := (s_at s)(i := On l')\<rparr>"
      using step Do_unlock by (auto split: if_splits)
    have h: "holds l" using own o by simp
    have p: "I (\<lambda>k. std_pc (s_at s' k)) (s_data s') \<and> potential s' < potential s"
      by (rule potential_go [OF G i]) (use s' i(2) Do_unlock h in auto)
    have "good \<lparr>s_own = s_own s', s_at = s_at s', s_data = s_data s'\<rparr>"
      by (rule good_move [OF G i(1)]) (use s' u o p clean_move [OF G i, of "s_at s'" "s_data s"] in auto)
    with p show ?thesis unfolding rec by blast
  next
    case (Do u' l')
    note a = access [OF Do]
    have s': "s' = s\<lparr>s_at := (s_at s)(i := On l'), s_data := u'\<rparr>" using step Do by simp
    have p: "I (\<lambda>k. std_pc (s_at s' k)) (s_data s') \<and> potential s' < potential s"
      by (rule potential_go [OF G i]) (use s' i(2) Do in auto)
    have clean: "(\<exists>k<N. std_in dirty (s_at s' k)) \<or>
        (\<forall>k<N. \<forall>m c n. s_at s' k = Sleeps m \<and> code k m (s_data s') = Do_wait c n \<longrightarrow> \<not> c (s_data s'))"
    proof (cases "dirty l'")
      case True
      with i(1) s' show ?thesis by auto
    next
      case False
      then have nd: "\<not> dirty l" and keep: "\<And>k m c n. code k m (s_data s) = Do_wait c n \<Longrightarrow> c u' \<Longrightarrow> c (s_data s)"
        using a by blast+
      have w: "code k m (s_data s) = Do_wait c n \<and> (c (s_data s') \<longrightarrow> c (s_data s))"
        if "code k m (s_data s') = Do_wait c n" for k m c n
        using wait [OF that, of "s_data s"] keep [of k m c n] s' by simp
      show ?thesis by (rule clean_move [OF G i nd _ _ w]) (use s' in auto)
    qed
    have "good \<lparr>s_own = s_own s', s_at = s_at s', s_data = s_data s'\<rparr>"
      by (rule good_move [OF G i(1)]) (use s' a own p clean in auto)
    with p show ?thesis unfolding rec by blast
  next
    case Do_return
    with step show ?thesis by simp
  qed
qed

lemma good_step:
  assumes G: "good s" and e: "std_of N e" and step: "std_step N code e s = Next s'"
  shows "good s' \<and> potential s' + 1 \<le> potential s + 4 * std_spurious [e]"
proof (cases e)
  case (Go i j)
  have i: "i < N" "j < N" using e Go by auto
  show ?thesis
  proof (cases "s_at s i")
    case (On l)
    have "std_act N i j l (code i l (s_data s)) s = Next s'" using step Go On by simp
    from good_go [OF G i(1) On i(2) this] Go show ?thesis by simp
  next
    case (Sleeps l)
    with step Go show ?thesis by simp
  next
    case (Relocks l)
    then have o: "s_own s = None" and s': "s' = s\<lparr>s_own := Some i, s_at := (s_at s)(i := On l)\<rparr>"
      using step Go by (auto split: if_splits)
    obtain c m where c: "\<forall>u. code i l u = Do_wait c m" using goodD(3) [OF G i(1)] Relocks by blast
    have h: "holds l" using wait c by blast
    have p: "I (\<lambda>k. std_pc (s_at s' k)) (s_data s') = I (points s) (s_data s)"
      "potential s' + std_cost (s_at s i) = potential s + std_cost (On l)"
      using potential_put [OF i(1), of s' s "On l"] s' Relocks by simp_all
    have clean: "(\<exists>k<N. std_in dirty (s_at s' k)) \<or>
        (\<forall>k<N. \<forall>m d n. s_at s' k = Sleeps m \<and> code k m (s_data s') = Do_wait d n \<longrightarrow> \<not> d (s_data s'))"
      by (rule clean_keep [OF G]) (use s' Relocks in \<open>auto split: if_splits\<close>)
    have rec: "\<lparr>s_own = s_own s', s_at = s_at s', s_data = s_data s'\<rparr> = s'" by simp
    have "good \<lparr>s_own = s_own s', s_at = s_at s', s_data = s_data s'\<rparr>"
      by (rule good_move [OF G i(1) _ _ _ _ _ clean]) (use s' o h p goodD(5) [OF G] in auto)
    moreover have "potential s' < potential s" using p(2) Relocks by simp
    ultimately show ?thesis using Go unfolding rec by simp
  qed
next
  case (Spurious i)
  have i: "i < N" using e Spurious by simp
  obtain l where l: "s_at s i = Sleeps l" and s': "s' = s\<lparr>s_at := (s_at s)(i := Relocks l)\<rparr>"
    using step Spurious by (cases "s_at s i") (auto split: if_splits)
  have p: "I (\<lambda>k. std_pc (s_at s' k)) (s_data s') = I (points s) (s_data s)"
    "potential s' + std_cost (s_at s i) = potential s + std_cost (Relocks l)"
    using potential_put [OF i, of s' s "Relocks l"] s' l by simp_all
  have clean: "(\<exists>k<N. std_in dirty (s_at s' k)) \<or>
      (\<forall>k<N. \<forall>m d n. s_at s' k = Sleeps m \<and> code k m (s_data s') = Do_wait d n \<longrightarrow> \<not> d (s_data s'))"
    by (rule clean_keep [OF G]) (use s' l in \<open>auto split: if_splits\<close>)
  have rec: "\<lparr>s_own = s_own s', s_at = s_at s', s_data = s_data s'\<rparr> = s'" by simp
  have "good \<lparr>s_own = s_own s', s_at = s_at s', s_data = s_data s'\<rparr>"
    by (rule good_move [OF G i _ _ _ _ _ clean])
      (use s' l p goodD(5) [OF G] goodD(1) [OF G i] goodD(3) [OF G i] in auto)
  moreover have "potential s' + 1 \<le> potential s + 4" using p(2) l by simp
  ultimately show ?thesis using Spurious unfolding rec by simp
qed

lemma run:
  "std_run N code es s = Next s' \<Longrightarrow> list_all (std_of N) es \<Longrightarrow> good s \<Longrightarrow>
   good s' \<and> potential s' + length es \<le> potential s + 4 * std_spurious es"
proof (induction es arbitrary: s)
  case Nil
  then show ?case by simp
next
  case (Cons e es)
  obtain s1 where s1: "std_step N code e s = Next s1" "std_run N code es s1 = Next s'"
    using Cons.prems(1) by (auto split: outcome.splits)
  have g: "good s1 \<and> potential s1 + 1 \<le> potential s + 4 * std_spurious [e]"
    using good_step [OF Cons.prems(3) _ s1(1)] Cons.prems(2) by simp
  have "std_spurious (e # es) = std_spurious [e] + std_spurious es" by (cases e) simp_all
  with g Cons.IH [OF s1(2)] Cons.prems(2) show ?case by simp
qed

end

end
