(* ===== verification/Mutex_Programs.thy ===== *)
theory Mutex_Programs
  imports Programs
begin

text \<open>
  The programs that add to shared data inside a mutex: examples/mutex.cpp, examples/mutex_guard.cpp
  and the coroutine of benchtests/lab4d_bench.cpp.
\<close>

section \<open>The coroutine\<close>

text \<open>
  \<open>add_task\<close>: \<open>k\<close> additions of the loop are done; \<open>data += 1\<close> is a load and a store. The lock
  is given back by \<open>mtx.unlock()\<close> or by the destructor of the guard. \<open>K\<close> is the loop bound.
\<close>

datatype add_pc = A_start | A_loop nat | A_loaded nat int | A_done

fun add_task :: "nat \<Rightarrow> nat \<Rightarrow> add_pc \<Rightarrow> int \<Rightarrow> (int, add_pc) action" where
  "add_task K i A_start u = Do_lock (A_loop 0)"
| "add_task K i (A_loop k) u = (if k < K then Do u (A_loaded k u) else Do_unlock A_done)"
| "add_task K i (A_loaded k v) u = Do (v + 1) (A_loop (Suc k))"
| "add_task K i A_done u = Do_return"

text \<open>In mutex_guard.cpp the destructor of the guard unlocks at the end of the body.\<close>

definition add_guard_task :: "nat \<Rightarrow> nat \<Rightarrow> add_pc \<Rightarrow> int \<Rightarrow> (int, add_pc) action" where
  "add_guard_task K = add_task K"

text \<open>\<open>main\<close>: \<open>TASK_NUM\<close> coroutines on zeroed data.\<close>

definition TASK_NUM :: nat where
  "TASK_NUM = 100"

definition add_main :: "(int, add_pc) psys" where
  "add_main = p_start (\<lambda>_. A_start) 0"

section \<open>Its critical section\<close>

fun add_holds :: "add_pc \<Rightarrow> bool" where
  "add_holds (A_loop k) \<longleftrightarrow> True"
| "add_holds (A_loaded k v) \<longleftrightarrow> True"
| "add_holds p \<longleftrightarrow> False"

section \<open>What the sum is at any time\<close>

fun add_count :: "nat \<Rightarrow> add_pc \<Rightarrow> nat" where
  "add_count K A_start = 0"
| "add_count K (A_loop k) = k"
| "add_count K (A_loaded k v) = k"
| "add_count K A_done = K"

definition add_sum :: "nat \<Rightarrow> nat \<Rightarrow> (nat \<Rightarrow> add_pc) \<Rightarrow> int \<Rightarrow> bool" where
  "add_sum N K P u \<longleftrightarrow> u = int (\<Sum>i<N. add_count K (P i))"

definition add_owner :: "nat \<Rightarrow> nat \<Rightarrow> nat \<Rightarrow> (nat \<Rightarrow> add_pc) \<Rightarrow> int \<Rightarrow> bool" where
  "add_owner N K i P u \<longleftrightarrow>
     add_sum N K P u \<and>
     (case P i of A_loop k \<Rightarrow> k \<le> K | A_loaded k v \<Rightarrow> k < K \<and> v = u | _ \<Rightarrow> False)"

lemma add_task_returns: "add_task K i l u = Do_return \<longleftrightarrow> l = A_done"
  by (cases l) auto

lemma add_sum_move:
  assumes "i < N"
  shows "add_sum N K (P(i := p)) u \<longleftrightarrow> add_sum N K P (u + int (add_count K (P i)) - int (add_count K p))"
  using sum_move [OF assms, of "add_count K" P p]
  by (simp add: add_sum_def del: of_nat_sum fun_upd_apply) linarith

lemmas add_assertions = add_owner_def add_sum_move

fun add_rem :: "nat \<Rightarrow> add_pc \<Rightarrow> nat" where
  "add_rem K A_start = 2 * K + 2"
| "add_rem K (A_loop k) = 2 * (K - k) + 1"
| "add_rem K (A_loaded k v) = 2 * (K - k)"
| "add_rem K A_done = 0"

interpretation adding: ranked_proof N "add_task K" add_holds "\<lambda>_ _. None" "\<lambda>_. False"
    "\<lambda>p. p = A_loop 0" "add_sum N K" "add_owner N K" "add_rem K" for N K
  by unfold_locales (auto elim!: add_task.elims simp: add_assertions split: if_splits add_pc.splits)

section \<open>The benchmark of the mutex\<close>

text \<open>\<open>add\<close> of lab4d_bench.cpp counts in a local variable while it holds the mutex.\<close>

datatype bench_pc = B_start | B_loop nat | B_done

fun bench_add :: "nat \<Rightarrow> nat \<Rightarrow> bench_pc \<Rightarrow> unit \<Rightarrow> (unit, bench_pc) action" where
  "bench_add loop_num i B_start u = Do_lock (B_loop 0)"
| "bench_add loop_num i (B_loop cnt) u =
     (if cnt < loop_num then Do u (B_loop (Suc cnt)) else Do_unlock B_done)"
| "bench_add loop_num i B_done u = Do_return"

fun bench_holds :: "bench_pc \<Rightarrow> bool" where
  "bench_holds (B_loop cnt) \<longleftrightarrow> True"
| "bench_holds p \<longleftrightarrow> False"

fun bench_rem :: "nat \<Rightarrow> bench_pc \<Rightarrow> nat" where
  "bench_rem loop_num B_start = loop_num + 3"
| "bench_rem loop_num (B_loop cnt) = loop_num - cnt + 1"
| "bench_rem loop_num B_done = 0"

interpretation bench: ranked_proof N "bench_add n" bench_holds "\<lambda>_ _. None" "\<lambda>_. False"
    "\<lambda>p. p = B_loop 0" "\<lambda>P u. True" "\<lambda>i P u. case P i of B_loop k \<Rightarrow> True | _ \<Rightarrow> False" "bench_rem n" for N n
  by unfold_locales (auto elim!: bench_add.elims split: if_splits bench_pc.splits)

lemma bench_add_ends:
  assumes "p_run (p_step (bench_add n)) is (p_start (\<lambda>_. B_start) ()) = Some s" and "set is \<subseteq> {..<N}"
    and "\<forall>i<N. p_step (bench_add n) i s = None"
  shows "\<forall>i<N. p_at s i = Runs B_done"
proof -
  have "bench.proved N (p_start (\<lambda>_. B_start) ())" by (rule bench.proved_start) simp_all
  note run = bench.complete_run(3) [OF assms(1,2) this assms(3)]
  have "bench_add n i l u = Do_return \<longleftrightarrow> l = B_done" for i l u by (cases l) auto
  with run show ?thesis by simp
qed

section \<open>Properties\<close>



end
