(* ===== verification/Cv_Programs.thy ===== *)
theory Cv_Programs
  imports Programs
begin

text \<open>
  The programs built on the condition variable: examples/cv_notify_all.cpp,
  examples/cv_notify_one.cpp and the coroutines of benchtests/lab5b_bench.cpp.
\<close>

section \<open>Taking turns\<close>

text \<open>
  \<open>run\<close> of cv_notify_all.cpp: coroutine \<open>i\<close> waits until \<open>id\<close> is its number, adds to the data
  \<open>K\<close> times, logs, and passes the turn on. What it logs is kept with the shared data.
\<close>

record turn_data =
  t_id :: nat
  t_sum :: nat
  t_log :: "(nat \<times> nat) list"

datatype turn_pc = T_start | T_wait | T_loop nat | T_inc | T_notify | T_exit | T_done

fun turn_run :: "nat \<Rightarrow> nat \<Rightarrow> turn_pc \<Rightarrow> turn_data \<Rightarrow> (turn_data, turn_pc) action" where
  "turn_run K i T_start u = Do_lock T_wait"
| "turn_run K i T_wait u = Do_wait (\<lambda>u. i = t_id u) (T_loop 0)"
| "turn_run K i (T_loop k) u =
     (if k < K then Do (u\<lparr>t_sum := t_sum u + 1\<rparr>) (T_loop (Suc k))
      else Do (u\<lparr>t_log := t_log u @ [(i, t_sum u)]\<rparr>) T_inc)"
| "turn_run K i T_inc u = Do (u\<lparr>t_id := t_id u + 1\<rparr>) T_notify"
| "turn_run K i T_notify u = Do_notify_all T_exit"
| "turn_run K i T_exit u = Do_unlock T_done"
| "turn_run K i T_done u = Do_return"

definition turn_main :: "(turn_data, turn_pc) psys" where
  "turn_main = p_start (\<lambda>_. T_start) \<lparr>t_id = 0, t_sum = 0, t_log = []\<rparr>"

fun turn_holds :: "turn_pc \<Rightarrow> bool" where
  "turn_holds T_start \<longleftrightarrow> False"
| "turn_holds T_done \<longleftrightarrow> False"
| "turn_holds p \<longleftrightarrow> True"

definition turn_cond :: "nat \<Rightarrow> turn_pc \<Rightarrow> (turn_data \<Rightarrow> bool) option" where
  "turn_cond i p = (if p = T_loop 0 then Some (\<lambda>u. i = t_id u) else None)"

fun turn_over :: "turn_pc \<Rightarrow> bool" where
  "turn_over T_notify \<longleftrightarrow> True"
| "turn_over T_exit \<longleftrightarrow> True"
| "turn_over T_done \<longleftrightarrow> True"
| "turn_over p \<longleftrightarrow> False"

text \<open>After \<open>n\<close> turns: who had a turn, the sum and the log.\<close>

definition turns :: "nat \<Rightarrow> nat \<Rightarrow> turn_data \<Rightarrow> bool" where
  "turns K n u \<longleftrightarrow> t_sum u = n * K \<and> t_log u = map (\<lambda>i. (i, (i + 1) * K)) [0..<n]"

definition turn_order :: "nat \<Rightarrow> (nat \<Rightarrow> turn_pc) \<Rightarrow> turn_data \<Rightarrow> bool" where
  "turn_order N P u \<longleftrightarrow> t_id u \<le> N \<and> (\<forall>i<N. turn_over (P i) \<longleftrightarrow> i < t_id u)"

definition turn_rest :: "nat \<Rightarrow> nat \<Rightarrow> (nat \<Rightarrow> turn_pc) \<Rightarrow> turn_data \<Rightarrow> bool" where
  "turn_rest N K P u \<longleftrightarrow> turn_order N P u \<and> turns K (t_id u) u"

definition turn_owner :: "nat \<Rightarrow> nat \<Rightarrow> nat \<Rightarrow> (nat \<Rightarrow> turn_pc) \<Rightarrow> turn_data \<Rightarrow> bool" where
  "turn_owner N K i P u \<longleftrightarrow>
     turn_order N P u \<and>
     (case P i of
        T_loop k \<Rightarrow> k \<le> K \<and> i = t_id u \<and> turns K i (u\<lparr>t_sum := t_sum u - k\<rparr>) \<and> k \<le> t_sum u
      | T_inc \<Rightarrow> i = t_id u \<and> turns K (Suc i) u
      | T_wait \<Rightarrow> turns K (t_id u) u
      | T_notify \<Rightarrow> turns K (t_id u) u
      | T_exit \<Rightarrow> turns K (t_id u) u
      | _ \<Rightarrow> False)"

fun turn_rem :: "nat \<Rightarrow> turn_pc \<Rightarrow> nat" where
  "turn_rem K T_start = K + 6"
| "turn_rem K T_wait = K + 5"
| "turn_rem K (T_loop k) = K - k + 4"
| "turn_rem K T_inc = 3"
| "turn_rem K T_notify = 2"
| "turn_rem K T_exit = 1"
| "turn_rem K T_done = 0"

lemma turn_order_move:
  "turn_order N P u \<Longrightarrow> turn_over p = turn_over (P i) \<Longrightarrow> t_id u' = t_id u \<Longrightarrow> turn_order N (P(i := p)) u'"
  by (auto simp: turn_order_def)

lemma turn_order_next:
  "turn_order N P u \<Longrightarrow> i = t_id u \<Longrightarrow> i < N \<Longrightarrow> turn_over p \<Longrightarrow> t_id u' = Suc (t_id u) \<Longrightarrow> turn_order N (P(i := p)) u'"
  by (auto simp: turn_order_def less_Suc_eq)

lemma turns_same: "turns K n u \<Longrightarrow> t_sum u' = t_sum u \<Longrightarrow> t_log u' = t_log u \<Longrightarrow> turns K n u'"
  by (simp add: turns_def)

interpretation turns: ranked_proof N "turn_run K" turn_holds turn_cond "\<lambda>p. p = T_notify"
    "\<lambda>p. p = T_wait \<or> p = T_loop 0" "turn_rest N K" "turn_owner N K" "turn_rem K" for N K
proof unfold_locales
  show "turn_owner N K i (P(i := l')) u'" if "turn_owner N K i P u" "i < N" "turn_run K i (P i) u = Do u' l'"
    for i P u u' l'
  proof (cases "P i")
    case (T_loop k)
    show ?thesis
    proof (cases "k < K")
      case True
      with that T_loop show ?thesis by (auto simp: turn_owner_def turns_def intro: turn_order_move)
    next
      case False
      with that T_loop show ?thesis by (auto simp: turn_owner_def turns_def intro!: turn_order_move)
    qed
  next
    case T_inc
    with that show ?thesis by (auto simp: turn_owner_def turns_def intro!: turn_order_next)
  qed (use that in \<open>auto simp: turn_owner_def\<close>)
qed (auto elim!: turn_run.elims simp: turn_cond_def turn_rest_def turn_owner_def
    intro!: turn_order_move split: if_splits turn_pc.splits)

section \<open>Taking turns in the benchmark\<close>

text \<open>
  \<open>notify_all\<close> of lab5b_bench.cpp on the library's objects: as \<open>turn_run\<close> without the loop.
\<close>

datatype pass_pc = L_start | L_wait | L_inc | L_notify | L_exit | L_done

fun notify_all_task :: "nat \<Rightarrow> pass_pc \<Rightarrow> nat \<Rightarrow> (nat, pass_pc) action" where
  "notify_all_task i L_start gid = Do_lock L_wait"
| "notify_all_task i L_wait gid = Do_wait (\<lambda>gid. gid = i) L_inc"
| "notify_all_task i L_inc gid = Do (gid + 1) L_notify"
| "notify_all_task i L_notify gid = Do_notify_all L_exit"
| "notify_all_task i L_exit gid = Do_unlock L_done"
| "notify_all_task i L_done gid = Do_return"

definition cv_notifyall_bench :: "(nat, pass_pc) psys" where
  "cv_notifyall_bench = p_start (\<lambda>_. L_start) 0"

fun pass_over :: "pass_pc \<Rightarrow> bool" where
  "pass_over L_notify \<longleftrightarrow> True"
| "pass_over L_exit \<longleftrightarrow> True"
| "pass_over L_done \<longleftrightarrow> True"
| "pass_over p \<longleftrightarrow> False"

definition pass_rest :: "nat \<Rightarrow> (nat \<Rightarrow> pass_pc) \<Rightarrow> nat \<Rightarrow> bool" where
  "pass_rest N P gid \<longleftrightarrow> gid \<le> N \<and> (\<forall>i<N. pass_over (P i) \<longleftrightarrow> i < gid)"

definition pass_owner :: "nat \<Rightarrow> nat \<Rightarrow> (nat \<Rightarrow> pass_pc) \<Rightarrow> nat \<Rightarrow> bool" where
  "pass_owner N i P gid \<longleftrightarrow>
     pass_rest N P gid \<and> P i \<noteq> L_start \<and> P i \<noteq> L_done \<and> (P i = L_inc \<longrightarrow> gid = i)"

fun pass_rem :: "pass_pc \<Rightarrow> nat" where
  "pass_rem L_start = 5"
| "pass_rem L_wait = 4"
| "pass_rem L_inc = 3"
| "pass_rem L_notify = 2"
| "pass_rem L_exit = 1"
| "pass_rem L_done = 0"

lemma pass_rest_move:
  "pass_rest N P gid \<Longrightarrow> pass_over p = pass_over (P i) \<Longrightarrow> pass_rest N (P(i := p)) gid"
  by (auto simp: pass_rest_def)

lemma pass_rest_next:
  "pass_rest N P i \<Longrightarrow> i < N \<Longrightarrow> pass_over p \<Longrightarrow> pass_rest N (P(i := p)) (Suc i)"
  by (auto simp: pass_rest_def less_Suc_eq)

lemma notify_all_task_iff:
  "notify_all_task i p u = Do_lock q \<longleftrightarrow> p = L_start \<and> q = L_wait"
  "notify_all_task i p u = Do_wait c q \<longleftrightarrow> p = L_wait \<and> q = L_inc \<and> c = (\<lambda>gid. gid = i)"
  "notify_all_task i p u = Do_notify_one q \<longleftrightarrow> False"
  "notify_all_task i p u = Do_notify_all q \<longleftrightarrow> p = L_notify \<and> q = L_exit"
  "notify_all_task i p u = Do_unlock q \<longleftrightarrow> p = L_exit \<and> q = L_done"
  "notify_all_task i p u = Do v q \<longleftrightarrow> p = L_inc \<and> v = u + 1 \<and> q = L_notify"
  "notify_all_task i p u = Do_return \<longleftrightarrow> p = L_done"
  by (cases p; auto)+

interpretation passing: ranked_proof N notify_all_task "\<lambda>p. p \<noteq> L_start \<and> p \<noteq> L_done"
    "\<lambda>i p. if p = L_inc then Some (\<lambda>gid. gid = i) else None" "\<lambda>p. p = L_notify"
    "\<lambda>p. p = L_wait \<or> p = L_inc" "pass_rest N" "pass_owner N" pass_rem for N
proof unfold_locales
  show "pass_rem (next_pc (notify_all_task i (P i) u) (P i)) < pass_rem (P i)"
    if "notify_all_task i (P i) u \<noteq> Do_return" for i P u
    using that by (cases "P i") auto
  show "pass_owner N i (P(i := q)) v" if "pass_owner N i P u" "i < N" "notify_all_task i (P i) u = Do v q" for i P u v q
    using that pass_rest_next [of N P i q] by (auto simp: notify_all_task_iff pass_owner_def)
qed (auto simp: notify_all_task_iff pass_owner_def intro!: pass_rest_move split: if_splits)

lemma cv_notifyall_ends:
  assumes "p_run (p_step notify_all_task) is cv_notifyall_bench = Some s" and "set is \<subseteq> {..<N}"
  shows "length is \<le> N * 5"
    and "\<forall>i<N. p_step notify_all_task i s = None \<Longrightarrow> (\<forall>i<N. p_at s i = Runs L_done) \<and> p_data s = N"
proof -
  have "passing.proved N cv_notifyall_bench" unfolding cv_notifyall_bench_def
    by (rule passing.proved_start) (simp_all add: pass_rest_def)
  note run = passing.complete_run [OF assms this]
  show "length is \<le> N * 5" using run(1) by (simp add: p_rank_def cv_notifyall_bench_def p_start_def)
  assume no: "\<forall>i<N. p_step notify_all_task i s = None"
  have I: "pass_rest N (p_points s) (p_data s)" by (rule run(2) [OF no])
  have st: "p_at s i = Runs L_done \<or> p_at s i = Waits L_inc \<and> p_data s \<noteq> i" if "i < N" for i
    using run(3) [OF no that] by (auto simp: notify_all_task_iff split: if_splits)
  have "p_data s = N"
  proof (rule ccontr)
    assume "p_data s \<noteq> N"
    then have lt: "p_data s < N" using I by (simp add: pass_rest_def)
    from st [OF this] have "p_at s (p_data s) = Runs L_done" by auto
    with I lt show False by (auto simp: pass_rest_def)
  qed
  moreover have "p_at s i = Runs L_done" if i: "i < N" for i
  proof -
    have "pass_over (p_points s i)" using I i calculation by (simp add: pass_rest_def)
    with st [OF i] show ?thesis by auto
  qed
  ultimately show "(\<forall>i<N. p_at s i = Runs L_done) \<and> p_data s = N" by blast
qed

section \<open>Passing a token back and forth\<close>

text \<open>
  \<open>notify_one\<close> of lab5b_bench.cpp, run by two coroutines: each waits for \<open>gid\<close> to be its number
  and sets it to the other's, \<open>run_cnt\<close> times.
\<close>

datatype swap_pc =
  S_loop nat | S_wait nat | S_flip nat | S_dec nat | S_notify nat | S_exit nat

fun notify_one_task :: "nat \<Rightarrow> swap_pc \<Rightarrow> nat \<Rightarrow> (nat, swap_pc) action" where
  "notify_one_task i (S_loop run_cnt) gid = (if run_cnt > 0 then Do_lock (S_wait run_cnt) else Do_return)"
| "notify_one_task i (S_wait run_cnt) gid = Do_wait (\<lambda>gid. i = gid) (S_flip run_cnt)"
| "notify_one_task i (S_flip run_cnt) gid = Do ((gid + 1) mod 2) (S_dec run_cnt)"
| "notify_one_task i (S_dec run_cnt) gid = Do gid (S_notify (run_cnt - 1))"
| "notify_one_task i (S_notify run_cnt) gid = Do_notify_one (S_exit run_cnt)"
| "notify_one_task i (S_exit run_cnt) gid = Do_unlock (S_loop run_cnt)"

definition notifyone_run_cnt :: nat where
  "notifyone_run_cnt = 1000"

definition swap_main :: "nat \<Rightarrow> (nat, swap_pc) psys" where
  "swap_main run_cnt = p_start (\<lambda>_. S_loop run_cnt) 0"

fun swap_holds :: "swap_pc \<Rightarrow> bool" where
  "swap_holds (S_loop k) \<longleftrightarrow> False"
| "swap_holds p \<longleftrightarrow> True"

fun swap_cond :: "nat \<Rightarrow> swap_pc \<Rightarrow> (nat \<Rightarrow> bool) option" where
  "swap_cond i (S_flip k) = Some (\<lambda>gid. i = gid)"
| "swap_cond i p = None"

fun swap_dirty :: "swap_pc \<Rightarrow> bool" where
  "swap_dirty (S_dec k) \<longleftrightarrow> True"
| "swap_dirty (S_notify k) \<longleftrightarrow> True"
| "swap_dirty p \<longleftrightarrow> False"

fun swap_after :: "swap_pc \<Rightarrow> bool" where
  "swap_after (S_wait k) \<longleftrightarrow> True"
| "swap_after (S_flip k) \<longleftrightarrow> True"
| "swap_after p \<longleftrightarrow> False"

text \<open>The turns a coroutine still has, and the points it can be at.\<close>

fun swap_left :: "swap_pc \<Rightarrow> nat" where
  "swap_left (S_loop k) = k"
| "swap_left (S_wait k) = k"
| "swap_left (S_flip k) = k"
| "swap_left (S_dec k) = k - 1"
| "swap_left (S_notify k) = k"
| "swap_left (S_exit k) = k"

fun swap_ok :: "swap_pc \<Rightarrow> bool" where
  "swap_ok (S_wait k) \<longleftrightarrow> 0 < k"
| "swap_ok (S_flip k) \<longleftrightarrow> 0 < k"
| "swap_ok (S_dec k) \<longleftrightarrow> 0 < k"
| "swap_ok p \<longleftrightarrow> True"

definition swap_rest :: "(nat \<Rightarrow> swap_pc) \<Rightarrow> nat \<Rightarrow> bool" where
  "swap_rest P gid \<longleftrightarrow>
     swap_ok (P 0) \<and> swap_ok (P 1) \<and>
     (gid = 0 \<and> swap_left (P 0) = swap_left (P 1) \<or> gid = 1 \<and> swap_left (P 1) = Suc (swap_left (P 0)))"

definition swap_owner :: "nat \<Rightarrow> (nat \<Rightarrow> swap_pc) \<Rightarrow> nat \<Rightarrow> bool" where
  "swap_owner i P gid \<longleftrightarrow>
     swap_rest P gid \<and> (case P i of S_loop k \<Rightarrow> False | S_flip k \<Rightarrow> gid = i | _ \<Rightarrow> True)"

fun swap_rem :: "swap_pc \<Rightarrow> nat" where
  "swap_rem (S_loop k) = 6 * k"
| "swap_rem (S_wait k) = 6 * k - 1"
| "swap_rem (S_flip k) = 6 * k - 2"
| "swap_rem (S_dec k) = 6 * k - 3"
| "swap_rem (S_notify k) = 6 * k + 2"
| "swap_rem (S_exit k) = 6 * k + 1"

lemma two: "i < (2::nat) \<Longrightarrow> i = 0 \<or> i = 1"
  by auto

lemma swap_cond_iff: "swap_cond i p = Some c \<longleftrightarrow> (\<exists>k. p = S_flip k) \<and> c = (\<lambda>gid. i = gid)"
  by (cases p) auto

lemma swap_task_iff:
  "notify_one_task i p u = Do_lock q \<longleftrightarrow> (\<exists>k. p = S_loop k \<and> 0 < k \<and> q = S_wait k)"
  "notify_one_task i p u = Do_wait c q \<longleftrightarrow> (\<exists>k. p = S_wait k \<and> q = S_flip k \<and> c = (\<lambda>gid. i = gid))"
  "notify_one_task i p u = Do_notify_one q \<longleftrightarrow> (\<exists>k. p = S_notify k \<and> q = S_exit k)"
  "notify_one_task i p u \<noteq> Do_notify_all q"
  "notify_one_task i p u = Do_unlock q \<longleftrightarrow> (\<exists>k. p = S_exit k \<and> q = S_loop k)"
  "notify_one_task i p u = Do u' q \<longleftrightarrow>
     (\<exists>k. p = S_flip k \<and> q = S_dec k \<and> u' = (u + 1) mod 2) \<or> (\<exists>k. p = S_dec k \<and> q = S_notify (k - 1) \<and> u' = u)"
  "notify_one_task i p u = Do_return \<longleftrightarrow> p = S_loop 0"
  by (cases p; auto)+

lemma swap_move:
  assumes "i < 2"
  shows "swap_rest (P(i := p)) gid \<longleftrightarrow>
    (if i = 0 then swap_ok p \<and> swap_ok (P 1) \<and>
       (gid = 0 \<and> swap_left p = swap_left (P 1) \<or> gid = 1 \<and> swap_left (P 1) = Suc (swap_left p))
     else swap_ok (P 0) \<and> swap_ok p \<and>
       (gid = 0 \<and> swap_left (P 0) = swap_left p \<or> gid = 1 \<and> swap_left p = Suc (swap_left (P 0))))"
  using two [OF assms] by (auto simp: swap_rest_def)

lemma swap_rest_keep:
  "i < 2 \<Longrightarrow> swap_rest P gid \<Longrightarrow> swap_ok p \<Longrightarrow> swap_left p = swap_left (P i) \<Longrightarrow> swap_rest (P(i := p)) gid"
  using two [of i] by (auto simp: swap_move swap_rest_def)

lemma swap_rest_flip:
  assumes "i < 2" and "swap_rest P i" and "P i = S_flip k"
  shows "swap_rest (P(i := S_dec k)) ((i + 1) mod 2)"
  using two [OF assms(1)] assms(2,3) by (auto simp: swap_rest_def)

lemma swap_rest_ok: "i < 2 \<Longrightarrow> swap_rest P gid \<Longrightarrow> swap_ok (P i)"
  using two [of i] by (auto simp: swap_rest_def)

interpretation swap: ranked_proof 2 notify_one_task swap_holds swap_cond swap_dirty swap_after
    swap_rest swap_owner swap_rem
proof unfold_locales
  show "swap_owner i (P(i := l')) u'" if "swap_owner i P u" "i < 2" "notify_one_task i (P i) u = Do u' l'" for i P u u' l'
    using that swap_rest_keep swap_rest_flip swap_rest_ok [of i P u]
    by (auto simp: swap_owner_def swap_task_iff)
  show "swap_rem (next_pc (notify_one_task i (P i) u) (P i)) < swap_rem (P i)"
    if "swap_owner i P u" "i < 2" "notify_one_task i (P i) u \<noteq> Do_return" "\<And>l'. notify_one_task i (P i) u \<noteq> Do_lock l'"
    for i P u
    using that swap_rest_ok [of i P u] by (cases "P i") (auto simp: swap_owner_def)
  show "swap_owner i (P(i := l')) u" if "swap_owner i P u" "i < 2" "notify_one_task i (P i) u = Do_wait c l'" "c u"
    for i P u c l'
    using that swap_rest_ok [of i P u] by (auto simp: swap_owner_def swap_task_iff intro!: swap_rest_keep)
  show "swap_rest (P(i := l')) u" if "swap_owner i P u" "i < 2" "notify_one_task i (P i) u = Do_wait c l'" "\<not> c u"
    for i P u c l'
    using that swap_rest_ok [of i P u] by (auto simp: swap_owner_def swap_task_iff intro!: swap_rest_keep)
  show "swap_owner i P u" if "swap_rest P u" "i < 2" "swap_after (P i)" "\<And>c. swap_cond i (P i) = Some c \<Longrightarrow> c u" for i P u
    using that by (cases "P i") (auto simp: swap_owner_def)
  show "swap_holds l" if "swap_dirty l" for l using that by (cases l) auto
qed (auto simp: swap_cond_iff swap_task_iff swap_owner_def intro: swap_rest_keep)

section \<open>A producer and a consumer\<close>

text \<open>
  cv_notify_one.cpp: coroutine 0 is \<open>consumer\<close>, coroutine 1 \<open>producer\<close>. The values the consumer
  logs are kept with the queue. \<open>C_first\<close> and \<open>C_more\<close> are the test of the inner loop, when it is
  reached from the wait and when it is reached after a value.
\<close>

record que_data =
  que :: "nat list"
  fetched :: "nat list"

datatype que_pc =
  C_start | C_outer nat | C_first nat | C_more nat | C_done
| P_loop nat | P_wait nat | P_push nat nat | P_exit nat

definition consumer_drain :: "nat \<Rightarrow> que_data \<Rightarrow> (que_data, que_pc) action" where
  "consumer_drain cnt u =
     (case que u of
        [] \<Rightarrow> Do_notify_one (C_outer cnt)
      | v # vs \<Rightarrow> Do (u\<lparr>que := vs, fetched := fetched u @ [v]\<rparr>) (C_more (cnt + 1)))"

fun que_task :: "nat \<Rightarrow> que_pc \<Rightarrow> que_data \<Rightarrow> (que_data, que_pc) action" where
  "que_task i C_start u = Do_lock (C_outer 0)"
| "que_task i (C_outer cnt) u =
     (if cnt < 100 then Do_wait (\<lambda>u. que u \<noteq> []) (C_first cnt) else Do_unlock C_done)"
| "que_task i (C_first cnt) u = consumer_drain cnt u"
| "que_task i (C_more cnt) u = consumer_drain cnt u"
| "que_task i C_done u = Do_return"
| "que_task i (P_loop k) u = (if k < 10 then Do_lock (P_wait k) else Do_return)"
| "que_task i (P_wait k) u = Do_wait (\<lambda>u. length (que u) < 10) (P_push k 0)"
| "que_task i (P_push k j) u =
     (if j < 10 then Do (u\<lparr>que := que u @ [k * 10 + j]\<rparr>) (P_push k (Suc j)) else Do_notify_one (P_exit k))"
| "que_task i (P_exit k) u = Do_unlock (P_loop (Suc k))"

definition que_begin :: "nat \<Rightarrow> que_pc" where
  "que_begin i = (if i = 0 then C_start else P_loop 0)"

definition que_main :: "(que_data, que_pc) psys" where
  "que_main = p_start que_begin \<lparr>que = [], fetched = []\<rparr>"

fun que_holds :: "que_pc \<Rightarrow> bool" where
  "que_holds C_start \<longleftrightarrow> False"
| "que_holds C_done \<longleftrightarrow> False"
| "que_holds (P_loop k) \<longleftrightarrow> False"
| "que_holds p \<longleftrightarrow> True"

definition que_cond :: "nat \<Rightarrow> que_pc \<Rightarrow> (que_data \<Rightarrow> bool) option" where
  "que_cond i p =
     (case p of
        C_first cnt \<Rightarrow> Some (\<lambda>u. que u \<noteq> [])
      | P_push k j \<Rightarrow> if j = 0 then Some (\<lambda>u. length (que u) < 10) else None
      | _ \<Rightarrow> None)"

fun que_dirty :: "que_pc \<Rightarrow> bool" where
  "que_dirty (C_more cnt) \<longleftrightarrow> True"
| "que_dirty (P_push k j) \<longleftrightarrow> 0 < j"
| "que_dirty p \<longleftrightarrow> False"

fun que_after :: "que_pc \<Rightarrow> bool" where
  "que_after (C_outer c) \<longleftrightarrow> c = 0"
| "que_after (C_first c) \<longleftrightarrow> True"
| "que_after (P_wait k) \<longleftrightarrow> True"
| "que_after (P_push k j) \<longleftrightarrow> j = 0"
| "que_after p \<longleftrightarrow> False"

text \<open>How many values were fetched and pushed when the coroutines are at their points.\<close>

fun consumed :: "que_pc \<Rightarrow> nat \<Rightarrow> bool" where
  "consumed C_start n \<longleftrightarrow> n = 0"
| "consumed (C_outer c) n \<longleftrightarrow> n = c"
| "consumed (C_first c) n \<longleftrightarrow> n = c \<and> c < 100"
| "consumed (C_more c) n \<longleftrightarrow> n = c"
| "consumed C_done n \<longleftrightarrow> 100 \<le> n"
| "consumed p n \<longleftrightarrow> False"

fun produced :: "que_pc \<Rightarrow> nat \<Rightarrow> bool" where
  "produced (P_loop k) n \<longleftrightarrow> k \<le> 10 \<and> n = k * 10"
| "produced (P_wait k) n \<longleftrightarrow> k < 10 \<and> n = k * 10"
| "produced (P_push k j) n \<longleftrightarrow> k < 10 \<and> j \<le> 10 \<and> n = k * 10 + j"
| "produced (P_exit k) n \<longleftrightarrow> k < 10 \<and> n = k * 10 + 10"
| "produced p n \<longleftrightarrow> False"

definition que_rest :: "(nat \<Rightarrow> que_pc) \<Rightarrow> que_data \<Rightarrow> bool" where
  "que_rest P u \<longleftrightarrow>
     fetched u @ que u = [0..<length (fetched u) + length (que u)] \<and>
     consumed (P 0) (length (fetched u)) \<and> produced (P 1) (length (fetched u) + length (que u))"

definition que_owner :: "nat \<Rightarrow> (nat \<Rightarrow> que_pc) \<Rightarrow> que_data \<Rightarrow> bool" where
  "que_owner i P u \<longleftrightarrow> que_rest P u \<and> que_holds (P i) \<and> (\<forall>c. P i = C_first c \<longrightarrow> que u \<noteq> [])"

fun que_rem :: "que_pc \<Rightarrow> nat" where
  "que_rem C_start = 503"
| "que_rem (C_outer c) = 5 * (100 - c) + 2"
| "que_rem (C_first c) = 5 * (100 - c)"
| "que_rem (C_more c) = 5 * (100 - c) + 4"
| "que_rem C_done = 0"
| "que_rem (P_loop k) = (10 - k) * 14"
| "que_rem (P_wait k) = (10 - Suc k) * 14 + 13"
| "que_rem (P_push k j) = (10 - Suc k) * 14 + 12 - j"
| "que_rem (P_exit k) = (10 - Suc k) * 14 + 1"

lemma drain_iff:
  "consumer_drain c u = Do_notify_one q \<longleftrightarrow> que u = [] \<and> q = C_outer c"
  "consumer_drain c u = Do u' q \<longleftrightarrow>
     (\<exists>v vs. que u = v # vs \<and> u' = u\<lparr>que := vs, fetched := fetched u @ [v]\<rparr> \<and> q = C_more (c + 1))"
  "consumer_drain c u \<noteq> Do_lock q" "consumer_drain c u \<noteq> Do_wait x q" "consumer_drain c u \<noteq> Do_notify_all q"
  "consumer_drain c u \<noteq> Do_unlock q" "consumer_drain c u \<noteq> Do_return"
  by (cases "que u"; auto simp: consumer_drain_def)+

lemma que_task_iff:
  "que_task i p u = Do_lock q \<longleftrightarrow> p = C_start \<and> q = C_outer 0 \<or> (\<exists>k. p = P_loop k \<and> k < 10 \<and> q = P_wait k)"
  "que_task i p u = Do_wait c q \<longleftrightarrow>
     (\<exists>n. p = C_outer n \<and> n < 100 \<and> q = C_first n \<and> c = (\<lambda>u. que u \<noteq> [])) \<or>
     (\<exists>k. p = P_wait k \<and> q = P_push k 0 \<and> c = (\<lambda>u. length (que u) < 10))"
  "que_task i p u = Do_notify_one q \<longleftrightarrow>
     (\<exists>n. (p = C_first n \<or> p = C_more n) \<and> que u = [] \<and> q = C_outer n) \<or>
     (\<exists>k j. p = P_push k j \<and> 10 \<le> j \<and> q = P_exit k)"
  "que_task i p u \<noteq> Do_notify_all q"
  "que_task i p u = Do_unlock q \<longleftrightarrow>
     (\<exists>n. p = C_outer n \<and> 100 \<le> n \<and> q = C_done) \<or> (\<exists>k. p = P_exit k \<and> q = P_loop (Suc k))"
  "que_task i p u = Do_return \<longleftrightarrow> p = C_done \<or> (\<exists>k. p = P_loop k \<and> 10 \<le> k)"
  by (cases p; auto simp: drain_iff)+

lemma que_task_Do:
  "que_task i p u = Do u' q \<longleftrightarrow>
     (\<exists>n v vs. (p = C_first n \<or> p = C_more n) \<and> que u = v # vs \<and>
        u' = u\<lparr>que := vs, fetched := fetched u @ [v]\<rparr> \<and> q = C_more (n + 1)) \<or>
     (\<exists>k j. p = P_push k j \<and> j < 10 \<and> u' = u\<lparr>que := que u @ [k * 10 + j]\<rparr> \<and> q = P_push k (Suc j))"
  by (cases p) (auto simp: drain_iff)

lemma que_cond_iff:
  "que_cond i p = Some c \<longleftrightarrow>
     (\<exists>n. p = C_first n \<and> c = (\<lambda>u. que u \<noteq> [])) \<or> (\<exists>k. p = P_push k 0 \<and> c = (\<lambda>u. length (que u) < 10))"
  by (cases p) (auto simp: que_cond_def split: if_splits)

lemma que_after_holds: "que_after p \<Longrightarrow> que_holds p"
  by (cases p) auto

lemma que_cond_none: "que_cond i p = None \<longleftrightarrow> (\<forall>n. p \<noteq> C_first n) \<and> (\<forall>k. p \<noteq> P_push k 0)"
  by (cases p) (auto simp: que_cond_def)

text \<open>A coroutine moves to a point at which as much was fetched and pushed.\<close>

lemma que_rest_keep:
  assumes "i < 2" and "que_rest P u"
    and "i = 0 \<Longrightarrow> consumed (P 0) (length (fetched u)) \<Longrightarrow> consumed p (length (fetched u))"
    and "i = 1 \<Longrightarrow> produced (P 1) (length (fetched u) + length (que u)) \<Longrightarrow>
      produced p (length (fetched u) + length (que u))"
  shows "que_rest (P(i := p)) u"
  using two [OF assms(1)] assms(2-4) by (auto simp: que_rest_def)

lemma que_rest_points:
  assumes "que_rest P u" and "i < 2"
  shows "i = 0 \<and> consumed (P i) (length (fetched u)) \<or>
    i = 1 \<and> produced (P i) (length (fetched u) + length (que u))"
  using two [OF assms(2)] assms(1) by (auto simp: que_rest_def)

lemma que_rest_pop:
  assumes R: "que_rest P u" and i: "i < 2" and p: "P i = C_first n \<or> P i = C_more n" and q: "que u = v # vs"
  shows "que_rest (P(i := C_more (n + 1))) (u\<lparr>que := vs, fetched := fetched u @ [v]\<rparr>)"
proof -
  have "i = 0" using que_rest_points [OF R i] p by auto
  with R p q show ?thesis by (auto simp: que_rest_def)
qed

lemma que_rest_push:
  assumes R: "que_rest P u" and i: "i < 2" and p: "P i = P_push k j" and j: "j < 10"
  shows "que_rest (P(i := P_push k (Suc j))) (u\<lparr>que := que u @ [k * 10 + j]\<rparr>)"
proof -
  have i1: "i = 1" and n: "length (fetched u) + length (que u) = k * 10 + j" "k < 10"
    using que_rest_points [OF R i] p by auto
  have "fetched u @ que u = [0..<k * 10 + j]" using R n by (simp add: que_rest_def)
  then have "fetched u @ que u @ [k * 10 + j] = [0..<Suc (k * 10 + j)]" by simp
  with R i1 n j show ?thesis by (auto simp: que_rest_def)
qed

lemma produced_bound: "produced p n \<Longrightarrow> n \<le> 100"
  by (cases p) auto

lemma que_rest_bound: "que_rest P u \<Longrightarrow> length (fetched u) + length (que u) \<le> 100"
  by (auto simp: que_rest_def dest: produced_bound)

interpretation que: ranked_proof 2 que_task que_holds que_cond que_dirty que_after que_rest que_owner que_rem
proof unfold_locales
  show "que_holds l" if "que_dirty l" for l using that by (cases l) auto
  show "que_owner i (P(i := l')) u'" if "que_owner i P u" "i < 2" "que_task i (P i) u = Do u' l'" for i P u u' l'
    using that by (auto simp: que_owner_def que_task_Do intro: que_rest_pop [simplified] que_rest_push)
  show "que_rem (next_pc (que_task i (P i) u) (P i)) < que_rem (P i)"
    if own: "que_owner i P u" and i: "i < 2" and a: "que_task i (P i) u \<noteq> Do_return" "\<And>l'. que_task i (P i) u \<noteq> Do_lock l'"
    for i P u
  proof -
    have R: "que_rest P u" using own by (simp add: que_owner_def)
    note p = que_rest_points [OF R i] que_rest_bound [OF R]
    show ?thesis
    proof (cases "P i")
      case (C_first c)
      with own have "que u \<noteq> []" by (simp add: que_owner_def)
      with C_first p show ?thesis by (cases "que u") (auto simp: consumer_drain_def)
    next
      case (C_more c)
      with p show ?thesis by (cases "que u") (auto simp: consumer_drain_def)
    next
      case (P_push k j)
      with p show ?thesis by auto
    next
      case (P_loop k)
      with a show ?thesis by (auto split: if_splits)
    qed (use a p in auto)
  qed
qed (auto simp: que_cond_iff que_cond_none que_task_iff que_task_Do que_owner_def dest: que_rest_points que_after_holds intro!: que_rest_keep)

section \<open>Properties\<close>

text \<open>
  C9. The turns are taken in the order of the numbers, however the scheduler runs the coroutines:
  no run takes more than \<open>N * (K + 6)\<close> steps, and when nothing can move every coroutine has
  returned, each has logged once, coroutine \<open>i\<close> as the \<open>i\<close>-th with the sum \<open>(i + 1) * K\<close>. No
  notification is lost and no coroutine waits for ever.
\<close>

theorem turns_in_order:
  assumes "p_run (p_step (turn_run K)) is turn_main = Some s" and "set is \<subseteq> {..<N}"
  shows "length is \<le> N * (K + 6) \<and>
    ((\<forall>i<N. p_step (turn_run K) i s = None) \<longrightarrow>
      (\<forall>i<N. p_at s i = Runs T_done) \<and> t_sum (p_data s) = N * K \<and>
      t_log (p_data s) = map (\<lambda>i. (i, (i + 1) * K)) [0..<N])"
proof (intro conjI impI)
  have "turns.proved N K turn_main" unfolding turn_main_def
    by (rule turns.proved_start) (simp_all add: turn_cond_def turn_rest_def turn_order_def turns_def)
  note run = turns.complete_run [OF assms this]
  show "length is \<le> N * (K + 6)" using run(1) by (simp add: p_rank_def turn_main_def p_start_def)
  assume no: "\<forall>i<N. p_step (turn_run K) i s = None"
  let ?u = "p_data s"
  have R: "t_id ?u \<le> N" "\<And>i. i < N \<Longrightarrow> turn_over (p_points s i) \<longleftrightarrow> i < t_id ?u" "turns K (t_id ?u) ?u"
    using run(2) [OF no] by (auto simp: turn_rest_def turn_order_def)
  have at: "p_at s i = Runs T_done \<or> (p_at s i = Waits (T_loop 0) \<and> i \<noteq> t_id ?u)" if "i < N" for i
  proof -
    have "turn_run K i l ?u = Do_return \<longleftrightarrow> l = T_done" for l by (cases l) auto
    with run(3) [OF no that] show ?thesis by (auto simp: turn_cond_def split: if_splits)
  qed
  have id: "t_id ?u = N"
  proof (rule ccontr)
    assume "t_id ?u \<noteq> N"
    then have lt: "t_id ?u < N" using R(1) by simp
    from at [OF this] R(2) [OF this] show False by auto
  qed
  show ends: "\<forall>i<N. p_at s i = Runs T_done"
  proof (intro allI impI)
    fix i assume i: "i < N"
    with at [OF i] R(2) [OF i] id show "p_at s i = Runs T_done" by auto
  qed
  show "t_sum ?u = N * K" "t_log ?u = map (\<lambda>i. (i, (i + 1) * K)) [0..<N]"
    using R(3) id by (simp_all add: turns_def)
qed

text \<open>Coroutine 1 comes first and has to wait for the notification of coroutine 0.\<close>

theorem turns_in_order_witness:
  "\<exists>s. p_run (p_step (turn_run 1)) [1, 1, 0, 0, 0, 0, 0, 0, 0, 1, 1, 1, 1, 1] turn_main = Some s \<and>
    t_log (p_data s) = [(0, 1), (1, 2)]"
proof -
  obtain s where s: "p_run (p_step (turn_run 1)) [1, 1, 0, 0, 0, 0, 0, 0, 0, 1, 1, 1, 1, 1] turn_main = Some s"
    "p_at s 0 = Runs T_done" "p_at s 1 = Runs T_done"
    by (simp add: turn_main_def p_start_def p_step_def p_put_def mon_wait_def)
  have "p_step (turn_run 1) i s = None" if "i < 2" for i
    using two [OF that] s(2,3) by (auto simp: p_step_def)
  with turns_in_order [OF s(1), of 2] s(1) show ?thesis by (simp add: upt_rec)
qed

text \<open>
  Two coroutines that pass the turn with \<open>notify_one\<close> both finish their \<open>run_cnt\<close> rounds, in
  at most \<open>12 * run_cnt\<close> steps whatever the schedule, and the turn is back at the first: no round
  is lost and neither waits for ever.
\<close>

lemma notify_one_alternates:
  assumes "p_run (p_step notify_one_task) is (swap_main run_cnt) = Some s" and "set is \<subseteq> {..<2}"
  shows "length is \<le> 12 * run_cnt \<and>
    ((\<forall>i<2. p_step notify_one_task i s = None) \<longrightarrow>
      p_at s 0 = Runs (S_loop 0) \<and> p_at s 1 = Runs (S_loop 0) \<and> p_data s = 0)"
proof (intro conjI impI)
  have "swap.proved (swap_main run_cnt)" unfolding swap_main_def
    by (rule swap.proved_start) (simp_all add: swap_rest_def)
  note run = swap.complete_run [OF assms this]
  show "length is \<le> 12 * run_cnt" using run(1) by (simp add: p_rank_def swap_main_def p_start_def)
  assume no: "\<forall>i<2. p_step notify_one_task i s = None"
  have R: "swap_rest (p_points s) (p_data s)" by (rule run(2) [OF no])
  have at: "p_at s i = Runs (S_loop 0) \<or> (\<exists>k. p_at s i = Waits (S_flip k) \<and> 0 < k \<and> i \<noteq> p_data s)" if i: "i < 2" for i
    using run(3) [OF no i] swap_rest_ok [OF i R] by (auto simp: swap_task_iff swap_cond_iff)
  have "p_at s 0 = Runs (S_loop 0) \<and> p_at s 1 = Runs (S_loop 0) \<and> p_data s = 0"
    using at [of 0] at [of 1] R by (auto simp: swap_rest_def)
  then show "p_at s 0 = Runs (S_loop 0)" "p_at s 1 = Runs (S_loop 0)" "p_data s = 0" by auto
qed

lemma notify_one_alternates_witness:
  "\<exists>s. p_run (p_step notify_one_task) [1, 1, 0, 0, 0, 0, 0, 0, 1, 1, 1, 1] (swap_main 1) = Some s \<and>
    p_data s = 0"
proof -
  obtain s where s: "p_run (p_step notify_one_task) [1, 1, 0, 0, 0, 0, 0, 0, 1, 1, 1, 1] (swap_main 1) = Some s"
    "p_at s 0 = Runs (S_loop 0)" "p_at s 1 = Runs (S_loop 0)"
    by (simp add: swap_main_def p_start_def p_step_def p_put_def mon_wait_def)
  have "p_step notify_one_task i s = None" if "i < 2" for i
    using two [OF that] s(2,3) by (auto simp: p_step_def)
  with notify_one_alternates [OF s(1)] s(1) show ?thesis by simp
qed

text \<open>
  C8. The producer and the consumer neither lose nor reorder a value and neither waits for ever: under
  every schedule no run takes more than 643 steps,
  and when nothing can move both coroutines have returned, the consumer has fetched exactly
  0, \<dots>, 99 in this order, and the queue is empty.
\<close>

theorem producer_consumer:
  assumes "p_run (p_step que_task) is que_main = Some s" and "set is \<subseteq> {..<2}"
  shows "length is \<le> 643 \<and>
    ((\<forall>i<2. p_step que_task i s = None) \<longrightarrow>
      p_at s 0 = Runs C_done \<and> p_at s 1 = Runs (P_loop 10) \<and>
      fetched (p_data s) = [0..<100] \<and> que (p_data s) = [])"
proof (intro conjI impI)
  have "que.proved que_main" unfolding que_main_def
    by (rule que.proved_start) (auto simp: que_begin_def que_rest_def que_cond_def)
  note run = que.complete_run [OF assms this]
  show "length is \<le> 643" using run(1) by (simp add: p_rank_def que_main_def p_start_def que_begin_def numeral_2_eq_2)
  assume no: "\<forall>i<2. p_step que_task i s = None"
  let ?u = "p_data s"
  have R: "que_rest (p_points s) ?u" by (rule run(2) [OF no])
  note b = que_rest_bound [OF R]
  have c: "p_at s 0 = Runs C_done \<and> 100 \<le> length (fetched ?u) \<or> que ?u = [] \<and> length (fetched ?u) < 100"
    using run(3) [OF no, of 0] R by (auto simp: que_task_iff que_cond_iff que_rest_def)
  have p: "p_at s 1 = Runs (P_loop 10) \<and> length (fetched ?u) + length (que ?u) = 100 \<or> 10 \<le> length (que ?u)"
    using run(3) [OF no, of 1] R by (auto simp: que_task_iff que_cond_iff que_rest_def)
  have "que ?u = []" using c b by (cases "que ?u") auto
  with p have p1: "p_at s 1 = Runs (P_loop 10)" "length (fetched ?u) = 100" by auto
  with c R \<open>que ?u = []\<close> show "p_at s 0 = Runs C_done" "p_at s 1 = Runs (P_loop 10)"
    "fetched ?u = [0..<100]" "que ?u = []" by (auto simp: que_rest_def)
qed

text \<open>The consumer waits first, the producer fills the queue, the consumer drains it.\<close>

theorem producer_consumer_witness:
  "\<exists>s. p_run (p_step que_task) ([0, 0] @ replicate 14 1 @ replicate 12 0) que_main = Some s \<and>
    length ([0, 0] @ replicate 14 1 @ replicate 12 (0 :: nat)) \<le> 643"
proof -
  have "p_run (p_step que_task) ([0, 0] @ replicate 14 1 @ replicate 12 0) que_main \<noteq> None"
    by (simp add: numeral_eq_Suc que_main_def que_begin_def p_start_def p_step_def p_put_def mon_wait_def consumer_drain_def)
  then obtain s where s: "p_run (p_step que_task) ([0, 0] @ replicate 14 1 @ replicate 12 0) que_main = Some s" by auto
  with producer_consumer [OF s] show ?thesis by auto
qed

end
