(* ===== verification/Std_Programs.thy ===== *)
theory Std_Programs
  imports Std_System Mutex_Programs Cv_Programs
begin

text \<open>
  The threads and coroutines of the benchmarks that use the standard library's mutex and condition
  variable: lab4d_bench.cpp (with the spinlock too) and lab5b_bench.cpp. A blocked
  coroutine blocks its worker, so each is a thread of Std_System: the benchmarks submit at most as
  many tasks as there are workers and deal them round robin.
\<close>

section \<open>Adding under a mutex\<close>

text \<open>\<open>add_tp\<close>, and the coroutines \<open>add\<close> on a \<open>std::mutex\<close> and on a spinlock.\<close>

fun add_tp :: "nat \<Rightarrow> nat \<Rightarrow> bench_pc \<Rightarrow> unit \<Rightarrow> (unit, bench_pc) action" where
  "add_tp loop_num i B_start u = Do_lock (B_loop 0)"
| "add_tp loop_num i (B_loop cnt) u = (if cnt < loop_num then Do u (B_loop (Suc cnt)) else Do_unlock B_done)"
| "add_tp loop_num i B_done u = Do_return"

definition add_std :: "nat \<Rightarrow> nat \<Rightarrow> bench_pc \<Rightarrow> unit \<Rightarrow> (unit, bench_pc) action" where
  "add_std loop_num = add_tp loop_num"

definition add_spin :: "nat \<Rightarrow> nat \<Rightarrow> bench_pc \<Rightarrow> unit \<Rightarrow> (unit, bench_pc) action" where
  "add_spin loop_num = add_tp loop_num"

definition add_bench_main :: "(unit, bench_pc) std_sys" where
  "add_bench_main = std_start (\<lambda>_. B_start) ()"

interpretation std_add: std_program N "add_tp n" bench_holds "\<lambda>_. False" "\<lambda>P u. True"
    "\<lambda>P u. \<Sum>j<N. bench_rem n (P j)" for N n
proof unfold_locales
  show "True \<and> (\<Sum>j<N. bench_rem n ((P(i := next_pc (add_tp n i (P i) u) (P i))) j)) < (\<Sum>j<N. bench_rem n (P j))"
    if "i < N" "std_goes bench_holds (P i) (add_tp n i (P i) u) u" for P i u
  proof -
    have "bench_rem n (next_pc (add_tp n i (P i) u) (P i)) < bench_rem n (P i)"
      using that(2) by (cases "P i") auto
    with sum_move [OF that(1), of "bench_rem n" P] show ?thesis by (metis add_less_cancel_left add.commute)
  qed
qed (auto elim!: add_tp.elims split: if_splits)

section \<open>Taking turns\<close>

text \<open>
  \<open>notify_all_tp\<close>, and the coroutine \<open>notify_all\<close> on the standard library's objects: after the
  call of \<open>mtx.unlock()\<close> the destructor of \<open>lck\<close> unlocks the mutex again.
\<close>

datatype turn_std_pc = N_start | N_wait | N_loop nat | N_notify | N_unlock | N_scope | N_done

fun notify_all_tp :: "nat \<Rightarrow> nat \<Rightarrow> turn_std_pc \<Rightarrow> nat \<Rightarrow> (nat, turn_std_pc) action" where
  "notify_all_tp loop_num i N_start gid = Do_lock N_wait"
| "notify_all_tp loop_num i N_wait gid = Do_wait (\<lambda>gid. i = gid) (N_loop 0)"
| "notify_all_tp loop_num i (N_loop cnt) gid =
     (if cnt < loop_num then Do gid (N_loop (Suc cnt)) else Do (gid + 1) N_notify)"
| "notify_all_tp loop_num i N_notify gid = Do_notify_all N_unlock"
| "notify_all_tp loop_num i N_unlock gid = Do_unlock N_scope"
| "notify_all_tp loop_num i N_scope gid = Do_unlock N_done"
| "notify_all_tp loop_num i N_done gid = Do_return"

definition notify_all_std :: "nat \<Rightarrow> nat \<Rightarrow> turn_std_pc \<Rightarrow> nat \<Rightarrow> (nat, turn_std_pc) action" where
  "notify_all_std loop_num = notify_all_tp loop_num"

definition notify_all_main :: "(nat, turn_std_pc) std_sys" where
  "notify_all_main = std_start (\<lambda>_. N_start) 0"

fun nall_holds :: "turn_std_pc \<Rightarrow> bool" where
  "nall_holds N_start \<longleftrightarrow> False"
| "nall_holds N_scope \<longleftrightarrow> False"
| "nall_holds N_done \<longleftrightarrow> False"
| "nall_holds p \<longleftrightarrow> True"

fun nall_over :: "turn_std_pc \<Rightarrow> bool" where
  "nall_over N_start \<longleftrightarrow> False"
| "nall_over N_wait \<longleftrightarrow> False"
| "nall_over (N_loop k) \<longleftrightarrow> False"
| "nall_over p \<longleftrightarrow> True"

definition nall_inv :: "nat \<Rightarrow> (nat \<Rightarrow> turn_std_pc) \<Rightarrow> nat \<Rightarrow> bool" where
  "nall_inv N P gid \<longleftrightarrow>
     gid \<le> N \<and> (\<forall>i<N. (nall_over (P i) \<longleftrightarrow> i < gid) \<and> P i \<noteq> N_done \<and> (\<forall>k. P i = N_loop k \<longrightarrow> i = gid))"

fun nall_rem :: "nat \<Rightarrow> turn_std_pc \<Rightarrow> nat" where
  "nall_rem K N_start = K + 6"
| "nall_rem K N_wait = K + 5"
| "nall_rem K (N_loop k) = K - k + 4"
| "nall_rem K N_notify = 3"
| "nall_rem K N_unlock = 2"
| "nall_rem K N_scope = 1"
| "nall_rem K N_done = 0"

interpretation std_turns: std_program N "notify_all_tp n" nall_holds "\<lambda>p. p = N_notify" "nall_inv N"
    "\<lambda>P u. \<Sum>j<N. nall_rem n (P j)" for N n
proof unfold_locales
  show "nall_inv N (P(i := next_pc (notify_all_tp n i (P i) u) (P i))) (next_data (notify_all_tp n i (P i) u) u) \<and>
      (\<Sum>j<N. nall_rem n ((P(i := next_pc (notify_all_tp n i (P i) u) (P i))) j)) < (\<Sum>j<N. nall_rem n (P j))"
    if I: "nall_inv N P u" and i: "i < N" and go: "std_goes nall_holds (P i) (notify_all_tp n i (P i) u) u" for P i u
  proof
    have "nall_rem n (next_pc (notify_all_tp n i (P i) u) (P i)) < nall_rem n (P i)"
      using go by (cases "P i") auto
    with sum_move [OF i, of "nall_rem n" P]
    show "(\<Sum>j<N. nall_rem n ((P(i := next_pc (notify_all_tp n i (P i) u) (P i))) j)) < (\<Sum>j<N. nall_rem n (P j))"
      by (metis add_less_cancel_left add.commute)
    show "nall_inv N (P(i := next_pc (notify_all_tp n i (P i) u) (P i))) (next_data (notify_all_tp n i (P i) u) u)"
      using I i go by (cases "P i") (auto simp: nall_inv_def less_Suc_eq)
  qed
qed (auto elim!: notify_all_tp.elims split: if_splits)

section \<open>Passing a token back and forth\<close>

text \<open>
  \<open>notify_one_tp\<close>, and the coroutine \<open>notify_one\<close> on the standard library's objects.
\<close>

fun notify_one_tp :: "nat \<Rightarrow> swap_pc \<Rightarrow> nat \<Rightarrow> (nat, swap_pc) action" where
  "notify_one_tp i (S_loop run_cnt) gid = (if run_cnt > 0 then Do_lock (S_wait run_cnt) else Do_return)"
| "notify_one_tp i (S_wait run_cnt) gid = Do_wait (\<lambda>gid. i = gid) (S_flip run_cnt)"
| "notify_one_tp i (S_flip run_cnt) gid = Do ((gid + 1) mod 2) (S_dec run_cnt)"
| "notify_one_tp i (S_dec run_cnt) gid = Do gid (S_notify (run_cnt - 1))"
| "notify_one_tp i (S_notify run_cnt) gid = Do_notify_one (S_exit run_cnt)"
| "notify_one_tp i (S_exit run_cnt) gid = Do_unlock (S_loop run_cnt)"

definition notify_one_std :: "nat \<Rightarrow> swap_pc \<Rightarrow> nat \<Rightarrow> (nat, swap_pc) action" where
  "notify_one_std = notify_one_tp"

definition notify_one_main :: "nat \<Rightarrow> (nat, swap_pc) std_sys" where
  "notify_one_main run_cnt = std_start (\<lambda>_. S_loop run_cnt) 0"

fun swap_flips :: "swap_pc \<Rightarrow> bool" where
  "swap_flips (S_flip k) \<longleftrightarrow> True"
| "swap_flips p \<longleftrightarrow> False"

definition swap_std_inv :: "(nat \<Rightarrow> swap_pc) \<Rightarrow> nat \<Rightarrow> bool" where
  "swap_std_inv P gid \<longleftrightarrow>
     swap_rest P gid \<and> (swap_flips (P 0) \<longrightarrow> gid = 0) \<and> (swap_flips (P 1) \<longrightarrow> gid = 1)"

lemma swap_std_returns: "notify_one_tp i l u = Do_return \<longleftrightarrow> l = S_loop 0"
  by (cases l) auto

lemma swap_std_waits: "notify_one_tp i l u = Do_wait c m \<longleftrightarrow> (\<exists>k. l = S_wait k \<and> m = S_flip k) \<and> c = (\<lambda>gid. i = gid)"
  by (cases l) auto

interpretation std_swap: std_program 2 notify_one_tp swap_holds swap_dirty swap_std_inv
    "\<lambda>P u. \<Sum>j<2. swap_rem (P j)"
proof unfold_locales
  show "swap_std_inv (P(i := next_pc (notify_one_tp i (P i) u) (P i))) (next_data (notify_one_tp i (P i) u) u) \<and>
      (\<Sum>j<2. swap_rem ((P(i := next_pc (notify_one_tp i (P i) u) (P i))) j)) < (\<Sum>j<2. swap_rem (P j))"
    if I: "swap_std_inv P u" and i: "i < 2" and go: "std_goes swap_holds (P i) (notify_one_tp i (P i) u) u" for P i u
  proof
    have ok: "swap_ok (P i)" using I two [OF i] by (auto simp: swap_std_inv_def swap_rest_def)
    have "swap_rem (next_pc (notify_one_tp i (P i) u) (P i)) < swap_rem (P i)"
      using go ok by (cases "P i") (auto split: if_splits)
    with sum_move [OF i, of swap_rem P]
    show "(\<Sum>j<2. swap_rem ((P(i := next_pc (notify_one_tp i (P i) u) (P i))) j)) < (\<Sum>j<2. swap_rem (P j))"
      by (metis add_less_cancel_left add.commute)
    show "swap_std_inv (P(i := next_pc (notify_one_tp i (P i) u) (P i))) (next_data (notify_one_tp i (P i) u) u)"
      using two [OF i]
    proof
      assume "i = 0"
      with I go ok show ?thesis by (cases "P 0") (auto simp: swap_std_inv_def swap_rest_def split: if_splits)
    next
      assume "i = 1"
      with I go ok show ?thesis by (cases "P 1") (auto simp: swap_std_inv_def swap_rest_def split: if_splits)
    qed
  qed
qed (auto elim!: notify_one_tp.elims elim: swap_dirty.elims split: if_splits)

section \<open>Properties\<close>

lemma add_bench_ends:
  assumes "std_run N (add_tp n) es add_bench_main = Next s" and "list_all (std_of N) es"
  shows "length es \<le> N * (3 * N + 1) * (n + 3) + 2 * N + 4 * std_spurious es"
    and "std_halted N (add_tp n) s \<Longrightarrow> i < N \<Longrightarrow> s_at s i = On B_done"
proof -
  have "std_add.good N n add_bench_main" unfolding add_bench_main_def by (rule std_add.good_start) simp_all
  note r = std_add.run [OF assms this]
  have "std_add.potential N n add_bench_main = N * (3 * N + 1) * (n + 3) + 2 * N"
    by (simp add: std_add.potential_def std_add.points_def add_bench_main_def std_start_def algebra_simps)
  with r show "length es \<le> N * (3 * N + 1) * (n + 3) + 2 * N + 4 * std_spurious es" by simp
  show "s_at s i = On B_done" if h: "std_halted N (add_tp n) s" and i: "i < N"
  proof -
    have "add_tp n i l u = Do_return \<longleftrightarrow> l = B_done" "add_tp n i l u \<noteq> Do_wait c m" for l u c m
      by (cases l; auto)+
    with std_add.halted [OF _ h i] r show ?thesis by auto
  qed
qed

lemma notify_one_std_ends:
  assumes "std_run 2 notify_one_tp es (notify_one_main run_cnt) = Next s" and "list_all (std_of 2) es"
  shows "length es \<le> 84 * run_cnt + 4 + 4 * std_spurious es"
    and "std_halted 2 notify_one_tp s \<Longrightarrow> s_at s 0 = On (S_loop 0) \<and> s_at s 1 = On (S_loop 0) \<and> s_data s = 0"
proof -
  have "std_swap.good (notify_one_main run_cnt)" unfolding notify_one_main_def
    by (rule std_swap.good_start) (simp_all add: swap_std_inv_def swap_rest_def)
  note r = std_swap.run [OF assms this]
  have "std_swap.potential (notify_one_main run_cnt) = 84 * run_cnt + 4"
    unfolding std_swap.potential_def std_swap.points_def notify_one_main_def std_start_def by (simp add: numeral_2_eq_2)
  with r show "length es \<le> 84 * run_cnt + 4 + 4 * std_spurious es" by simp
  assume h: "std_halted 2 notify_one_tp s"
  have I: "swap_std_inv (std_swap.points s) (s_data s)" using std_swap.goodD(5) r by blast
  have "s_at s i = On (S_loop 0) \<or> (\<exists>k. s_at s i = Sleeps (S_wait k)) \<and> s_data s \<noteq> i" if "i < 2" for i
    using std_swap.halted [OF _ h that] r by (auto simp: swap_std_returns swap_std_waits)
  from this [of 0] this [of 1] I
  show "s_at s 0 = On (S_loop 0) \<and> s_at s 1 = On (S_loop 0) \<and> s_data s = 0"
    by (auto simp: swap_std_inv_def swap_rest_def std_swap.points_def)
qed

text \<open>
  The base line of the notify-all benchmark cannot be run to its end: in every schedule of
  \<open>N\<close> threads, spurious wake-ups included, no thread comes to the end of its body, and as long as
  no step was undefined some thread can move; since the number of steps is bounded, every maximal
  schedule ends in the undefined behaviour of unlocking a mutex that is not owned.
\<close>

lemma notify_all_unlocks_twice:
  assumes "std_run N (notify_all_std n) es notify_all_main = Next s" and "list_all (std_of N) es" and "0 < N"
  shows "length es \<le> N * (3 * N + 1) * (n + 6) + 2 * N + 4 * std_spurious es \<and>
    (\<forall>i<N. s_at s i \<noteq> On N_done) \<and> \<not> std_halted N (notify_all_std n) s"
proof -
  have "std_turns.good N n notify_all_main" unfolding notify_all_main_def
    by (rule std_turns.good_start) (simp_all add: nall_inv_def)
  note r = std_turns.run [OF assms(1) [unfolded notify_all_std_def] assms(2) this]
  have "std_turns.potential N n notify_all_main = N * (3 * N + 1) * (n + 6) + 2 * N"
    by (simp add: std_turns.potential_def std_turns.points_def notify_all_main_def std_start_def algebra_simps)
  with r have len: "length es \<le> N * (3 * N + 1) * (n + 6) + 2 * N + 4 * std_spurious es" by simp
  have I: "nall_inv N (std_turns.points s) (s_data s)" using std_turns.goodD(5) r by blast
  then have nd: "\<forall>i<N. s_at s i \<noteq> On N_done" by (auto simp: nall_inv_def std_turns.points_def)
  have "\<not> std_halted N (notify_all_tp n) s"
  proof
    assume h: "std_halted N (notify_all_tp n) s"
    have code: "notify_all_tp n i l u = Do_return \<longleftrightarrow> l = N_done"
      "notify_all_tp n i l u = Do_wait c m \<longleftrightarrow> l = N_wait \<and> m = N_loop 0 \<and> c = (\<lambda>gid. i = gid)" for i l u c m
      by (cases l; auto)+
    have asleep: "s_at s i = Sleeps N_wait \<and> s_data s \<noteq> i" if "i < N" for i
      using std_turns.halted [OF _ h that] r nd that by (auto simp: code)
    then have "\<not> i < s_data s" if "i < N" for i
      using I that by (auto simp: nall_inv_def std_turns.points_def)
    with asleep assms(3) show False by blast
  qed
  with len nd show ?thesis by (simp add: notify_all_std_def)
qed

text \<open>One thread, which comes to the end of the scope of its lock; its next step is undefined.\<close>

lemma notify_all_unlocks_twice_witness:
  "\<exists>s. std_run 1 (notify_all_std 0) (replicate 5 (Go 0 0)) notify_all_main = Next s \<and>
     \<not> std_halted 1 (notify_all_std 0) s \<and>
     std_run 1 (notify_all_std 0) (replicate 6 (Go 0 0)) notify_all_main = Undefined"
proof -
  obtain s where s: "std_run 1 (notify_all_std 0) (replicate 5 (Go 0 0)) notify_all_main = Next s"
    by (simp add: notify_all_std_def notify_all_main_def std_start_def eval_nat_numeral)
  have u: "std_run 1 (notify_all_std 0) (replicate 6 (Go 0 0)) notify_all_main = Undefined"
    by (simp add: notify_all_std_def notify_all_main_def std_start_def eval_nat_numeral)
  from notify_all_unlocks_twice [OF s] s u show ?thesis by (simp add: eval_nat_numeral)
qed

end
