(* ===== verification/Std_Channel.thy ===== *)
theory Std_Channel
  imports Std_System
begin

text \<open>
  The producer and the consumer of benchtests/lab5c_bench.cpp that share a queue under the standard
  library's mutex and condition variable, each a thread of its own.
\<close>

section \<open>The channel of the base line\<close>

text \<open>
  \<open>channel_producer_tp\<close> and \<open>channel_consumer_tp\<close>, thread 0 and thread 1: what is sent is
  \<open>v\<close>, \<open>bench_str\<close> or \<open>return_type{}\<close>; the counters are the local \<open>total_num\<close>, \<open>cnt\<close> and
  \<open>i\<close>.
\<close>

definition capacity :: nat where
  "capacity = 16"

datatype chan_pc =
  P_loop nat | P_wait nat | P_cnt nat | P_push nat nat nat | P_notify nat | P_exit nat
| C_loop nat | C_wait nat | C_pop nat | C_notify nat | C_exit nat

fun producer_code :: "'a \<Rightarrow> chan_pc \<Rightarrow> 'a list \<Rightarrow> ('a list, chan_pc) action" where
  "producer_code v (P_loop total_num) qs = (if total_num > 0 then Do_lock (P_wait total_num) else Do_return)"
| "producer_code v (P_wait total_num) qs = Do_wait (\<lambda>qs. length qs < capacity) (P_cnt total_num)"
| "producer_code v (P_cnt total_num) qs =
     (let cnt = capacity - length qs in
      Do qs (P_push total_num (if total_num < cnt then total_num else cnt) 0))"
| "producer_code v (P_push total_num cnt i) qs =
     (if i < cnt then Do (qs @ [v]) (P_push total_num cnt (Suc i)) else Do qs (P_notify (total_num - cnt)))"
| "producer_code v (P_notify total_num) qs = Do_notify_all (P_exit total_num)"
| "producer_code v (P_exit total_num) qs = Do_unlock (P_loop total_num)"
| "producer_code v p qs = Do_return"

fun consumer_code :: "chan_pc \<Rightarrow> 'a list \<Rightarrow> ('a list, chan_pc) action" where
  "consumer_code (C_loop total_num) qs = (if total_num > 0 then Do_lock (C_wait total_num) else Do_return)"
| "consumer_code (C_wait total_num) qs = Do_wait (\<lambda>qs. qs \<noteq> []) (C_pop total_num)"
| "consumer_code (C_pop total_num) qs =
     (if qs \<noteq> [] then Do (tl qs) (C_pop (total_num - 1)) else Do qs (C_notify total_num))"
| "consumer_code (C_notify total_num) qs = Do_notify_all (C_exit total_num)"
| "consumer_code (C_exit total_num) qs = Do_unlock (C_loop total_num)"
| "consumer_code p qs = Do_return"

fun in_producer :: "chan_pc \<Rightarrow> bool" where
  "in_producer (P_loop t) \<longleftrightarrow> True"
| "in_producer (P_wait t) \<longleftrightarrow> True"
| "in_producer (P_cnt t) \<longleftrightarrow> True"
| "in_producer (P_push t cnt i) \<longleftrightarrow> True"
| "in_producer (P_notify t) \<longleftrightarrow> True"
| "in_producer (P_exit t) \<longleftrightarrow> True"
| "in_producer p \<longleftrightarrow> False"

definition channel_code :: "'a \<Rightarrow> nat \<Rightarrow> chan_pc \<Rightarrow> 'a list \<Rightarrow> ('a list, chan_pc) action" where
  "channel_code v i p qs = (if in_producer p then producer_code v p qs else consumer_code p qs)"

definition channel_main :: "nat \<Rightarrow> ('a list, chan_pc) std_sys" where
  "channel_main loop_num =
     std_start (\<lambda>i. if i = 0 then P_loop (loop_num * capacity) else C_loop (loop_num * capacity)) []"

text \<open>
  The coroutines \<open>channel_producer\<close> and \<open>channel_consumer\<close> on the standard library's objects have the
  same bodies and block the worker they run on; \<open>channel_bench\<close> submits one of each.
\<close>

definition producer_coro :: "'a \<Rightarrow> chan_pc \<Rightarrow> 'a list \<Rightarrow> ('a list, chan_pc) action" where
  "producer_coro = producer_code"

definition consumer_coro :: "chan_pc \<Rightarrow> 'a list \<Rightarrow> ('a list, chan_pc) action" where
  "consumer_coro = consumer_code"

definition channel_coro_main :: "nat \<Rightarrow> ('a list, chan_pc) std_sys" where
  "channel_coro_main = channel_main"

fun chan_holds :: "chan_pc \<Rightarrow> bool" where
  "chan_holds (P_loop t) \<longleftrightarrow> False"
| "chan_holds (C_loop t) \<longleftrightarrow> False"
| "chan_holds p \<longleftrightarrow> True"

fun chan_dirty :: "chan_pc \<Rightarrow> bool" where
  "chan_dirty (P_push t cnt k) \<longleftrightarrow> True"
| "chan_dirty (P_notify t) \<longleftrightarrow> True"
| "chan_dirty (C_pop t) \<longleftrightarrow> True"
| "chan_dirty (C_notify t) \<longleftrightarrow> True"
| "chan_dirty p \<longleftrightarrow> False"

text \<open>What the producer still has to push, and what the consumer still has to pop.\<close>

fun to_push :: "chan_pc \<Rightarrow> nat \<Rightarrow> nat option" where
  "to_push (P_loop t) n = Some t"
| "to_push (P_wait t) n = (if 0 < t then Some t else None)"
| "to_push (P_cnt t) n = (if 0 < t \<and> n < capacity then Some t else None)"
| "to_push (P_push t cnt k) n =
     (if 0 < cnt \<and> k \<le> cnt \<and> cnt \<le> t \<and> n + (cnt - k) \<le> capacity then Some (t - k) else None)"
| "to_push (P_notify t) n = Some t"
| "to_push (P_exit t) n = Some t"
| "to_push p n = None"

fun to_pop :: "chan_pc \<Rightarrow> nat option" where
  "to_pop (C_loop t) = Some t"
| "to_pop (C_wait t) = (if 0 < t then Some t else None)"
| "to_pop (C_pop t) = Some t"
| "to_pop (C_notify t) = Some t"
| "to_pop (C_exit t) = Some t"
| "to_pop p = None"

definition chan_inv :: "(nat \<Rightarrow> chan_pc) \<Rightarrow> 'a list \<Rightarrow> bool" where
  "chan_inv P qs \<longleftrightarrow>
     length qs \<le> capacity \<and>
     (\<exists>m. to_push (P 0) (length qs) = Some m \<and> to_pop (P 1) = Some (length qs + m))"

fun producer_rem :: "chan_pc \<Rightarrow> nat" where
  "producer_rem (P_loop t) = 7 * t"
| "producer_rem (P_wait t) = 7 * t - 1"
| "producer_rem (P_cnt t) = 7 * t - 2"
| "producer_rem (P_push t cnt k) = 7 * (t - cnt) + 3 + (cnt - k)"
| "producer_rem (P_notify t) = 7 * t + 2"
| "producer_rem (P_exit t) = 7 * t + 1"
| "producer_rem p = 0"

fun consumer_rem :: "chan_pc \<Rightarrow> nat \<Rightarrow> nat" where
  "consumer_rem (C_loop t) n = 6 * t"
| "consumer_rem (C_wait t) n = 6 * t - 1"
| "consumer_rem (C_pop t) n = (if n = 0 then 6 * t + 3 else 6 * t - 2)"
| "consumer_rem (C_notify t) n = 6 * t + 2"
| "consumer_rem (C_exit t) n = 6 * t + 1"
| "consumer_rem p n = 0"

definition chan_rank :: "(nat \<Rightarrow> chan_pc) \<Rightarrow> 'a list \<Rightarrow> nat" where
  "chan_rank P qs = producer_rem (P 0) + consumer_rem (P 1) (length qs)"

lemma to_push_less: "to_push p (Suc n) = Some m \<Longrightarrow> to_push p n = Some m"
  by (cases p) (auto split: if_splits)

lemma producer_moves:
  assumes I: "chan_inv P qs" and go: "std_goes chan_holds (P 0) (producer_code v (P 0) qs) qs"
  shows "chan_inv (P(0 := next_pc (producer_code v (P 0) qs) (P 0))) (next_data (producer_code v (P 0) qs) qs) \<and>
    chan_rank (P(0 := next_pc (producer_code v (P 0) qs) (P 0))) (next_data (producer_code v (P 0) qs) qs)
      < chan_rank P qs"
proof (cases "P 0")
  case (P_push t cnt k)
  have "consumer_rem (P 1) (Suc (length qs)) \<le> consumer_rem (P 1) (length qs)" by (cases "P 1") auto
  with P_push I show ?thesis by (auto simp: chan_inv_def chan_rank_def split: if_splits)
qed (use I go in \<open>auto simp: chan_inv_def chan_rank_def Let_def split: if_splits\<close>)

lemma consumer_moves:
  assumes I: "chan_inv P qs" and go: "std_goes chan_holds (P 1) (consumer_code (P 1) qs) qs"
  shows "chan_inv (P(1 := next_pc (consumer_code (P 1) qs) (P 1))) (next_data (consumer_code (P 1) qs) qs) \<and>
    chan_rank (P(1 := next_pc (consumer_code (P 1) qs) (P 1))) (next_data (consumer_code (P 1) qs) qs)
      < chan_rank P qs"
proof -
  obtain m where m: "length qs \<le> capacity" "to_push (P 0) (length qs) = Some m" "to_pop (P 1) = Some (length qs + m)"
    using I by (auto simp: chan_inv_def)
  show ?thesis
  proof (cases "P 1")
    case (C_pop t)
    show ?thesis
    proof (cases qs)
      case Nil
      with C_pop m show ?thesis by (simp add: chan_inv_def chan_rank_def)
    next
      case (Cons x xs)
      have push: "to_push (P 0) (length xs) = Some m" by (rule to_push_less) (use m(2) Cons in simp)
      have t: "t = Suc (length xs + m)" using m(3) C_pop Cons by simp
      have code: "consumer_code (P 1) qs = Do xs (C_pop (length xs + m))" using C_pop Cons t by simp
      have "chan_inv (P(1 := C_pop (length xs + m))) xs"
        using push m(1) Cons by (simp add: chan_inv_def)
      moreover have "consumer_rem (C_pop (length xs + m)) (length xs) < consumer_rem (P 1) (length qs)"
        using C_pop Cons t by auto
      ultimately show ?thesis unfolding code by (simp add: chan_rank_def)
    qed
  next
    case (C_wait t)
    then show ?thesis using m go by (cases qs) (auto simp: chan_inv_def chan_rank_def split: if_splits)
  qed (use m go in \<open>simp_all add: chan_inv_def chan_rank_def split: if_splits\<close>)
qed

lemma producer_iff:
  "producer_code v p qs = Do_lock q \<longleftrightarrow> (\<exists>t. p = P_loop t \<and> 0 < t \<and> q = P_wait t)"
  "producer_code v p qs = Do_wait c q \<longleftrightarrow> (\<exists>t. p = P_wait t \<and> q = P_cnt t) \<and> c = (\<lambda>qs. length qs < capacity)"
  "producer_code v p qs \<noteq> Do_notify_one q"
  "producer_code v p qs = Do_notify_all q \<longleftrightarrow> (\<exists>t. p = P_notify t \<and> q = P_exit t)"
  "producer_code v p qs = Do_unlock q \<longleftrightarrow> (\<exists>t. p = P_exit t \<and> q = P_loop t)"
  by (cases p; auto simp: Let_def)+

lemma consumer_iff:
  "consumer_code p qs = Do_lock q \<longleftrightarrow> (\<exists>t. p = C_loop t \<and> 0 < t \<and> q = C_wait t)"
  "consumer_code p qs = Do_wait c q \<longleftrightarrow> (\<exists>t. p = C_wait t \<and> q = C_pop t) \<and> c = (\<lambda>qs. qs \<noteq> [])"
  "consumer_code p qs \<noteq> Do_notify_one q"
  "consumer_code p qs = Do_notify_all q \<longleftrightarrow> (\<exists>t. p = C_notify t \<and> q = C_exit t)"
  "consumer_code p qs = Do_unlock q \<longleftrightarrow> (\<exists>t. p = C_exit t \<and> q = C_loop t)"
  by (cases p; auto)+

lemma channel_iff:
  "channel_code v i p qs = Do_lock q \<longleftrightarrow>
     (\<exists>t. p = P_loop t \<and> 0 < t \<and> q = P_wait t) \<or> (\<exists>t. p = C_loop t \<and> 0 < t \<and> q = C_wait t)"
  "channel_code v i p qs = Do_wait c q \<longleftrightarrow>
     (\<exists>t. p = P_wait t \<and> q = P_cnt t) \<and> c = (\<lambda>qs. length qs < capacity) \<or>
     (\<exists>t. p = C_wait t \<and> q = C_pop t) \<and> c = (\<lambda>qs. qs \<noteq> [])"
  "channel_code v i p qs = Do_notify_one q \<longleftrightarrow> False"
  "channel_code v i p qs = Do_notify_all q \<longleftrightarrow>
     (\<exists>t. p = P_notify t \<and> q = P_exit t) \<or> (\<exists>t. p = C_notify t \<and> q = C_exit t)"
  "channel_code v i p qs = Do_unlock q \<longleftrightarrow>
     (\<exists>t. p = P_exit t \<and> q = P_loop t) \<or> (\<exists>t. p = C_exit t \<and> q = C_loop t)"
  "channel_code v i p qs = Do_return \<longleftrightarrow> p = P_loop 0 \<or> p = C_loop 0"
  by (cases p; auto simp: channel_code_def Let_def)+

lemma channel_access: "channel_code v i p qs = Do qs' q \<Longrightarrow> chan_holds p \<and> chan_dirty q"
  by (cases p) (auto simp: channel_code_def Let_def split: if_splits)

lemma chan_dirty_holds: "chan_dirty p \<Longrightarrow> chan_holds p"
  by (cases p) auto

lemma chan_points: "chan_inv P qs \<Longrightarrow> in_producer (P 0) \<and> \<not> in_producer (P 1)"
  by (cases "P 0"; cases "P 1") (auto simp: chan_inv_def)

interpretation std_chan: std_program 2 "channel_code v" chan_holds chan_dirty chan_inv chan_rank for v
proof unfold_locales
  show "chan_inv (P(i := next_pc (channel_code v i (P i) u) (P i))) (next_data (channel_code v i (P i) u) u) \<and>
      chan_rank (P(i := next_pc (channel_code v i (P i) u) (P i))) (next_data (channel_code v i (P i) u) u) < chan_rank P u"
    if "chan_inv P u" "i < 2" "std_goes chan_holds (P i) (channel_code v i (P i) u) u" for P i u
  proof -
    have "i = 0 \<or> i = 1" using that(2) by auto
    then show ?thesis
      using that(1,3) chan_points [OF that(1)] producer_moves [of P u v] consumer_moves [of P u]
      by (auto simp: channel_code_def)
  qed
  show "chan_holds l' = chan_holds l \<and> (u' \<noteq> u \<longrightarrow> chan_holds l) \<and>
      (chan_dirty l \<or> (\<exists>j k c m. channel_code v j k u = Do_wait c m \<and> c u' \<and> \<not> c u) \<longrightarrow> chan_dirty l')"
    if "channel_code v i l u = Do u' l'" for i l u u' l'
    using channel_access [OF that] chan_dirty_holds by blast
qed (auto simp: channel_iff chan_dirty_holds)

section \<open>Property\<close>

text \<open>
  The producer and the consumer of the base line always come to their end: in every schedule of
  the two threads, spurious wake-ups included, no step is undefined, the number of steps is bounded,
  the queue never holds more than 16 elements, and when neither can move both loops have counted
  down to 0 and the queue is empty.
\<close>

lemma channel_base_line_ends:
  assumes "list_all (std_of 2) es" and "std_run 2 (channel_code v) es (channel_main loop_num) = Next s"
  shows "length es \<le> 1456 * loop_num + 4 + 4 * std_spurious es \<and> length (s_data s) \<le> capacity \<and>
    (std_halted 2 (channel_code v) s \<longrightarrow>
      s_at s 0 = On (P_loop 0) \<and> s_at s 1 = On (C_loop 0) \<and> s_data s = [])"
proof -
  have start: "std_chan.good v (channel_main loop_num)" unfolding channel_main_def
    by (rule std_chan.good_start) (simp_all add: chan_inv_def)
  note r = std_chan.run [OF assms(2,1) start]
  have "std_chan.potential (channel_main loop_num :: ('a list, chan_pc) std_sys) = 1456 * loop_num + 4"
    unfolding std_chan.potential_def std_chan.points_def channel_main_def std_start_def
    by (simp add: numeral_2_eq_2 chan_rank_def capacity_def)
  with r have len: "length es \<le> 1456 * loop_num + 4 + 4 * std_spurious es" by simp
  have I: "chan_inv (std_chan.points s) (s_data s)" using std_chan.goodD(5) [of v s] r by simp
  then have cap: "length (s_data s) \<le> capacity" by (simp add: chan_inv_def)
  have ends: "s_at s 0 = On (P_loop 0) \<and> s_at s 1 = On (C_loop 0) \<and> s_data s = []"
    if h: "std_halted 2 (channel_code v) s"
  proof -
    note p = chan_points [OF I]
    have "s_at s 0 = On (P_loop 0) \<or> (\<exists>t. s_at s 0 = Sleeps (P_wait t)) \<and> length (s_data s) \<ge> capacity"
      using std_chan.halted [OF _ h, of 0] r p by (auto simp: channel_iff std_chan.points_def)
    moreover have "s_at s 1 = On (C_loop 0) \<or> (\<exists>t. s_at s 1 = Sleeps (C_wait t)) \<and> s_data s = []"
      using std_chan.halted [OF _ h, of 1] r p by (auto simp: channel_iff std_chan.points_def)
    ultimately show ?thesis using I
      by (auto simp: chan_inv_def std_chan.points_def capacity_def split: if_splits)
  qed
  with len cap show ?thesis by blast
qed

text \<open>The consumer first waits for the producer, which then fills the queue.\<close>

lemma channel_base_line_ends_witness:
  "\<exists>s. std_run 2 (channel_code (0 :: int)) (replicate 2 (Go 1 1) @ replicate 4 (Go 0 0)) (channel_main 1) = Next s \<and>
     length (s_data s) \<le> capacity \<and> s_data s \<noteq> []"
proof -
  let ?es = "replicate 2 (Go 1 1) @ replicate 4 (Go 0 0)"
  obtain s where s: "std_run 2 (channel_code (0 :: int)) ?es (channel_main 1) = Next s" "s_data s = [0]"
    by (simp add: channel_main_def channel_code_def std_start_def capacity_def eval_nat_numeral Let_def)
  from channel_base_line_ends [OF _ s(1)] s show ?thesis by (simp add: eval_nat_numeral)
qed

end
