(* ===== verification/Latch.thy ===== *)
theory Latch
  imports Event
begin

text \<open>
  \<open>coro::latch\<close> and \<open>coro::latch_guard\<close> (include/coro/comp/latch.hpp): an event that is set
  when a counter has been taken down to zero. The counter is a signed 64-bit atomic that is
  initialised from an unsigned count.
\<close>

section \<open>State and operations\<close>

record latch =
  latch_ev :: event_base
  latch_count :: u64

definition new_latch :: "addr \<Rightarrow> u64 \<Rightarrow> latch" where
  "new_latch self cnt = \<lparr>latch_ev = new_event self (cnt \<le> 0), latch_count = cnt\<rparr>"

definition count_down ::
    "nat \<Rightarrow> 'q queue_ops \<Rightarrow> latch \<Rightarrow> ('q, 'v, 'm) world \<Rightarrow> (latch \<times> ('q, 'v, 'm) world) res" where
  "count_down fuel Q l w =
     (case fetch_sub (latch_count l) 1 of (old, new) \<Rightarrow>
        let l1 = l\<lparr>latch_count := new\<rparr> in
        if sint old \<le> 1
        then bindE (set_state fuel Q (latch_ev l1) w) (\<lambda>(ev, w1). Inr (l1\<lparr>latch_ev := ev\<rparr>, w1))
        else Inr (l1, w))"

text \<open>\<open>wait\<close> makes the awaiter of the event; \<open>latch_guard\<close> counts down when it dies.\<close>

definition latch_wait :: "nat \<Rightarrow> addr \<Rightarrow> ('q, 'v, unit) world \<Rightarrow> ('q, 'v, unit) world" where
  "latch_wait i a w = event_wait i a w"

definition latch_guard_dtor ::
    "nat \<Rightarrow> 'q queue_ops \<Rightarrow> latch \<Rightarrow> ('q, 'v, 'm) world \<Rightarrow> (latch \<times> ('q, 'v, 'm) world) res" where
  "latch_guard_dtor fuel Q l w = count_down fuel Q l w"

fun count_downs ::
    "nat \<Rightarrow> 'q queue_ops \<Rightarrow> nat \<Rightarrow> latch \<Rightarrow> ('q, 'v, 'm) world \<Rightarrow> (latch \<times> ('q, 'v, 'm) world) res" where
  "count_downs fuel Q 0 l w = Inr (l, w)"
| "count_downs fuel Q (Suc k) l w =
     bindE (count_down fuel Q l w) (\<lambda>(l1, w1). count_downs fuel Q k l1 w1)"

section \<open>Counting\<close>

lemma count_downs_before:
  "int k < z \<Longrightarrow> z < 2 ^ 63 \<Longrightarrow> latch_count l = word_of_int z \<Longrightarrow>
   count_downs fuel Q k l w = Inr (l\<lparr>latch_count := word_of_int (z - int k)\<rparr>, w)"
proof (induction k arbitrary: z l)
  case 0
  then show ?case by simp
next
  case (Suc k)
  then have "sint (latch_count l) = z" by (simp add: sint_word_of_int)
  with Suc.prems have "count_down fuel Q l w = Inr (l\<lparr>latch_count := word_of_int (z - 1)\<rparr>, w)"
    by (simp add: count_down_def atomic_defs)
  with Suc.IH [where z = "z - 1" and l = "l\<lparr>latch_count := word_of_int (z - 1)\<rparr>"] Suc.prems
  show ?case by simp
qed

lemma count_downs_after:
  "is_set (latch_ev l) \<Longrightarrow> z \<le> 1 \<Longrightarrow> - (2 ^ 63) \<le> z - int k \<Longrightarrow> latch_count l = word_of_int z \<Longrightarrow>
   count_downs fuel Q k l w = Inr (l\<lparr>latch_count := word_of_int (z - int k)\<rparr>, w)"
proof (induction k arbitrary: z l)
  case 0
  then show ?case by simp
next
  case (Suc k)
  then have "sint (latch_count l) = z" by (simp add: sint_word_of_int)
  moreover have "set_state fuel Q (latch_ev l) w = Inr (latch_ev l, w)"
    using ev.switch_again [of "(latch_ev l, w)" fuel Q] Suc.prems(1) by simp
  ultimately have "count_down fuel Q l w = Inr (l\<lparr>latch_count := word_of_int (z - 1)\<rparr>, w)"
    using Suc.prems by (simp add: count_down_def atomic_defs)
  with Suc.IH [where z = "z - 1" and l = "l\<lparr>latch_count := word_of_int (z - 1)\<rparr>"] Suc.prems
  show ?case by simp
qed

lemma count_downs_add:
  "count_downs fuel Q (j + k) l w = bindE (count_downs fuel Q j l w) (\<lambda>(l1, w1). count_downs fuel Q k l1 w1)"
proof (induction j arbitrary: l w)
  case 0
  then show ?case by simp
next
  case (Suc j)
  then show ?case by (cases "count_down fuel Q l w") auto
qed

section \<open>Properties\<close>

text \<open>
  A latch of count \<open>n\<close> opens at the \<open>n\<close>-th count-down and not before: the first
  \<open>n - 1\<close> wake nobody, the \<open>n\<close>-th sets the event and submits every parked coroutine to its
  context, and further ones change nothing but the counter.
\<close>

lemma latch_opens_at_zero:
  assumes "latch_count l = word_of_int (int n)" "0 < n" "int n < 2 ^ 63"
    and "parked_on as (latch_ev l) w" "length as < fuel" "room_for Q ql as w" "int m \<le> 2 ^ 63"
  shows "count_downs fuel Q (n - 1) l w = Inr (l\<lparr>latch_count := 1\<rparr>, w) \<and>
    (\<exists>l1 w1. count_downs fuel Q n l w = Inr (l1, w1) \<and> is_set (latch_ev l1) \<and>
      (\<forall>i. queued ql w1 i = queued ql w i @ handles_for i w as) \<and>
      (\<exists>c. count_downs fuel Q (n + m) l w = Inr (l1\<lparr>latch_count := c\<rparr>, w1)))"
proof -
  have pre: "count_downs fuel Q (n - 1) l w = Inr (l\<lparr>latch_count := 1\<rparr>, w)"
    using count_downs_before [of "n - 1" "int n" l] assms by simp
  obtain w1 where w1: "submit_waiters Q as w = Inr w1" using submit_waiters_total assms(6) by blast
  have run: "\<forall>i. context_running Q ql (ctx_of w i)" using assms(6) by (simp add: room_for_def)
  let ?ev = "(latch_ev l)\<lparr>m_state := ev_this (latch_ev l)\<rparr>"
  let ?l1 = "l\<lparr>latch_count := 0, latch_ev := ?ev\<rparr>"
  have last: "count_down fuel Q (l\<lparr>latch_count := 1\<rparr>) w = Inr (?l1, w1)"
    using set_state_parked [OF assms(4,5), of Q] w1 by (simp add: count_down_def atomic_defs)
  have n: "n = (n - 1) + 1" using assms(2) by simp
  have at_n: "count_downs fuel Q n l w = Inr (?l1, w1)"
    by (subst n, subst count_downs_add) (simp add: pre [simplified] last)
  have set1: "is_set (latch_ev ?l1)" by (simp add: is_set_def)
  have "count_downs fuel Q m ?l1 w1 = Inr (?l1\<lparr>latch_count := word_of_int (0 - int m)\<rparr>, w1)"
    by (rule count_downs_after [OF set1]) (use assms(7) in simp_all)
  then have after: "count_downs fuel Q (n + m) l w = Inr (?l1\<lparr>latch_count := word_of_int (0 - int m)\<rparr>, w1)"
    by (simp add: count_downs_add at_n)
  have q: "\<forall>i. queued ql w1 i = queued ql w i @ handles_for i w as"
    using submit_waiters_queued [OF run w1] by blast
  show ?thesis using pre at_n set1 q after by blast
qed

definition demo_latch_world :: "(handle list, nat, unit) world" where
  "demo_latch_world = set_next 4 0 demo_world"

lemma latch_opens_at_zero_witness:
  "\<exists>l1 w1. count_downs 2 list_queue 3 \<lparr>latch_ev = \<lparr>ev_this = 1, m_state = 4\<rparr>, latch_count = 3\<rparr>
       demo_latch_world = Inr (l1, w1) \<and> is_set (latch_ev l1) \<and> queued (\<lambda>q. q) w1 0 = [104]"
proof -
  have room: "room_for list_queue (\<lambda>q. q) [4] demo_latch_world"
    using demo_context_running demo_context_queue
    by (simp add: room_for_def demo_latch_world_def demo_world_def kQueCap_def new_waiter_def set_next_def)
  have p: "parked_on [4] \<lparr>ev_this = 1, m_state = 4\<rparr> demo_latch_world"
    by (simp add: parked_on_def demo_latch_world_def)
  obtain l1 w1 where
    "count_downs 2 list_queue 3 \<lparr>latch_ev = \<lparr>ev_this = 1, m_state = 4\<rparr>, latch_count = 3\<rparr>
       demo_latch_world = Inr (l1, w1)" "is_set (latch_ev l1)"
    and q: "\<forall>i. queued (\<lambda>q. q) w1 i = queued (\<lambda>q. q) demo_latch_world i @ handles_for i demo_latch_world [4]"
    using latch_opens_at_zero [of "\<lparr>latch_ev = \<lparr>ev_this = 1, m_state = 4\<rparr>, latch_count = 3\<rparr>" 3 "[4]"
        demo_latch_world 2 list_queue "\<lambda>q. q" 0] room p by auto
  moreover have "queued (\<lambda>q. q) w1 0 = [104]"
    using q demo_context_queue by (simp add: demo_latch_world_def demo_world_def new_waiter_def)
  ultimately show ?thesis by blast
qed

text \<open>
  The counter is signed but the count is not: a latch made with a count of \<open>2 ^ 63\<close> or more
  is closed, and its first count-down already sets the event.
\<close>

lemma huge_latch_opens_at_once:
  assumes "2 ^ 63 \<le> unat c" and "self \<noteq> nullptr"
  shows "\<not> is_set (latch_ev (new_latch self c)) \<and>
    (\<exists>l. count_down (Suc fuel) Q (new_latch self c) w = Inr (l, w) \<and> is_set (latch_ev l))"
proof -
  have c0: "c \<noteq> 0" using assms(1) by auto
  have "unat c < 2 * 2 ^ 63" using unsigned_less [of c, where ?'a = nat] by simp
  then have "unat c div 2 ^ 63 = 1" using assms(1) by (simp add: div_nat_eqI)
  then have "bit (unat c) 63" by (simp add: bit_iff_odd)
  then have "bit c 63" by (simp add: bit_unsigned_iff)
  then have "sint c < 0" using bit_last_iff [of c] by simp
  then show ?thesis
    using c0 assms(2)
    by (simp add: new_latch_def new_event_def is_set_def count_down_def atomic_defs set_state_def
        word_le_0_iff)
qed

lemma huge_latch_opens_at_once_witness:
  "\<exists>l. count_down (Suc 0) list_queue (new_latch 1 0xFFFFFFFFFFFFFFFF) demo_world = Inr (l, demo_world) \<and>
     is_set (latch_ev l)"
  using huge_latch_opens_at_once [of "0xFFFFFFFFFFFFFFFF" 1 0 list_queue demo_world] by simp

end
