(* ===== verification/Wait_Group.thy ===== *)
theory Wait_Group
  imports Event
begin

text \<open>
  \<open>coro::wait_group\<close> (include/coro/comp/wait_group.hpp, src/comp/wait_group.cpp): a signed
  32-bit counter and a list of coroutines that wait for it to become zero. As for the event, the
  operations come first as functions and then as steps that interleave.
\<close>

section \<open>State and operations\<close>

record wait_group =
  wg_count :: "32 word"
  wg_state :: addr

definition new_wait_group :: "32 word \<Rightarrow> wait_group" where
  "new_wait_group cnt = \<lparr>wg_count = cnt, wg_state = nullptr\<rparr>"

definition wg_wait :: "nat \<Rightarrow> addr \<Rightarrow> ('q, 'v, unit) world \<Rightarrow> ('q, 'v, unit) world" where
  "wg_wait i a w = w\<lparr>waiters := (waiters w)(a := new_waiter i)\<rparr>"

text \<open>What \<open>await_suspend\<close> does before its loop, and the accesses of one round of the loop.\<close>

definition wg_prepare :: "addr \<Rightarrow> handle \<Rightarrow> ('q, 'v, 'm) world \<Rightarrow> ('q, 'v, 'm) world" where
  "wg_prepare a h w = waiter_register 1 a (set_coro a h w)"

definition wg_is_done :: "wait_group \<Rightarrow> bool" where
  "wg_is_done wg \<longleftrightarrow> wg_count wg = 0"

definition wg_load :: "addr \<Rightarrow> wait_group \<Rightarrow> ('q, 'v, 'm) world \<Rightarrow> addr \<times> ('q, 'v, 'm) world" where
  "wg_load a wg w = (let head = wg_state wg in (head, set_next a head w))"

definition wg_cas :: "bool \<Rightarrow> addr \<Rightarrow> addr \<Rightarrow> wait_group \<Rightarrow> bool \<times> wait_group" where
  "wg_cas spurious head a wg =
     (case cas_weak spurious (wg_state wg) head a of (ok, new, _) \<Rightarrow> (ok, wg\<lparr>wg_state := new\<rparr>))"

fun wg_loop ::
    "bool list \<Rightarrow> addr \<Rightarrow> wait_group \<Rightarrow> ('q, 'v, 'm) world \<Rightarrow> (bool \<times> wait_group \<times> ('q, 'v, 'm) world) res" where
  "wg_loop [] a wg w = Inl Out_of_fuel"
| "wg_loop (sp # sps) a wg w =
     (if wg_is_done wg then Inr (False, wg, w)
      else case wg_load a wg w of (head, w1) \<Rightarrow>
        (case wg_cas sp head a wg of
           (True, wg1) \<Rightarrow> Inr (True, wg1, w1)
         | (False, wg1) \<Rightarrow> wg_loop sps a wg1 w1))"

definition wg_await_suspend ::
    "bool list \<Rightarrow> addr \<Rightarrow> handle \<Rightarrow> wait_group \<Rightarrow> ('q, 'v, 'm) world \<Rightarrow>
     (bool \<times> wait_group \<times> ('q, 'v, 'm) world) res" where
  "wg_await_suspend sps a h wg w = wg_loop sps a wg (wg_prepare a h w)"

definition wg_await_resume :: "addr \<Rightarrow> ('q, 'v, 'm) world \<Rightarrow> ('q, 'v, 'm) world" where
  "wg_await_resume a w = waiter_unregister 1 a w"

definition wg_resume :: "'q queue_ops \<Rightarrow> addr \<Rightarrow> ('q, 'v, 'm) world \<Rightarrow> ('q, 'v, 'm) world res" where
  "wg_resume Q a w = waiter_submit Q a w"

definition wg_add :: "32 word \<Rightarrow> wait_group \<Rightarrow> wait_group" where
  "wg_add cnt wg = wg\<lparr>wg_count := snd (fetch_add (wg_count wg) cnt)\<rparr>"

fun wg_resume_list ::
    "nat \<Rightarrow> 'q queue_ops \<Rightarrow> addr \<Rightarrow> ('q, 'v, 'm) world \<Rightarrow> ('q, 'v, 'm) world res" where
  "wg_resume_list 0 Q head w = Inl Out_of_fuel"
| "wg_resume_list (Suc n) Q head w =
     (if head = nullptr then Inr w
      else let nxt = m_next (waiters w head) in
        bindE (wg_resume Q head w) (wg_resume_list n Q nxt))"

definition wg_done ::
    "nat \<Rightarrow> 'q queue_ops \<Rightarrow> wait_group \<Rightarrow> ('q, 'v, 'm) world \<Rightarrow> (wait_group \<times> ('q, 'v, 'm) world) res" where
  "wg_done fuel Q wg w =
     (case fetch_sub (wg_count wg) 1 of (old, new) \<Rightarrow>
        let wg1 = wg\<lparr>wg_count := new\<rparr> in
        if old = 1 then
          (case exchange (wg_state wg1) nullptr of (head, new_head) \<Rightarrow>
             bindE (wg_resume_list fuel Q head w) (\<lambda>w1. Inr (wg1\<lparr>wg_state := new_head\<rparr>, w1)))
        else Inr (wg1, w))"

fun wg_dones ::
    "nat \<Rightarrow> 'q queue_ops \<Rightarrow> nat \<Rightarrow> wait_group \<Rightarrow> ('q, 'v, 'm) world \<Rightarrow> (wait_group \<times> ('q, 'v, 'm) world) res" where
  "wg_dones fuel Q 0 wg w = Inr (wg, w)"
| "wg_dones fuel Q (Suc k) wg w =
     bindE (wg_done fuel Q wg w) (\<lambda>(wg1, w1). wg_dones fuel Q k wg1 w1)"

section \<open>The operations without interference\<close>

lemma wg_resume_list_eq: "wg_resume_list n Q p w = resume_all_awaiters n Q p w"
proof (induction n arbitrary: p w)
  case 0
  then show ?case by simp
next
  case (Suc n)
  then show ?case by (simp add: wg_resume_def bindE_def Let_def split: sum.splits)
qed

lemma wg_dones_before:
  "k < n \<Longrightarrow> n < 2 ^ 32 \<Longrightarrow> wg_count wg = word_of_nat n \<Longrightarrow>
   wg_dones fuel Q k wg w = Inr (wg\<lparr>wg_count := word_of_nat (n - k)\<rparr>, w)"
proof (induction k arbitrary: n wg)
  case 0
  then show ?case by simp
next
  case (Suc k)
  have "unat (word_of_nat n :: 32 word) = n"
    using Suc.prems by (simp add: unat_of_nat take_bit_nat_eq_self_iff)
  then have "(word_of_nat n :: 32 word) \<noteq> 1" using Suc.prems(1) by (intro notI) simp
  moreover have "(word_of_nat n :: 32 word) - 1 = word_of_nat (n - 1)" using Suc.prems by (simp add: of_nat_diff)
  ultimately have "wg_done fuel Q wg w = Inr (wg\<lparr>wg_count := word_of_nat (n - 1)\<rparr>, w)"
    using Suc.prems by (simp add: wg_done_def atomic_defs)
  with Suc.IH [where n = "n - 1" and wg = "wg\<lparr>wg_count := word_of_nat (n - 1)\<rparr>"] Suc.prems show ?case by simp
qed

lemma wg_dones_add:
  "wg_dones fuel Q (j + k) wg w = bindE (wg_dones fuel Q j wg w) (\<lambda>(wg1, w1). wg_dones fuel Q k wg1 w1)"
proof (induction j arbitrary: wg w)
  case 0
  then show ?case by simp
next
  case (Suc j)
  then show ?case by (cases "wg_done fuel Q wg w") auto
qed

section \<open>Waiting and finishing concurrently\<close>

text \<open>
  \<open>taking t\<close>: thread \<open>t\<close> has brought the counter to zero in \<open>done\<close> and is about to take
  the list.
\<close>

record ('q, 'v, 'm) wg_system =
  wg_group :: wait_group
  wg_world :: "('q, 'v, 'm) world"
  wg_pc :: "addr \<Rightarrow> waiter_pc"
  taking :: "nat \<Rightarrow> bool"
  wg_walker :: "nat \<Rightarrow> walker"
  wg_parks :: "addr \<Rightarrow> nat"
  wg_wakes :: "addr \<Rightarrow> nat"

inductive wg_step ::
    "'q queue_ops \<Rightarrow> ('q, 'v, 'm) wg_system \<Rightarrow> ('q, 'v, 'm) wg_system \<Rightarrow> bool" for Q where
  G_suspend: "wg_pc s a = W_out \<Longrightarrow> a \<noteq> nullptr \<Longrightarrow>
    wg_step Q s (s\<lparr>wg_world := wg_prepare a h (wg_world s), wg_pc := (wg_pc s)(a := W_trying)\<rparr>)"
| G_check_done: "wg_pc s a = W_trying \<Longrightarrow> wg_is_done (wg_group s) \<Longrightarrow>
    wg_step Q s (s\<lparr>wg_pc := (wg_pc s)(a := W_resuming)\<rparr>)"
| G_check: "wg_pc s a = W_trying \<Longrightarrow> \<not> wg_is_done (wg_group s) \<Longrightarrow>
    wg_step Q s (s\<lparr>wg_pc := (wg_pc s)(a := W_checked)\<rparr>)"
| G_load: "wg_pc s a = W_checked \<Longrightarrow> wg_load a (wg_group s) (wg_world s) = (head, w) \<Longrightarrow>
    wg_step Q s (s\<lparr>wg_world := w, wg_pc := (wg_pc s)(a := W_loaded head)\<rparr>)"
| G_cas_fail: "wg_pc s a = W_loaded head \<Longrightarrow> wg_cas sp head a (wg_group s) = (False, wg) \<Longrightarrow>
    wg_step Q s (s\<lparr>wg_group := wg, wg_pc := (wg_pc s)(a := W_trying)\<rparr>)"
| G_cas: "wg_pc s a = W_loaded head \<Longrightarrow> wg_cas sp head a (wg_group s) = (True, wg) \<Longrightarrow>
    wg_step Q s (s\<lparr>wg_group := wg, wg_pc := (wg_pc s)(a := W_parked),
      wg_parks := bump a (wg_parks s)\<rparr>)"
| G_resume: "wg_pc s a = W_resuming \<Longrightarrow>
    wg_step Q s (s\<lparr>wg_world := wg_await_resume a (wg_world s), wg_pc := (wg_pc s)(a := W_out)\<rparr>)"
| G_add: "wg_step Q s (s\<lparr>wg_group := wg_add cnt (wg_group s)\<rparr>)"
| G_done: "wg_walker s t = S_idle \<Longrightarrow> \<not> taking s t \<Longrightarrow>
    fetch_sub (wg_count (wg_group s)) 1 = (old, new) \<Longrightarrow>
    wg_step Q s (s\<lparr>wg_group := (wg_group s)\<lparr>wg_count := new\<rparr>, taking := (taking s)(t := (old = 1))\<rparr>)"
| G_take: "taking s t \<Longrightarrow> exchange (wg_state (wg_group s)) nullptr = (head, new) \<Longrightarrow>
    wg_step Q s (s\<lparr>wg_group := (wg_group s)\<lparr>wg_state := new\<rparr>, taking := (taking s)(t := False),
      wg_walker := (wg_walker s)(t := S_walk head)\<rparr>)"
| G_walk: "\<not> taking s t \<Longrightarrow> walker_step Q (wg_walker s t) (wg_world s) = Inr (p, w, None) \<Longrightarrow>
    wg_step Q s (s\<lparr>wg_world := w, wg_walker := (wg_walker s)(t := p)\<rparr>)"
| G_wake: "\<not> taking s t \<Longrightarrow> walker_step Q (wg_walker s t) (wg_world s) = Inr (p, w, Some a) \<Longrightarrow>
    wg_step Q s (s\<lparr>wg_world := w, wg_walker := (wg_walker s)(t := p),
      wg_pc := (wg_pc s)(a := W_resuming), wg_wakes := bump a (wg_wakes s)\<rparr>)"

definition wg_start :: "('q, 'v, 'm) wg_system \<Rightarrow> bool" where
  "wg_start s \<longleftrightarrow>
     wg_state (wg_group s) = nullptr \<and> wg_pc s = (\<lambda>_. W_out) \<and> taking s = (\<lambda>_. False) \<and>
     wg_walker s = (\<lambda>_. S_idle) \<and> wg_parks s = (\<lambda>_. 0) \<and> wg_wakes s = (\<lambda>_. 0)"

definition wg_reach :: "'q queue_ops \<Rightarrow> ('q, 'v, 'm) wg_system \<Rightarrow> bool" where
  "wg_reach Q s \<longleftrightarrow> (\<exists>s0. wg_start s0 \<and> (wg_step Q)\<^sup>*\<^sup>* s0 s)"

definition wg_inv :: "('q, 'v, 'm) wg_system \<Rightarrow> addr list \<Rightarrow> (nat \<Rightarrow> addr list) \<Rightarrow> bool" where
  "wg_inv s as ls \<longleftrightarrow>
     park_inv {} (Some (wg_state (wg_group s))) (next_of (wg_world s))
       (wg_pc s) (wg_walker s) (wg_parks s) (wg_wakes s) as ls \<and>
     (\<forall>t. taking s t \<longrightarrow> wg_walker s t = S_idle)"

lemma wg_step_inv:
  assumes "wg_step Q s s'" and inv: "wg_inv s as ls"
  shows "\<exists>as' ls'. wg_inv s' as' ls'"
proof -
  have I: "park_inv {} (Some (wg_state (wg_group s))) (next_of (wg_world s))
       (wg_pc s) (wg_walker s) (wg_parks s) (wg_wakes s) as ls"
    and T: "\<And>t. taking s t \<Longrightarrow> wg_walker s t = S_idle"
    using inv by (auto simp: wg_inv_def)
  from assms(1) show ?thesis
  proof cases
    case (G_suspend a h)
    have "next_of (wg_prepare a h (wg_world s)) = next_of (wg_world s)" by (simp add: wg_prepare_def)
    then show ?thesis
      using park_inv_local [OF I, of a W_trying "m_next (waiters (wg_world s) a)"] G_suspend T
      by (auto simp: wg_inv_def)
  next
    case (G_check_done a)
    then show ?thesis
      using park_inv_move [OF I, of a W_resuming "m_next (waiters (wg_world s) a)"] T
      by (auto simp: wg_inv_def)
  next
    case (G_check a)
    then show ?thesis
      using park_inv_move [OF I, of a W_checked "m_next (waiters (wg_world s) a)"] T
      by (auto simp: wg_inv_def)
  next
    case (G_load a head w)
    then have "next_of w = (next_of (wg_world s))(a := head)"
      by (auto simp: wg_load_def Let_def)
    then show ?thesis using park_inv_move [OF I, of a "W_loaded head" head] G_load T
      by (auto simp: wg_inv_def)
  next
    case (G_cas_fail a head sp wg)
    then have "wg = wg_group s" by (auto simp: wg_cas_def atomic_defs split: if_splits)
    then show ?thesis
      using park_inv_move [OF I, of a W_trying "m_next (waiters (wg_world s) a)"] G_cas_fail T
      by (auto simp: wg_inv_def)
  next
    case (G_cas a head sp wg)
    then have h: "wg_state (wg_group s) = head" and wg: "wg = (wg_group s)\<lparr>wg_state := a\<rparr>"
      by (auto simp: wg_cas_def atomic_defs split: if_splits)
    from park_inv_push [OF I [unfolded h] G_cas(2)] h wg G_cas(1) T show ?thesis
      by (auto simp: wg_inv_def)
  next
    case (G_resume a)
    then show ?thesis
      using park_inv_move [OF I, of a W_out "m_next (waiters (wg_world s) a)"] T
      by (auto simp: wg_inv_def wg_await_resume_def)
  next
    case (G_add cnt)
    then show ?thesis using inv by (auto simp: wg_inv_def wg_add_def)
  next
    case (G_done t old new)
    then show ?thesis using inv by (auto simp: wg_inv_def)
  next
    case (G_take t head new)
    then have eq: "head = wg_state (wg_group s)" "new = nullptr" by (auto simp: atomic_defs)
    from park_inv_close [OF I T [OF G_take(2)], of "Some nullptr"] eq G_take(1) T show ?thesis
      by (auto simp: wg_inv_def)
  next
    case (G_walk t p w)
    then show ?thesis using park_inv_walk [OF I G_walk(3)] T by (auto simp: wg_inv_def)
  next
    case (G_wake t p w a)
    obtain ls' where "park_inv {} (Some (wg_state (wg_group s))) (next_of w)
      ((wg_pc s)(a := W_resuming)) ((wg_walker s)(t := p)) (wg_parks s) (bump a (wg_wakes s)) as ls'"
      using park_inv_wake [OF I G_wake(3)] by blast
    with G_wake T show ?thesis by (auto simp: wg_inv_def)
  qed
qed

lemma wg_reach_step: "wg_reach Q s \<Longrightarrow> wg_step Q s s' \<Longrightarrow> wg_reach Q s'"
  unfolding wg_reach_def by (meson rtranclp.rtrancl_into_rtrancl)

lemma wg_reach_inv:
  assumes "wg_reach Q s"
  shows "\<exists>as ls. wg_inv s as ls"
proof -
  obtain s0 where s0: "wg_start s0" and run: "(wg_step Q)\<^sup>*\<^sup>* s0 s"
    using assms by (auto simp: wg_reach_def)
  have "wg_inv s0 [] (\<lambda>_. [])"
    using s0 by (auto simp: wg_start_def wg_inv_def park_inv_def partitioned_def)
  then have I0: "\<exists>as ls. wg_inv s0 as ls" by blast
  from run show ?thesis
  proof (induction rule: rtranclp_induct)
    case base
    from I0 show ?case .
  next
    case (step s1 s2)
    then obtain as ls where "wg_inv s1 as ls" by blast
    from wg_step_inv [OF step.hyps(2) this] show ?case .
  qed
qed

section \<open>Properties\<close>

text \<open>
  The last \<open>done\<close> wakes every parked coroutine once: with the counter at \<open>n\<close>, the first
  \<open>n - 1\<close> calls only count; the \<open>n\<close>-th empties the list and submits each parked coroutine to
  its own context, newest first.
\<close>

lemma wait_group_wakes_at_zero:
  assumes "wg_count wg = word_of_nat n" "0 < n" "n < 2 ^ 32"
    and "chain (next_of w) (wg_state wg) as" "length as < fuel" "room_for Q ql as w"
  shows "wg_dones fuel Q (n - 1) wg w = Inr (wg\<lparr>wg_count := 1\<rparr>, w) \<and>
    (\<exists>w1. wg_dones fuel Q n wg w = Inr (wg\<lparr>wg_count := 0, wg_state := nullptr\<rparr>, w1) \<and>
      (\<forall>i. queued ql w1 i = queued ql w i @ handles_for i w as))"
proof -
  have pre: "wg_dones fuel Q (n - 1) wg w = Inr (wg\<lparr>wg_count := 1\<rparr>, w)"
    using wg_dones_before [of "n - 1" n wg] assms by simp
  obtain w1 where w1: "submit_waiters Q as w = Inr w1" using submit_waiters_total assms(6) by blast
  have run: "\<forall>i. context_running Q ql (ctx_of w i)" using assms(6) by (simp add: room_for_def)
  have last: "wg_done fuel Q (wg\<lparr>wg_count := 1\<rparr>) w = Inr (wg\<lparr>wg_count := 0, wg_state := nullptr\<rparr>, w1)"
    using resume_all_chain [OF assms(4,5), of Q] w1
    by (simp add: wg_done_def atomic_defs wg_resume_list_eq)
  have n: "n = (n - 1) + 1" using assms(2) by simp
  have "wg_dones fuel Q n wg w = Inr (wg\<lparr>wg_count := 0, wg_state := nullptr\<rparr>, w1)"
    by (subst n, subst wg_dones_add) (simp add: pre [simplified] last)
  with pre submit_waiters_queued [OF run w1] show ?thesis by blast
qed

lemma wait_group_wakes_at_zero_witness:
  "\<exists>w1. wg_dones 2 list_queue 3 \<lparr>wg_count = 3, wg_state = 4\<rparr> (set_next 4 0 demo_world) =
      Inr (\<lparr>wg_count = 0, wg_state = 0\<rparr>, w1) \<and> queued (\<lambda>q. q) w1 0 = [104]"
proof -
  have room: "room_for list_queue (\<lambda>q. q) [4] (set_next 4 0 demo_world)"
    using demo_context_running demo_context_queue
    by (simp add: room_for_def demo_world_def kQueCap_def new_waiter_def set_next_def)
  obtain w1 where "wg_dones 2 list_queue 3 \<lparr>wg_count = 3, wg_state = 4\<rparr> (set_next 4 0 demo_world) =
      Inr (\<lparr>wg_count = 0, wg_state = 0\<rparr>, w1)"
    and q: "\<forall>i. queued (\<lambda>q. q) w1 i = queued (\<lambda>q. q) (set_next 4 0 demo_world) i @
        handles_for i (set_next 4 0 demo_world) [4]"
    using wait_group_wakes_at_zero [of "\<lparr>wg_count = 3, wg_state = 4\<rparr>" 3 "set_next 4 0 demo_world" "[4]" 2
        list_queue "\<lambda>q. q"] room by auto
  moreover have "queued (\<lambda>q. q) w1 0 = [104]"
    using q demo_context_queue by (simp add: demo_world_def new_waiter_def)
  ultimately show ?thesis by blast
qed

text \<open>
  C16. A wait group never wakes a coroutine twice and never loses track of one, however waiting,
  adding and finishing interleave: an awaiter is parked exactly when it has been put into the list
  once more than it has been woken.
\<close>

theorem wait_group_wakes_at_most_once:
  assumes "wg_reach Q s"
  shows "wg_parks s a = wg_wakes s a + (if wg_pc s a = W_parked then 1 else 0)"
  using wg_reach_inv [OF assms] park_invD(6) unfolding wg_inv_def by metis

definition demo_wg_system :: "(handle list, nat, unit) wg_system" where
  "demo_wg_system = \<lparr>wg_group = \<lparr>wg_count = 1, wg_state = 0\<rparr>, wg_world = demo_world,
     wg_pc = (\<lambda>_. W_out), taking = (\<lambda>_. False), wg_walker = (\<lambda>_. S_idle),
     wg_parks = (\<lambda>_. 0), wg_wakes = (\<lambda>_. 0)\<rparr>"

lemma demo_wg_reach: "wg_reach list_queue demo_wg_system"
  unfolding wg_reach_def
  by (rule exI [of _ demo_wg_system]) (simp add: wg_start_def demo_wg_system_def)

text \<open>
  A run of one waiting coroutine (4) and one thread (0): the coroutine reads the counter, the thread
  brings it to zero and finds nobody in the list, the coroutine puts itself into the list.
\<close>

lemma demo_wg_run:
  "\<exists>s :: (handle list, nat, unit) wg_system. wg_reach list_queue s \<and> wg_is_done (wg_group s) \<and>
     wg_pc s 4 = W_parked \<and> (\<forall>t. wg_walker s t = S_idle \<and> \<not> taking s t)"
proof -
  let ?Q = list_queue
  define s1 where "s1 = demo_wg_system\<lparr>wg_world := wg_prepare 4 9 (wg_world demo_wg_system),
    wg_pc := (wg_pc demo_wg_system)(4 := W_trying)\<rparr>"
  have "wg_step ?Q demo_wg_system s1"
    unfolding s1_def by (rule G_suspend) (simp_all add: demo_wg_system_def)
  then have r1: "wg_reach ?Q s1" by (rule wg_reach_step [OF demo_wg_reach])
  define s2 where "s2 = s1\<lparr>wg_pc := (wg_pc s1)(4 := W_checked)\<rparr>"
  have "wg_step ?Q s1 s2"
    unfolding s2_def by (rule G_check) (simp_all add: s1_def demo_wg_system_def wg_is_done_def)
  then have r2: "wg_reach ?Q s2" by (rule wg_reach_step [OF r1])
  define s3 where "s3 = s2\<lparr>wg_group := (wg_group s2)\<lparr>wg_count := 0\<rparr>, taking := (taking s2)(0 := (1 = (1 :: 32 word)))\<rparr>"
  have "wg_step ?Q s2 s3"
    unfolding s3_def
    by (rule G_done) (simp_all add: s2_def s1_def demo_wg_system_def atomic_defs)
  then have r3: "wg_reach ?Q s3" by (rule wg_reach_step [OF r2])
  define s4 where "s4 = s3\<lparr>wg_group := (wg_group s3)\<lparr>wg_state := 0\<rparr>, taking := (taking s3)(0 := False),
    wg_walker := (wg_walker s3)(0 := S_walk 0)\<rparr>"
  have "wg_step ?Q s3 s4"
    unfolding s4_def
    by (rule G_take) (simp_all add: s3_def s2_def s1_def demo_wg_system_def atomic_defs)
  then have r4: "wg_reach ?Q s4" by (rule wg_reach_step [OF r3])
  define s5 where "s5 = s4\<lparr>wg_world := wg_world s4, wg_walker := (wg_walker s4)(0 := S_idle)\<rparr>"
  have "wg_step ?Q s4 s5"
    unfolding s5_def by (rule G_walk) (simp_all add: s4_def)
  then have r5: "wg_reach ?Q s5" by (rule wg_reach_step [OF r4])
  define s6 where "s6 = s5\<lparr>wg_world := set_next 4 0 (wg_world s5), wg_pc := (wg_pc s5)(4 := W_loaded 0)\<rparr>"
  have "wg_step ?Q s5 s6"
    unfolding s6_def
    by (rule G_load) (simp_all add: s5_def s4_def s3_def s2_def wg_load_def)
  then have r6: "wg_reach ?Q s6" by (rule wg_reach_step [OF r5])
  define s7 where "s7 = s6\<lparr>wg_group := \<lparr>wg_count = 0, wg_state = 4\<rparr>, wg_pc := (wg_pc s6)(4 := W_parked),
    wg_parks := bump 4 (wg_parks s6)\<rparr>"
  have "wg_step ?Q s6 s7"
    unfolding s7_def
    by (rule G_cas [where head = 0 and sp = False])
       (simp_all add: s6_def s5_def s4_def s3_def s2_def wg_cas_def atomic_defs)
  then have r7: "wg_reach ?Q s7" by (rule wg_reach_step [OF r6])
  moreover have "wg_is_done (wg_group s7)" "wg_pc s7 4 = W_parked"
    "\<forall>t. wg_walker s7 t = S_idle \<and> \<not> taking s7 t"
    by (simp_all add: s7_def s6_def s5_def s4_def s3_def s2_def s1_def demo_wg_system_def wg_is_done_def)
  ultimately show ?thesis by blast
qed

theorem wait_group_wakes_at_most_once_witness:
  "\<exists>s :: (handle list, nat, unit) wg_system. wg_reach list_queue s \<and> wg_pc s 4 = W_parked \<and>
     wg_parks s 4 = Suc (wg_wakes s 4)"
proof -
  obtain s :: "(handle list, nat, unit) wg_system" where s: "wg_reach list_queue s" "wg_pc s 4 = W_parked"
    using demo_wg_run by blast
  from wait_group_wakes_at_most_once [OF s(1), of 4] s show ?thesis by auto
qed


end
