(* ===== verification/Gate_Programs.thy ===== *)
theory Gate_Programs
  imports Latch Wait_Group Programs
begin

text \<open>
  Programs in which some coroutines wait until others have arrived: examples/event.cpp,
  event_guard.cpp, event_value.cpp, latch.cpp, latch_guard.cpp, wait_group.cpp and the coroutines of
  benchtests/lab4a_bench.cpp, lab4b_bench.cpp and lab4c_bench.cpp. The bodies are the same; event,
  latch and wait group are three providers of one interface.
\<close>

section \<open>The programs\<close>

text \<open>
  \<open>wait_task\<close> awaits \<open>wait()\<close> and goes on (a log line, or a loop over a local counter);
  \<open>set_task\<close> sleeps or loops over a local counter, \<open>K\<close> steps here, and then calls \<open>set()\<close>,
  \<open>count_down()\<close> or \<open>done()\<close>, itself or by the destructor of its guard. Coroutines below \<open>W\<close>
  wait. An operation that fails an assertion has no step.
\<close>

record 's gate_ops =
  gate_wait :: "nat \<Rightarrow> 's \<Rightarrow> (bool \<times> 's) res"
  gate_resume :: "nat \<Rightarrow> 's \<Rightarrow> 's"
  gate_down :: "'s \<Rightarrow> 's res"
  gate_resumed :: "nat \<Rightarrow> 's \<Rightarrow> bool"

datatype gate_pc = G_start | G_parked | G_passed | G_work nat | G_done

record 's gate_sys =
  g_obj :: 's
  g_at :: "nat \<Rightarrow> gate_pc"

definition gate_begin :: "nat \<Rightarrow> 's \<Rightarrow> 's gate_sys" where
  "gate_begin W x = \<lparr>g_obj = x, g_at = (\<lambda>i. if i < W then G_start else G_work 0)\<rparr>"

definition gate_task :: "'s gate_ops \<Rightarrow> nat \<Rightarrow> nat \<Rightarrow> 's gate_sys \<Rightarrow> 's gate_sys option" where
  "gate_task G K i s =
     (case g_at s i of
        G_start \<Rightarrow>
          (case gate_wait G i (g_obj s) of
             Inl _ \<Rightarrow> None
           | Inr (True, x) \<Rightarrow> Some \<lparr>g_obj = x, g_at = (g_at s)(i := G_parked)\<rparr>
           | Inr (False, x) \<Rightarrow> Some \<lparr>g_obj = gate_resume G i x, g_at = (g_at s)(i := G_passed)\<rparr>)
      | G_parked \<Rightarrow>
          if gate_resumed G i (g_obj s)
          then Some \<lparr>g_obj = gate_resume G i (g_obj s), g_at = (g_at s)(i := G_passed)\<rparr> else None
      | G_passed \<Rightarrow> Some (s\<lparr>g_at := (g_at s)(i := G_done)\<rparr>)
      | G_work k \<Rightarrow>
          if k < K then Some (s\<lparr>g_at := (g_at s)(i := G_work (Suc k))\<rparr>)
          else (case gate_down G (g_obj s) of
                  Inl _ \<Rightarrow> None | Inr x \<Rightarrow> Some \<lparr>g_obj = x, g_at = (g_at s)(i := G_done)\<rparr>)
      | G_done \<Rightarrow> None)"

section \<open>The interface\<close>

text \<open>
  \<open>rep n ps rs x\<close>: \<open>n\<close> arrivals are missing, \<open>ps\<close> are parked, newest first, \<open>rs\<close> have been
  submitted to run again.
\<close>

locale gate =
  fixes G :: "'s gate_ops" and W :: nat and rep :: "nat \<Rightarrow> nat list \<Rightarrow> nat set \<Rightarrow> 's \<Rightarrow> bool"
  assumes wait_closed: "rep (Suc n) ps rs x \<Longrightarrow> i < W \<Longrightarrow> i \<notin> set ps \<Longrightarrow> i \<notin> rs \<Longrightarrow>
      \<exists>y. gate_wait G i x = Inr (True, y) \<and> rep (Suc n) (i # ps) rs y"
    and wait_open: "rep 0 ps rs x \<Longrightarrow> i < W \<Longrightarrow> \<exists>y. gate_wait G i x = Inr (False, y) \<and> rep 0 ps rs y"
    and down: "rep (Suc (Suc n)) ps rs x \<Longrightarrow> \<exists>y. gate_down G x = Inr y \<and> rep (Suc n) ps rs y"
    and down_last: "rep (Suc 0) ps rs x \<Longrightarrow> \<exists>y. gate_down G x = Inr y \<and> rep 0 [] (rs \<union> set ps) y"
    and resume: "rep 0 ps rs x \<Longrightarrow> i < W \<Longrightarrow> rep 0 ps rs (gate_resume G i x)"
    and resumed: "rep n ps rs x \<Longrightarrow> i < W \<Longrightarrow> i \<in> rs \<Longrightarrow> gate_resumed G i x"
    and parked: "rep (Suc n) ps rs x \<Longrightarrow> i < W \<Longrightarrow> \<not> gate_resumed G i x"

text \<open>How many of \<open>D\<close> arrivals are missing.\<close>

fun gate_missing :: "gate_pc \<Rightarrow> nat" where
  "gate_missing (G_work k) = 1"
| "gate_missing p = 0"

fun gate_rem :: "nat \<Rightarrow> gate_pc \<Rightarrow> nat" where
  "gate_rem K G_start = 3"
| "gate_rem K G_parked = 2"
| "gate_rem K G_passed = 1"
| "gate_rem K (G_work k) = Suc (K - k)"
| "gate_rem K G_done = 0"

definition gate_count :: "nat \<Rightarrow> (nat \<Rightarrow> gate_pc) \<Rightarrow> nat" where
  "gate_count m at = (\<Sum>j<m. gate_missing (at j))"

definition gate_points ::
    "nat \<Rightarrow> nat \<Rightarrow> nat \<Rightarrow> nat list \<Rightarrow> nat set \<Rightarrow> (nat \<Rightarrow> gate_pc) \<Rightarrow> bool" where
  "gate_points W D n ps rs at \<longleftrightarrow>
     gate_count (W + D) at = n \<and>
     {j. j < W \<and> at j = G_start} \<inter> (set ps \<union> rs) = {} \<and>
     {j. j < W \<and> at j = G_parked} \<subseteq> set ps \<union> rs \<and>
     set ps \<subseteq> {j. j < W \<and> at j = G_parked} \<and>
     (\<forall>j<W. \<forall>k. at j \<noteq> G_work k) \<and>
     (n = 0 \<longrightarrow> ps = []) \<and>
     (0 < n \<longrightarrow> rs = {} \<and> (\<forall>j<W. at j = G_start \<or> at j = G_parked)) \<and>
     (\<forall>j<W + D. j < W \<or> at j = G_done \<or> (\<exists>k. at j = G_work k))"

definition gate_inv ::
    "(nat \<Rightarrow> nat list \<Rightarrow> nat set \<Rightarrow> 's \<Rightarrow> bool) \<Rightarrow> nat \<Rightarrow> nat \<Rightarrow> 's gate_sys \<Rightarrow> bool" where
  "gate_inv rep W D s \<longleftrightarrow> (\<exists>n ps rs. rep n ps rs (g_obj s) \<and> gate_points W D n ps rs (g_at s))"

lemma gate_count_move:
  "i < m \<Longrightarrow> gate_count m (at(i := p)) + gate_missing (at i) = gate_count m at + gate_missing p"
  using sum_move [of i m gate_missing at p] by (simp add: gate_count_def)

lemma gate_points_pass:
  assumes P: "gate_points W D 0 ps rs at" and i: "i < W" and p: "p = G_passed \<or> p = G_done"
  shows "gate_points W D 0 ps rs (at(i := p))"
proof -
  have c: "gate_count (W + D) (at(i := p)) = 0"
    using gate_count_move [of i "W + D" at p] P i p by (auto simp: gate_points_def)
  have "ps = []" using P by (simp add: gate_points_def)
  with P c i p show ?thesis by (auto simp: gate_points_def)
qed

lemma gate_points_park:
  assumes P: "gate_points W D (Suc n) ps rs at" and i: "i < W" "at i = G_start"
  shows "gate_points W D (Suc n) (i # ps) rs (at(i := G_parked))"
proof -
  have "gate_count (W + D) (at(i := G_parked)) = Suc n"
    using gate_count_move [of i "W + D" at G_parked] P i by (auto simp: gate_points_def)
  with P i show ?thesis by (auto simp: gate_points_def)
qed

lemma gate_points_work:
  assumes P: "gate_points W D n ps rs at" and i: "i < W + D" "at i = G_work k"
  shows "gate_points W D n ps rs (at(i := G_work m))"
proof -
  have w: "\<not> i < W" using P i by (auto simp: gate_points_def)
  have "gate_count (W + D) (at(i := G_work m)) = n"
    using gate_count_move [OF i(1), of at "G_work m"] P i by (simp add: gate_points_def)
  with P w i show ?thesis unfolding gate_points_def by auto
qed

lemma gate_points_down:
  assumes P: "gate_points W D (Suc n) ps rs at" and i: "i < W + D" "at i = G_work k"
  shows "0 < n \<Longrightarrow> gate_points W D n ps rs (at(i := G_done))"
    and "n = 0 \<Longrightarrow> gate_points W D 0 [] (rs \<union> set ps) (at(i := G_done))"
proof -
  have w: "\<not> i < W" using P i by (auto simp: gate_points_def)
  have n: "gate_count (W + D) (at(i := G_done)) = n"
    using gate_count_move [OF i(1), of at G_done] P i by (simp add: gate_points_def)
  note rest = P [unfolded gate_points_def, THEN conjunct2]
  have same: "(at(i := G_done)) j = p \<longleftrightarrow> at j = p" if "j < W" for j p using that w by auto
  then have sets: "{j. j < W \<and> (at(i := G_done)) j = p} = {j. j < W \<and> at j = p}" for p by blast
  have old: "\<forall>j<W. at j = G_start \<or> at j = G_parked" "rs = {}" using rest by blast+
  have work: "\<forall>j<W + D. j < W \<or> (at(i := G_done)) j = G_done \<or> (\<exists>k. (at(i := G_done)) j = G_work k)"
    "\<forall>j<W. \<forall>k. (at(i := G_done)) j \<noteq> G_work k"
    using rest same by (simp_all only: fun_upd_apply split: if_splits) blast+
  show "gate_points W D n ps rs (at(i := G_done))" if "0 < n"
    unfolding gate_points_def sets using n same old work rest that by blast
  show "gate_points W D 0 [] (rs \<union> set ps) (at(i := G_done))" if "n = 0"
    unfolding gate_points_def sets using n same old work rest that by auto
qed

lemma gate_points_missing:
  assumes "gate_points W D n ps rs at" and "i < W + D" "at i = G_work k"
  shows "0 < n"
  using gate_count_move [OF assms(2), of at G_done] assms by (simp add: gate_points_def)

context gate
begin

lemma inv_step:
  assumes I: "gate_inv rep W D s" and i: "i < W + D" and step: "gate_task G K i s = Some s'"
  shows "gate_inv rep W D s'"
proof -
  obtain n ps rs where R: "rep n ps rs (g_obj s)" and P: "gate_points W D n ps rs (g_at s)"
    using I unfolding gate_inv_def by blast
  have waiter: "i < W" if "\<And>k. g_at s i \<noteq> G_work k" "g_at s i \<noteq> G_done"
    using P i that unfolding gate_points_def by blast
  show ?thesis
  proof (cases "g_at s i")
    case G_start
    then have w: "i < W" by (intro waiter) auto
    show ?thesis
    proof (cases n)
      case 0
      then obtain y where y: "gate_wait G i (g_obj s) = Inr (False, y)" "rep 0 ps rs y" using wait_open [of ps rs "g_obj s" i] R w by auto
      then have "s' = \<lparr>g_obj = gate_resume G i y, g_at = (g_at s)(i := G_passed)\<rparr>"
        using step G_start by (simp add: gate_task_def)
      then show ?thesis using resume [OF y(2) w] gate_points_pass [OF P [unfolded 0] w] G_start by (auto simp: gate_inv_def)
    next
      case (Suc m)
      have "i \<notin> set ps" "i \<notin> rs" using P w G_start by (auto simp: gate_points_def)
      then obtain y where y: "gate_wait G i (g_obj s) = Inr (True, y)" "rep (Suc m) (i # ps) rs y"
        using wait_closed R w Suc by blast
      then have "s' = \<lparr>g_obj = y, g_at = (g_at s)(i := G_parked)\<rparr>" using step G_start by (simp add: gate_task_def)
      then show ?thesis using y(2) gate_points_park [OF P [unfolded Suc] w G_start] by (auto simp: gate_inv_def)
    qed
  next
    case G_parked
    then have w: "i < W" by (intro waiter) auto
    have s': "s' = \<lparr>g_obj = gate_resume G i (g_obj s), g_at = (g_at s)(i := G_passed)\<rparr>" and rs: "gate_resumed G i (g_obj s)"
      using step G_parked by (auto simp: gate_task_def split: if_splits)
    have n: "n = 0" using parked [OF _ w] R rs by (cases n) auto
    show ?thesis using resume [OF R [unfolded n] w] gate_points_pass [OF P [unfolded n] w] G_parked by (auto simp: gate_inv_def s' n)
  next
    case G_passed
    then have w: "i < W" by (intro waiter) auto
    have s': "s' = s\<lparr>g_at := (g_at s)(i := G_done)\<rparr>" using step G_passed by (auto simp: gate_task_def)
    have n: "n = 0" using P w G_passed by (cases n) (auto simp: gate_points_def)
    show ?thesis using R gate_points_pass [OF P [unfolded n] w] G_passed by (auto simp: gate_inv_def s' n)
  next
    case (G_work k)
    show ?thesis
    proof (cases "k < K")
      case True
      then have "s' = s\<lparr>g_at := (g_at s)(i := G_work (Suc k))\<rparr>" using step G_work by (auto simp: gate_task_def)
      then show ?thesis using R gate_points_work [OF P i G_work] by (auto simp: gate_inv_def)
    next
      case False
      obtain m where m: "n = Suc m" using gate_points_missing [OF P i G_work] by (cases n) auto
      show ?thesis
      proof (cases m)
        case 0
        then obtain y where y: "gate_down G (g_obj s) = Inr y" "rep 0 [] (rs \<union> set ps) y" using down_last [of ps rs "g_obj s"] R m by auto
        then have "s' = \<lparr>g_obj = y, g_at = (g_at s)(i := G_done)\<rparr>" using step G_work False by (simp add: gate_task_def)
        then show ?thesis using y(2) gate_points_down(2) [OF P [unfolded m] i G_work 0] by (auto simp: gate_inv_def)
      next
        case (Suc m')
        then obtain y where y: "gate_down G (g_obj s) = Inr y" "rep m ps rs y" using down [of m' ps rs "g_obj s"] R m by auto
        then have "s' = \<lparr>g_obj = y, g_at = (g_at s)(i := G_done)\<rparr>" using step G_work False by (simp add: gate_task_def)
        then show ?thesis using y(2) gate_points_down(1) [OF P [unfolded m] i G_work] Suc by (auto simp: gate_inv_def)
      qed
    qed
  next
    case G_done
    with step show ?thesis by (simp add: gate_task_def)
  qed
qed

lemma step_moves:
  assumes "gate_task G K i s = Some s'"
  shows "g_at s' = (g_at s)(i := g_at s' i) \<and> gate_rem K (g_at s' i) < gate_rem K (g_at s i)"
  using assms by (cases "g_at s i") (auto simp: gate_task_def split: sum.splits prod.splits bool.splits if_splits)

lemma step_rank:
  assumes "i < W + D" and "gate_task G K i s = Some s'"
  shows "(\<Sum>j<W + D. gate_rem K (g_at s' j)) < (\<Sum>j<W + D. gate_rem K (g_at s j))"
proof -
  note m = step_moves [OF assms(2)]
  have "(\<Sum>j<W + D. gate_rem K (g_at s' j)) + gate_rem K (g_at s i) =
      (\<Sum>j<W + D. gate_rem K (g_at s j)) + gate_rem K (g_at s' i)"
    using sum_move [OF assms(1), of "gate_rem K" "g_at s" "g_at s' i"] m by metis
  with m show ?thesis by linarith
qed

end

sublocale gate \<subseteq> steps: ranked_program "W + D" "gate_task G K" "gate_inv rep W D"
    "\<lambda>s. \<Sum>j<W + D. gate_rem K (g_at s j)" for D K
  by unfold_locales (rule inv_step step_rank; assumption)+

context gate
begin

lemma inv_begin:
  assumes "rep D [] {} x"
  shows "gate_inv rep W D (gate_begin W x)"
proof -
  have "gate_count (W + D) (\<lambda>i. if i < W then G_start else G_work 0) = D"
    by (induction D) (simp_all add: gate_count_def)
  with assms show ?thesis by (auto simp: gate_inv_def gate_points_def gate_begin_def)
qed

lemma complete:
  assumes run: "p_run (gate_task G K) is (gate_begin W x) = Some s" and sub: "set is \<subseteq> {..<W + D}" and x: "rep D [] {} x"
  shows "length is \<le> 3 * W + (K + 1) * D"
    and "i < W \<Longrightarrow> g_at s i = G_passed \<or> g_at s i = G_done \<Longrightarrow> W \<le> j \<Longrightarrow> j < W + D \<Longrightarrow> g_at s j = G_done"
    and "\<forall>i<W + D. gate_task G K i s = None \<Longrightarrow> j < W + D \<Longrightarrow> g_at s j = G_done"
proof -
  note r = steps.run [OF run sub inv_begin [OF x]]
  have "(\<Sum>j<W + D. gate_rem K (g_at (gate_begin W x) j)) =
      (\<Sum>j<W. gate_rem K (g_at (gate_begin W x) j)) + (\<Sum>j<D. gate_rem K (g_at (gate_begin W x) (j + W)))"
    by (induction D) (simp_all add: add.commute)
  also have "\<dots> = 3 * W + (K + 1) * D" by (simp add: gate_begin_def mult.commute)
  finally show "length is \<le> 3 * W + (K + 1) * D" using r by linarith
  obtain n ps rs where R: "rep n ps rs (g_obj s)" and P: "gate_points W D n ps rs (g_at s)"
    using r unfolding gate_inv_def by blast
  have setter: "g_at s j = G_done \<or> (\<exists>k. g_at s j = G_work k)" if "W \<le> j" "j < W + D" for j
    using P that unfolding gate_points_def by (meson leD)
  show "g_at s j = G_done"
    if i: "i < W" "g_at s i = G_passed \<or> g_at s i = G_done" and j: "W \<le> j" "j < W + D" for i j
  proof -
    have "n = 0" using P i unfolding gate_points_def by (metis gate_pc.distinct gr0I)
    with setter [OF j] gate_points_missing [OF P j(2)] show ?thesis by auto
  qed
  show "g_at s j = G_done" if no: "\<forall>i<W + D. gate_task G K i s = None" and j: "j < W + D" for j
  proof (rule ccontr)
    assume nd: "g_at s j \<noteq> G_done"
    have work: "g_at s i \<noteq> G_work k" if i: "i < W + D" for i k
    proof
      assume w: "g_at s i = G_work k"
      obtain m where m: "n = Suc m" using gate_points_missing [OF P i w] by (cases n) auto
      have "\<exists>y. gate_down G (g_obj s) = Inr y"
      proof (cases m)
        case 0
        then show ?thesis using down_last [of ps rs "g_obj s"] R m by auto
      next
        case (Suc m')
        then show ?thesis using down [of m' ps rs "g_obj s"] R m by auto
      qed
      then obtain y where "gate_down G (g_obj s) = Inr y" by blast
      with w have "gate_task G K i s \<noteq> None" by (simp add: gate_task_def)
      moreover have "gate_task G K i s = None" using no i by simp
      ultimately show False by simp
    qed
    then have jw: "j < W" using setter [of j] j nd by (meson leI)
    have n0: "n = 0"
    proof (rule ccontr)
      assume "n \<noteq> 0"
      moreover have "gate_count (W + D) (g_at s) = 0" unfolding gate_count_def
      proof (rule sum.neutral, rule ballI)
        fix k assume "k \<in> {..<W + D}"
        with work show "gate_missing (g_at s k) = 0" by (cases "g_at s k") auto
      qed
      ultimately show False using P by (simp add: gate_points_def)
    qed
    have "gate_task G K j s \<noteq> None"
    proof (cases "g_at s j")
      case G_start
      obtain y where "gate_wait G j (g_obj s) = Inr (False, y)" using wait_open [of ps rs "g_obj s" j] R n0 jw by auto
      with G_start show ?thesis by (simp add: gate_task_def)
    next
      case G_parked
      then have "j \<in> rs" using P n0 jw unfolding gate_points_def by auto
      with G_parked resumed [OF R jw] show ?thesis by (simp add: gate_task_def)
    next
      case G_passed
      then show ?thesis by (simp add: gate_task_def)
    next
      case (G_work k)
      with work [OF j, of k] show ?thesis by simp
    next
      case G_done
      with nd show ?thesis by simp
    qed
    moreover have "gate_task G K j s = None" using no j by simp
    ultimately show False by simp
  qed
qed

end

section \<open>Where the waiters are\<close>

text \<open>
  Coroutine \<open>i\<close> awaits through the awaiter at \<open>adr i\<close>, its handle is \<open>hdl i\<close> and it was
  submitted to context \<open>cx i\<close>; the event is at address 1. \<open>sps\<close> are the spurious failures of its
  compare-exchanges. The queues keep what was submitted to them.
\<close>

definition adr :: "nat \<Rightarrow> addr" where
  "adr i = i + 2"

definition hdl :: "nat \<Rightarrow> handle" where
  "hdl i = i + 1"

lemma adr_hdl [simp]:
  "adr i = adr j \<longleftrightarrow> i = j" "hdl i = hdl j \<longleftrightarrow> i = j" "0 < adr i" "adr i \<noteq> 1" "0 < hdl i"
  by (simp_all add: adr_def hdl_def)

lemma adr_one [simp]: "adr i \<noteq> Suc 0" "Suc 0 \<noteq> adr i"
  by (simp_all add: adr_def)

lemma inj_adr: "inj_on adr A" "inj_on hdl A"
  by (simp_all add: inj_on_def)

definition gate_world ::
    "nat \<Rightarrow> (nat \<Rightarrow> nat) \<Rightarrow> 'q queue_ops \<Rightarrow> ('q \<Rightarrow> handle list) \<Rightarrow> bool \<Rightarrow> nat list \<Rightarrow> nat set \<Rightarrow>
     ('q, 'v, unit) world \<Rightarrow> bool" where
  "gate_world W cx Q ql opn ps rs w \<longleftrightarrow>
     W \<le> kQueCap \<and> (\<forall>k. context_running Q ql (ctx_of w k)) \<and> distinct ps \<and>
     (\<forall>i \<in> set ps. i < W \<and> m_await_coro (waiters w (adr i)) = hdl i \<and> m_ctx (waiters w (adr i)) = cx i) \<and>
     (if opn then ps = [] \<and> (\<forall>i<W. hdl i \<in> set (queued ql w (cx i)) \<longleftrightarrow> i \<in> rs)
      else rs = {} \<and> (\<forall>k. queued ql w k = []))"

lemma gate_world_same:
  assumes "gate_world W cx Q ql opn ps rs w" and "\<And>k. egn (ctx_of w1 k) = egn (ctx_of w k)"
    and "\<And>i. i \<in> set ps \<Longrightarrow> m_await_coro (waiters w1 (adr i)) = m_await_coro (waiters w (adr i)) \<and>
      m_ctx (waiters w1 (adr i)) = m_ctx (waiters w (adr i))"
  shows "gate_world W cx Q ql opn ps rs w1"
  using assms by (simp add: gate_world_def context_running_def)

lemma gate_world_push:
  assumes "gate_world W cx Q ql False ps rs w" and "\<And>k. egn (ctx_of w1 k) = egn (ctx_of w k)"
    and "\<And>j. j \<in> set ps \<Longrightarrow> m_await_coro (waiters w1 (adr j)) = m_await_coro (waiters w (adr j)) \<and>
      m_ctx (waiters w1 (adr j)) = m_ctx (waiters w (adr j))"
    and "i < W" "i \<notin> set ps" "m_await_coro (waiters w1 (adr i)) = hdl i" "m_ctx (waiters w1 (adr i)) = cx i"
  shows "gate_world W cx Q ql False (i # ps) rs w1"
  using assms by (simp add: gate_world_def context_running_def)

lemma handles_for_gate:
  assumes "\<forall>i \<in> set ps. m_await_coro (waiters w (adr i)) = hdl i \<and> m_ctx (waiters w (adr i)) = cx i"
  shows "handles_for k w (map adr ps) = map hdl (filter (\<lambda>i. cx i = k) ps)"
  using assms by (induction ps) auto

lemma gate_world_wake:
  assumes "gate_world W cx Q ql False ps rs w"
  shows "\<exists>w1. submit_waiters Q (map adr ps) w = Inr w1 \<and> gate_world W cx Q ql True [] (rs \<union> set ps) w1"
proof -
  have W: "W \<le> kQueCap" and run: "\<forall>k. context_running Q ql (ctx_of w k)" and ps: "distinct ps" "set ps \<subseteq> {..<W}"
    and at: "\<forall>i \<in> set ps. m_await_coro (waiters w (adr i)) = hdl i \<and> m_ctx (waiters w (adr i)) = cx i"
    and q: "rs = {}" "\<And>k. queued ql w k = []"
    using assms by (auto simp: gate_world_def)
  note h = handles_for_gate [OF at]
  have "length ps \<le> W" using ps by (metis card_lessThan card_mono distinct_card finite_lessThan)
  then have "length (handles_for k w (map adr ps)) \<le> kQueCap" for k
    unfolding h length_map using W length_filter_le [of "\<lambda>i. cx i = k" ps] le_trans by blast
  then have "room_for Q ql (map adr ps) w" using run at q(2) by (auto simp: room_for_def)
  then obtain w1 where w1: "submit_waiters Q (map adr ps) w = Inr w1" using submit_waiters_total by blast
  note s = submit_waiters_queued [OF run w1]
  have "hdl i \<in> set (queued ql w1 (cx i)) \<longleftrightarrow> i \<in> set ps" for i
    using s q(2) h by auto
  with w1 W s q(1) show ?thesis by (simp add: gate_world_def)
qed

section \<open>The event as a gate\<close>

text \<open>\<open>co_await ev.wait()\<close> up to the point where the coroutine stays suspended or goes on.\<close>

definition event_gate_wait ::
    "bool list \<Rightarrow> (nat \<Rightarrow> nat) \<Rightarrow> nat \<Rightarrow> event_base \<times> ('q, 'v, unit) world \<Rightarrow>
     (bool \<times> event_base \<times> ('q, 'v, unit) world) res" where
  "event_gate_wait sps cx i x =
     (case x of (ev, w) \<Rightarrow>
       (case event_await_ready (adr i) ev (event_wait (cx i) (adr i) w) of
          (True, w1) \<Rightarrow> Inr (False, ev, w1)
        | (False, w1) \<Rightarrow> event_await_suspend sps (adr i) (hdl i) ev w1))"

definition event_gate ::
    "bool list \<Rightarrow> (nat \<Rightarrow> nat) \<Rightarrow> nat \<Rightarrow> 'q queue_ops \<Rightarrow> ('q \<Rightarrow> handle list) \<Rightarrow>
     (event_base \<times> ('q, 'v, unit) world) gate_ops" where
  "event_gate sps cx fuel Q ql =
     \<lparr>gate_wait = event_gate_wait sps cx,
      gate_resume = (\<lambda>i (ev, w). (ev, event_await_resume (adr i) w)),
      gate_down = (\<lambda>(ev, w). set_state fuel Q ev w),
      gate_resumed = (\<lambda>i (ev, w). hdl i \<in> set (queued ql w (cx i)))\<rparr>"

definition event_rep ::
    "bool list \<Rightarrow> (nat \<Rightarrow> nat) \<Rightarrow> nat \<Rightarrow> 'q queue_ops \<Rightarrow> ('q \<Rightarrow> handle list) \<Rightarrow> nat \<Rightarrow>
     bool \<Rightarrow> nat list \<Rightarrow> nat set \<Rightarrow> event_base \<times> ('q, 'v, unit) world \<Rightarrow> bool" where
  "event_rep sps cx fuel Q ql W opn ps rs x \<longleftrightarrow>
     (case x of (ev, w) \<Rightarrow>
       False \<in> set sps \<and> W < fuel \<and> ev_this ev = 1 \<and> gate_world W cx Q ql opn ps rs w \<and>
       (if opn then is_set ev else parked_on (map adr ps) ev w))"

lemma egn_upd [simp]:
  "egn (ctx_of (waiter_register n a w) k) = egn (ctx_of w k)"
  "egn (ctx_of (waiter_unregister n a w) k) = egn (ctx_of w k)"
  by (simp_all add: waiter_register_def waiter_unregister_def upd_ctx_def register_wait_def unregister_wait_def)

lemma event_wait_other:
  "b \<noteq> a \<Longrightarrow> waiters (event_wait i a w) b = waiters w b" "ctx_of (event_wait i a w) = ctx_of w"
  "waiters (event_wait i a w) a = new_waiter i"
  by (simp_all add: event_wait_def)

lemma parked_on_cong:
  assumes "parked_on as ev w" and "\<And>a. a \<in> set as \<Longrightarrow> m_next (waiters w1 a) = m_next (waiters w a)"
  shows "parked_on as ev w1"
  using assms chain_cong [of as "next_of w1" "next_of w"] by (simp add: parked_on_def)

lemma event_gate_closed:
  assumes R: "event_rep sps cx fuel Q ql W False ps rs (ev, w)" and i: "i < W" "i \<notin> set ps"
  shows "\<exists>y. event_gate_wait sps cx i (ev, w) = Inr (True, y) \<and> event_rep sps cx fuel Q ql W False (i # ps) rs y"
proof -
  let ?w0 = "event_wait (cx i) (adr i) w"
  let ?w1 = "waiter_register 1 (adr i) ?w0"
  let ?w2 = "set_coro (adr i) (hdl i) ?w1"
  have r: "False \<in> set sps" "W < fuel" "ev_this ev = 1" "gate_world W cx Q ql False ps rs w" "parked_on (map adr ps) ev w"
    using R by (simp_all add: event_rep_def)
  have out: "waiters ?w2 (adr j) = waiters w (adr j)" if "j \<in> set ps" for j
    using that i(2) by (auto simp: set_coro_def event_wait_other)
  have P: "parked_on (map adr ps) ev ?w2"
    by (rule parked_on_cong [OF r(5)]) (use out in auto)
  have "adr i \<notin> set (map adr ps)" using i(2) by auto
  from register_parked [OF P this _ _ r(1)] obtain w3 where
    w3: "register_awaiters sps (adr i) ev ?w2 = Inr (True, ev\<lparr>m_state := adr i\<rparr>, w3)"
      "parked_on (adr i # map adr ps) (ev\<lparr>m_state := adr i\<rparr>) w3" "ctx_of w3 = ctx_of ?w2"
      "\<forall>b. m_await_coro (waiters w3 b) = m_await_coro (waiters ?w2 b) \<and> m_ctx (waiters w3 b) = m_ctx (waiters ?w2 b)"
    using r(3) by auto
  have "gate_world W cx Q ql False (i # ps) rs w3"
    by (rule gate_world_push [OF r(4) _ _ i])
      (use w3(3,4) out in \<open>simp_all add: event_wait_other set_coro_def new_waiter_def\<close>)
  moreover have "event_gate_wait sps cx i (ev, w) = Inr (True, ev\<lparr>m_state := adr i\<rparr>, w3)"
    using w3(1) parked_not_set [OF r(5)]
    by (simp add: event_gate_wait_def event_await_ready_def event_await_suspend_def Let_def)
  ultimately show ?thesis using w3(2) r by (simp add: event_rep_def)
qed

lemma event_gate_open:
  assumes R: "event_rep sps cx fuel Q ql W True ps rs (ev, w)" and i: "i < W"
  shows "\<exists>y. event_gate_wait sps cx i (ev, w) = Inr (False, y) \<and> event_rep sps cx fuel Q ql W True ps rs y"
proof -
  let ?w1 = "waiter_register 1 (adr i) (event_wait (cx i) (adr i) w)"
  have r: "is_set ev" "ps = []" "gate_world W cx Q ql True ps rs w" using R by (auto simp: event_rep_def gate_world_def)
  have "gate_world W cx Q ql True ps rs ?w1" by (rule gate_world_same [OF r(3)]) (use r(2) in \<open>simp_all add: event_wait_other\<close>)
  then show ?thesis using R r by (simp add: event_gate_wait_def event_await_ready_def event_rep_def Let_def)
qed

lemma event_gate_set:
  assumes R: "event_rep sps cx fuel Q ql W False ps rs (ev, w)"
  shows "\<exists>y. set_state fuel Q ev w = Inr y \<and> event_rep sps cx fuel Q ql W True [] (rs \<union> set ps) y"
proof -
  have r: "W < fuel" "gate_world W cx Q ql False ps rs w" "parked_on (map adr ps) ev w"
    using R by (simp_all add: event_rep_def)
  have "length ps \<le> W"
  proof -
    have "distinct ps" "set ps \<subseteq> {..<W}" using r(2) by (auto simp: gate_world_def)
    then show ?thesis by (metis card_lessThan card_mono distinct_card finite_lessThan)
  qed
  with r(1) have len: "length (map adr ps) < fuel" by simp
  obtain w1 where w1: "submit_waiters Q (map adr ps) w = Inr w1" "gate_world W cx Q ql True [] (rs \<union> set ps) w1"
    using gate_world_wake [OF r(2)] by blast
  then show ?thesis using set_state_parked [OF r(3) len, of Q] R by (simp add: event_rep_def is_set_def)
qed

lemma event_gate_resume:
  assumes "event_rep sps cx fuel Q ql W opn ps rs (ev, w)"
  shows "event_rep sps cx fuel Q ql W opn ps rs (ev, event_await_resume (adr i) w)"
proof -
  have "gate_world W cx Q ql opn ps rs (event_await_resume (adr i) w)"
    by (rule gate_world_same [of _ _ _ _ _ _ _ w]) (use assms in \<open>simp_all add: event_rep_def event_await_resume_def\<close>)
  moreover have "opn \<or> parked_on (map adr ps) ev (event_await_resume (adr i) w)"
    using assms by (auto simp: event_rep_def event_await_resume_def intro: parked_on_cong)
  ultimately show ?thesis using assms by (auto simp: event_rep_def split: if_splits)
qed

lemma event_gate_resumed:
  assumes "event_rep sps cx fuel Q ql W opn ps rs (ev, w)" and "i < W"
  shows "hdl i \<in> set (queued ql w (cx i)) \<longleftrightarrow> i \<in> rs"
  using assms by (auto simp: event_rep_def gate_world_def split: if_splits)

interpretation ev_gate: gate "event_gate sps cx fuel Q ql" W
    "\<lambda>n ps rs x. n \<le> 1 \<and> event_rep sps cx fuel Q ql W (n = 0) ps rs x" for sps cx fuel Q ql W
proof unfold_locales
  fix n ps rs i and x :: "event_base \<times> ('a, 'b, unit) world"
  obtain ev w where x: "x = (ev, w)" by (cases x)
  show "\<exists>y. gate_wait (event_gate sps cx fuel Q ql) i x = Inr (True, y) \<and>
      Suc n \<le> 1 \<and> event_rep sps cx fuel Q ql W (Suc n = 0) (i # ps) rs y"
    if "Suc n \<le> 1 \<and> event_rep sps cx fuel Q ql W (Suc n = 0) ps rs x" "i < W" "i \<notin> set ps"
    using that event_gate_closed [of sps cx fuel Q ql W ps rs ev w i] by (simp add: x event_gate_def)
  show "\<exists>y. gate_wait (event_gate sps cx fuel Q ql) i x = Inr (False, y) \<and>
      0 \<le> (1 :: nat) \<and> event_rep sps cx fuel Q ql W (0 = (0 :: nat)) ps rs y"
    if "0 \<le> (1 :: nat) \<and> event_rep sps cx fuel Q ql W (0 = (0 :: nat)) ps rs x" "i < W"
    using that event_gate_open [of sps cx fuel Q ql W ps rs ev w i] by (simp add: x event_gate_def)
  show "\<exists>y. gate_down (event_gate sps cx fuel Q ql) x = Inr y \<and>
      Suc n \<le> 1 \<and> event_rep sps cx fuel Q ql W (Suc n = 0) ps rs y"
    if "Suc (Suc n) \<le> 1 \<and> event_rep sps cx fuel Q ql W (Suc (Suc n) = 0) ps rs x"
    using that by simp
  show "\<exists>y. gate_down (event_gate sps cx fuel Q ql) x = Inr y \<and>
      0 \<le> (1 :: nat) \<and> event_rep sps cx fuel Q ql W (0 = (0 :: nat)) [] (rs \<union> set ps) y"
    if "Suc 0 \<le> 1 \<and> event_rep sps cx fuel Q ql W (Suc 0 = 0) ps rs x"
    using that event_gate_set [of sps cx fuel Q ql W ps rs ev w] by (simp add: x event_gate_def)
  show "0 \<le> (1 :: nat) \<and> event_rep sps cx fuel Q ql W (0 = (0 :: nat)) ps rs (gate_resume (event_gate sps cx fuel Q ql) i x)"
    if "0 \<le> (1 :: nat) \<and> event_rep sps cx fuel Q ql W (0 = (0 :: nat)) ps rs x" "i < W"
    using that by (auto simp: x event_gate_def intro: event_gate_resume)
  show "gate_resumed (event_gate sps cx fuel Q ql) i x" if "n \<le> 1 \<and> event_rep sps cx fuel Q ql W (n = 0) ps rs x" "i < W" "i \<in> rs"
    using that event_gate_resumed [of sps cx fuel Q ql W "n = 0" ps rs ev w i] by (simp add: x event_gate_def)
  show "\<not> gate_resumed (event_gate sps cx fuel Q ql) i x" if "Suc n \<le> 1 \<and> event_rep sps cx fuel Q ql W (Suc n = 0) ps rs x" "i < W"
    using that event_gate_resumed [of sps cx fuel Q ql W False ps rs ev w i] by (auto simp: event_rep_def gate_world_def x event_gate_def)
qed

section \<open>The latch as a gate\<close>

definition latch_gate_wait ::
    "bool list \<Rightarrow> (nat \<Rightarrow> nat) \<Rightarrow> nat \<Rightarrow> latch \<times> ('q, 'v, unit) world \<Rightarrow>
     (bool \<times> latch \<times> ('q, 'v, unit) world) res" where
  "latch_gate_wait sps cx i x =
     (case x of (l, w) \<Rightarrow>
       (case event_await_ready (adr i) (latch_ev l) (latch_wait (cx i) (adr i) w) of
          (True, w1) \<Rightarrow> Inr (False, l, w1)
        | (False, w1) \<Rightarrow>
            bindE (event_await_suspend sps (adr i) (hdl i) (latch_ev l) w1) (\<lambda>(susp, ev, w2).
              Inr (susp, l\<lparr>latch_ev := ev\<rparr>, w2))))"

definition latch_gate ::
    "bool list \<Rightarrow> (nat \<Rightarrow> nat) \<Rightarrow> nat \<Rightarrow> 'q queue_ops \<Rightarrow> ('q \<Rightarrow> handle list) \<Rightarrow>
     (latch \<times> ('q, 'v, unit) world) gate_ops" where
  "latch_gate sps cx fuel Q ql =
     \<lparr>gate_wait = latch_gate_wait sps cx,
      gate_resume = (\<lambda>i (l, w). (l, event_await_resume (adr i) w)),
      gate_down = (\<lambda>(l, w). count_down fuel Q l w),
      gate_resumed = (\<lambda>i (l, w). hdl i \<in> set (queued ql w (cx i)))\<rparr>"

definition latch_rep ::
    "bool list \<Rightarrow> (nat \<Rightarrow> nat) \<Rightarrow> nat \<Rightarrow> 'q queue_ops \<Rightarrow> ('q \<Rightarrow> handle list) \<Rightarrow> nat \<Rightarrow>
     nat \<Rightarrow> nat list \<Rightarrow> nat set \<Rightarrow> latch \<times> ('q, 'v, unit) world \<Rightarrow> bool" where
  "latch_rep sps cx fuel Q ql W n ps rs x \<longleftrightarrow>
     int n < 2 ^ 63 \<and> latch_count (fst x) = word_of_int (int n) \<and>
     event_rep sps cx fuel Q ql W (n = 0) ps rs (latch_ev (fst x), snd x)"

lemma latch_gate_wait_eq:
  "latch_gate_wait sps cx i (l, w) =
     bindE (event_gate_wait sps cx i (latch_ev l, w)) (\<lambda>(susp, ev, w1). Inr (susp, l\<lparr>latch_ev := ev\<rparr>, w1))"
  by (simp add: latch_gate_wait_def event_gate_wait_def latch_wait_def split: prod.splits bool.splits)

lemma latch_count_down:
  assumes "latch_count l = word_of_int (int (Suc n))" and "int (Suc n) < 2 ^ 63"
  shows "0 < n \<Longrightarrow> count_down fuel Q l w = Inr (l\<lparr>latch_count := word_of_int (int n)\<rparr>, w)"
    and "n = 0 \<Longrightarrow> count_down fuel Q l w =
      bindE (set_state fuel Q (latch_ev l) w) (\<lambda>(ev, w1). Inr (l\<lparr>latch_count := 0, latch_ev := ev\<rparr>, w1))"
proof -
  have "sint (word_of_int z :: u64) = z" if "0 \<le> z" "z < 2 ^ 63" for z
    using that by (simp add: sint_word_of_int)
  from this [of "int (Suc n)"] have s: "sint (latch_count l) = int (Suc n)" unfolding assms(1) using assms(2) by simp
  have c: "latch_count l - 1 = word_of_int (int n)" using assms(1) by simp
  show "0 < n \<Longrightarrow> count_down fuel Q l w = Inr (l\<lparr>latch_count := word_of_int (int n)\<rparr>, w)"
    using s c by (simp add: count_down_def atomic_defs)
  show "n = 0 \<Longrightarrow> count_down fuel Q l w =
      bindE (set_state fuel Q (latch_ev l) w) (\<lambda>(ev, w1). Inr (l\<lparr>latch_count := 0, latch_ev := ev\<rparr>, w1))"
    using s c by (simp add: count_down_def atomic_defs)
qed

interpretation latch_gates: gate "latch_gate sps cx fuel Q ql" W "latch_rep sps cx fuel Q ql W" for sps cx fuel Q ql W
proof unfold_locales
  fix n ps rs i and x :: "latch \<times> ('a, 'b, unit) world"
  obtain l w where x: "x = (l, w)" by (cases x)
  show "\<exists>y. gate_wait (latch_gate sps cx fuel Q ql) i x = Inr (True, y) \<and>
      latch_rep sps cx fuel Q ql W (Suc n) (i # ps) rs y"
    if "latch_rep sps cx fuel Q ql W (Suc n) ps rs x" "i < W" "i \<notin> set ps"
    using that event_gate_closed [of sps cx fuel Q ql W ps rs "latch_ev l" w i]
    by (auto simp: x latch_gate_def latch_gate_wait_eq latch_rep_def)
  show "\<exists>y. gate_wait (latch_gate sps cx fuel Q ql) i x = Inr (False, y) \<and> latch_rep sps cx fuel Q ql W 0 ps rs y"
    if "latch_rep sps cx fuel Q ql W 0 ps rs x" "i < W"
    using that event_gate_open [of sps cx fuel Q ql W ps rs "latch_ev l" w i]
    by (auto simp: x latch_gate_def latch_gate_wait_eq latch_rep_def)
  show "\<exists>y. gate_down (latch_gate sps cx fuel Q ql) x = Inr y \<and> latch_rep sps cx fuel Q ql W (Suc n) ps rs y"
    if "latch_rep sps cx fuel Q ql W (Suc (Suc n)) ps rs x"
    using that latch_count_down(1) [of l "Suc n" fuel Q w] by (auto simp: x latch_gate_def latch_rep_def)
  show "\<exists>y. gate_down (latch_gate sps cx fuel Q ql) x = Inr y \<and> latch_rep sps cx fuel Q ql W 0 [] (rs \<union> set ps) y"
    if "latch_rep sps cx fuel Q ql W (Suc 0) ps rs x"
    using that event_gate_set [of sps cx fuel Q ql W ps rs "latch_ev l" w] latch_count_down(2) [of l 0 fuel Q w]
    by (auto simp: x latch_gate_def latch_rep_def)
  show "latch_rep sps cx fuel Q ql W 0 ps rs (gate_resume (latch_gate sps cx fuel Q ql) i x)"
    if "latch_rep sps cx fuel Q ql W 0 ps rs x" "i < W"
    using that by (auto simp: x latch_gate_def latch_rep_def intro: event_gate_resume)
  show "gate_resumed (latch_gate sps cx fuel Q ql) i x" if "latch_rep sps cx fuel Q ql W n ps rs x" "i < W" "i \<in> rs"
    using that event_gate_resumed [of sps cx fuel Q ql W "n = 0" ps rs "latch_ev l" w i]
    by (simp add: x latch_gate_def latch_rep_def)
  show "\<not> gate_resumed (latch_gate sps cx fuel Q ql) i x" if "latch_rep sps cx fuel Q ql W (Suc n) ps rs x" "i < W"
    using that event_gate_resumed [of sps cx fuel Q ql W False ps rs "latch_ev l" w i]
    by (auto simp: event_rep_def gate_world_def x latch_gate_def latch_rep_def)
qed

section \<open>The wait group as a gate\<close>

definition wg_gate_wait ::
    "bool list \<Rightarrow> (nat \<Rightarrow> nat) \<Rightarrow> nat \<Rightarrow> wait_group \<times> ('q, 'v, unit) world \<Rightarrow>
     (bool \<times> wait_group \<times> ('q, 'v, unit) world) res" where
  "wg_gate_wait sps cx i x =
     (case x of (g, w) \<Rightarrow> wg_await_suspend sps (adr i) (hdl i) g (wg_wait (cx i) (adr i) w))"

definition wg_gate ::
    "bool list \<Rightarrow> (nat \<Rightarrow> nat) \<Rightarrow> nat \<Rightarrow> 'q queue_ops \<Rightarrow> ('q \<Rightarrow> handle list) \<Rightarrow>
     (wait_group \<times> ('q, 'v, unit) world) gate_ops" where
  "wg_gate sps cx fuel Q ql =
     \<lparr>gate_wait = wg_gate_wait sps cx,
      gate_resume = (\<lambda>i (g, w). (g, wg_await_resume (adr i) w)),
      gate_down = (\<lambda>(g, w). wg_done fuel Q g w),
      gate_resumed = (\<lambda>i (g, w). hdl i \<in> set (queued ql w (cx i)))\<rparr>"

definition wg_rep ::
    "bool list \<Rightarrow> (nat \<Rightarrow> nat) \<Rightarrow> nat \<Rightarrow> 'q queue_ops \<Rightarrow> ('q \<Rightarrow> handle list) \<Rightarrow> nat \<Rightarrow>
     nat \<Rightarrow> nat list \<Rightarrow> nat set \<Rightarrow> wait_group \<times> ('q, 'v, unit) world \<Rightarrow> bool" where
  "wg_rep sps cx fuel Q ql W n ps rs x \<longleftrightarrow>
     (case x of (g, w) \<Rightarrow>
       False \<in> set sps \<and> W < fuel \<and> n < 2 ^ 32 \<and> wg_count g = word_of_nat n \<and>
       gate_world W cx Q ql (n = 0) ps rs w \<and> chain (next_of w) (wg_state g) (map adr ps))"

lemma wg_loop_push:
  "wg_count g \<noteq> 0 \<Longrightarrow> chain (next_of w) (wg_state g) as \<Longrightarrow> a \<notin> set as \<Longrightarrow> a \<noteq> nullptr \<Longrightarrow> False \<in> set sps \<Longrightarrow>
   \<exists>w1. wg_loop sps a g w = Inr (True, g\<lparr>wg_state := a\<rparr>, w1) \<and> chain (next_of w1) a (a # as) \<and>
     ctx_of w1 = ctx_of w \<and> (\<forall>b. m_await_coro (waiters w1 b) = m_await_coro (waiters w b) \<and>
       m_ctx (waiters w1 b) = m_ctx (waiters w b))"
proof (induction sps arbitrary: w)
  case Nil
  then show ?case by simp
next
  case (Cons sp sps)
  let ?w = "set_next a (wg_state g) w"
  have c: "chain (next_of ?w) (wg_state g) as" using Cons.prems(2,3) by simp
  show ?case
  proof (cases sp)
    case True
    with Cons.prems have "False \<in> set sps" by simp
    from Cons.IH [OF Cons.prems(1) c Cons.prems(3,4) this] True Cons.prems(1) show ?thesis
      by (auto simp: wg_is_done_def wg_load_def wg_cas_def atomic_defs Let_def)
  next
    case False
    with Cons.prems c show ?thesis
      by (auto simp: wg_is_done_def wg_load_def wg_cas_def atomic_defs Let_def)
  qed
qed

lemma word_of_nat_one:
  assumes "n < 2 ^ 32"
  shows "(word_of_nat n :: 32 word) = 1 \<longleftrightarrow> n = 1" "(word_of_nat n :: 32 word) = 0 \<longleftrightarrow> n = 0"
proof -
  have u: "unat (word_of_nat n :: 32 word) = n"
    using assms by (simp add: unat_of_nat take_bit_nat_eq_self_iff)
  show "(word_of_nat n :: 32 word) = 1 \<longleftrightarrow> n = 1" unfolding word_unat_eq_iff u by simp
  show "(word_of_nat n :: 32 word) = 0 \<longleftrightarrow> n = 0" unfolding word_unat_eq_iff u by simp
qed

lemma wg_gate_closed:
  assumes R: "wg_rep sps cx fuel Q ql W (Suc n) ps rs (g, w)" and i: "i < W" "i \<notin> set ps"
  shows "\<exists>y. wg_gate_wait sps cx i (g, w) = Inr (True, y) \<and> wg_rep sps cx fuel Q ql W (Suc n) (i # ps) rs y"
proof -
  let ?w0 = "wg_wait (cx i) (adr i) w"
  let ?w2 = "wg_prepare (adr i) (hdl i) ?w0"
  have r: "False \<in> set sps" "Suc n < 2 ^ 32" "wg_count g = word_of_nat (Suc n)" "gate_world W cx Q ql False ps rs w"
    "chain (next_of w) (wg_state g) (map adr ps)"
    using R by (simp_all add: wg_rep_def)
  have out: "waiters ?w2 (adr j) = waiters w (adr j)" if "j \<in> set ps" for j
    using that i(2) by (auto simp: wg_prepare_def set_coro_def wg_wait_def)
  have c: "chain (next_of ?w2) (wg_state g) (map adr ps)"
  proof -
    have "next_of ?w2 a = next_of w a" if "a \<in> set (map adr ps)" for a using that out by auto
    then show ?thesis by (rule chain_cong [THEN iffD2, OF _ r(5)])
  qed
  have nz: "wg_count g \<noteq> 0" unfolding r(3) using word_of_nat_one(2) [OF r(2)] by simp
  have "adr i \<notin> set (map adr ps)" using i(2) by auto
  from wg_loop_push [OF nz c this _ r(1)] obtain w3 where
    w3: "wg_loop sps (adr i) g ?w2 = Inr (True, g\<lparr>wg_state := adr i\<rparr>, w3)"
      "chain (next_of w3) (adr i) (adr i # map adr ps)" "ctx_of w3 = ctx_of ?w2"
      "\<forall>b. m_await_coro (waiters w3 b) = m_await_coro (waiters ?w2 b) \<and> m_ctx (waiters w3 b) = m_ctx (waiters ?w2 b)"
    by auto
  have "gate_world W cx Q ql False (i # ps) rs w3"
    by (rule gate_world_push [OF r(4) _ _ i])
      (use w3(3,4) out in \<open>simp_all add: wg_prepare_def wg_wait_def set_coro_def new_waiter_def\<close>)
  then show ?thesis using w3(1,2) R by (simp add: wg_gate_wait_def wg_await_suspend_def wg_rep_def)
qed

lemma wg_gate_open:
  assumes R: "wg_rep sps cx fuel Q ql W 0 ps rs (g, w)"
  shows "\<exists>y. wg_gate_wait sps cx i (g, w) = Inr (False, y) \<and> wg_rep sps cx fuel Q ql W 0 ps rs y"
proof -
  let ?w2 = "wg_prepare (adr i) (hdl i) (wg_wait (cx i) (adr i) w)"
  have r: "False \<in> set sps" "ps = []" "wg_count g = 0" "gate_world W cx Q ql True ps rs w"
    using R by (auto simp: wg_rep_def gate_world_def)
  obtain sp sps' where sps: "sps = sp # sps'" using r(1) by (cases sps) auto
  have "gate_world W cx Q ql True ps rs ?w2"
    by (rule gate_world_same [OF r(4)]) (use r(2) in \<open>simp_all add: wg_prepare_def wg_wait_def\<close>)
  then show ?thesis using R r by (simp add: wg_gate_wait_def wg_await_suspend_def wg_rep_def sps wg_is_done_def)
qed

lemma wg_gate_done:
  assumes R: "wg_rep sps cx fuel Q ql W (Suc n) ps rs (g, w)"
  shows "0 < n \<Longrightarrow> \<exists>y. wg_done fuel Q g w = Inr y \<and> wg_rep sps cx fuel Q ql W n ps rs y"
    and "n = 0 \<Longrightarrow> \<exists>y. wg_done fuel Q g w = Inr y \<and> wg_rep sps cx fuel Q ql W 0 [] (rs \<union> set ps) y"
proof -
  have r: "W < fuel" "Suc n < 2 ^ 32" "wg_count g = word_of_nat (Suc n)" "gate_world W cx Q ql False ps rs w"
    "chain (next_of w) (wg_state g) (map adr ps)"
    using R by (simp_all add: wg_rep_def)
  have c: "wg_count g - 1 = word_of_nat n" using r(3) by simp
  have one: "wg_count g = 1 \<longleftrightarrow> n = 0" unfolding r(3) using word_of_nat_one(1) [OF r(2)] by simp
  show "\<exists>y. wg_done fuel Q g w = Inr y \<and> wg_rep sps cx fuel Q ql W n ps rs y" if "0 < n"
    using that R c one by (auto simp: wg_done_def atomic_defs wg_rep_def)
  show "\<exists>y. wg_done fuel Q g w = Inr y \<and> wg_rep sps cx fuel Q ql W 0 [] (rs \<union> set ps) y" if n: "n = 0"
  proof -
    have "distinct ps" "set ps \<subseteq> {..<W}" using r(4) by (auto simp: gate_world_def)
    then have "length ps \<le> W" by (metis card_lessThan card_mono distinct_card finite_lessThan)
    then have len: "length (map adr ps) < fuel" using r(1) by simp
    obtain w1 where w1: "submit_waiters Q (map adr ps) w = Inr w1" "gate_world W cx Q ql True [] (rs \<union> set ps) w1"
      using gate_world_wake [OF r(4)] by blast
    have "wg_done fuel Q g w = Inr (g\<lparr>wg_count := wg_count g - 1, wg_state := nullptr\<rparr>, w1)"
      using one n w1(1) resume_all_chain [OF r(5) len, of Q]
      by (simp add: wg_done_def atomic_defs wg_resume_list_eq)
    with w1(2) c n R show ?thesis by (simp add: wg_rep_def)
  qed
qed

lemma wg_gate_resume:
  assumes "wg_rep sps cx fuel Q ql W n ps rs (g, w)"
  shows "wg_rep sps cx fuel Q ql W n ps rs (g, wg_await_resume (adr i) w)"
proof -
  have "gate_world W cx Q ql (n = 0) ps rs (wg_await_resume (adr i) w)"
    by (rule gate_world_same [of _ _ _ _ _ _ _ w]) (use assms in \<open>simp_all add: wg_rep_def wg_await_resume_def\<close>)
  then show ?thesis using assms by (simp add: wg_rep_def wg_await_resume_def)
qed

interpretation wg_gates: gate "wg_gate sps cx fuel Q ql" W "wg_rep sps cx fuel Q ql W" for sps cx fuel Q ql W
proof unfold_locales
  fix n ps rs i and x :: "wait_group \<times> ('a, 'b, unit) world"
  obtain g w where x: "x = (g, w)" by (cases x)
  show "\<exists>y. gate_wait (wg_gate sps cx fuel Q ql) i x = Inr (True, y) \<and> wg_rep sps cx fuel Q ql W (Suc n) (i # ps) rs y"
    if "wg_rep sps cx fuel Q ql W (Suc n) ps rs x" "i < W" "i \<notin> set ps"
    using that wg_gate_closed by (auto simp: x wg_gate_def)
  show "\<exists>y. gate_wait (wg_gate sps cx fuel Q ql) i x = Inr (False, y) \<and> wg_rep sps cx fuel Q ql W 0 ps rs y"
    if "wg_rep sps cx fuel Q ql W 0 ps rs x" "i < W"
    using that wg_gate_open by (auto simp: x wg_gate_def)
  show "\<exists>y. gate_down (wg_gate sps cx fuel Q ql) x = Inr y \<and> wg_rep sps cx fuel Q ql W (Suc n) ps rs y"
    if "wg_rep sps cx fuel Q ql W (Suc (Suc n)) ps rs x"
    using that wg_gate_done(1) [of sps cx fuel Q ql W "Suc n" ps rs g w] by (auto simp: x wg_gate_def)
  show "\<exists>y. gate_down (wg_gate sps cx fuel Q ql) x = Inr y \<and> wg_rep sps cx fuel Q ql W 0 [] (rs \<union> set ps) y"
    if "wg_rep sps cx fuel Q ql W (Suc 0) ps rs x"
    using that wg_gate_done(2) [of sps cx fuel Q ql W 0 ps rs g w] by (auto simp: x wg_gate_def)
  show "wg_rep sps cx fuel Q ql W 0 ps rs (gate_resume (wg_gate sps cx fuel Q ql) i x)"
    if "wg_rep sps cx fuel Q ql W 0 ps rs x" "i < W"
    using that wg_gate_resume by (auto simp: x wg_gate_def)
  show "gate_resumed (wg_gate sps cx fuel Q ql) i x" if "wg_rep sps cx fuel Q ql W n ps rs x" "i < W" "i \<in> rs"
    using that by (auto simp: x wg_gate_def wg_rep_def gate_world_def split: if_splits)
  show "\<not> gate_resumed (wg_gate sps cx fuel Q ql) i x" if "wg_rep sps cx fuel Q ql W (Suc n) ps rs x" "i < W"
    using that by (auto simp: x wg_gate_def wg_rep_def gate_world_def split: if_splits)
qed

section \<open>The standard library's latch and future as gates\<close>

text \<open>
  The base lines of the benchmarks: \<open>std::latch\<close>, whose state is the number of missing arrivals, and
  \<open>std::promise\<close> with its future, which is the same with one arrival. A thread that waits stays
  where it is until the count is 0; one arrival too many is undefined for the latch and throws for
  the promise, so no step follows it.
\<close>

definition std_gate :: "nat gate_ops" where
  "std_gate =
     \<lparr>gate_wait = (\<lambda>i n. Inr (0 < n, n)), gate_resume = (\<lambda>i n. n),
      gate_down = (\<lambda>n. if n = 0 then Inl Std_exception else Inr (n - 1)), gate_resumed = (\<lambda>i n. n = 0)\<rparr>"

interpretation std_gates: gate std_gate W "\<lambda>n ps rs x. x = n \<and> (0 < n \<longrightarrow> rs = {})" for W
  by unfold_locales (auto simp: std_gate_def)

text \<open>
  \<open>wait_tp\<close> and \<open>wait\<close>, \<open>countdown_tp\<close>, \<open>countdown\<close>, \<open>done\<close>, \<open>set_tp\<close> and \<open>set\<close> on the
  standard library's objects, each blocking a thread of its own.
\<close>

definition std_gate_task :: "nat \<Rightarrow> nat \<Rightarrow> nat gate_sys \<Rightarrow> nat gate_sys option" where
  "std_gate_task loop_num = gate_task std_gate loop_num"

lemma std_gate_program:
  assumes "p_run (std_gate_task K) is (gate_begin W D) = Some s" and "set is \<subseteq> {..<W + D}"
  shows "length is \<le> 3 * W + (K + 1) * D"
    and "i < W \<Longrightarrow> g_at s i = G_passed \<or> g_at s i = G_done \<Longrightarrow> W \<le> j \<Longrightarrow> j < W + D \<Longrightarrow> g_at s j = G_done"
    and "\<forall>i<W + D. std_gate_task K i s = None \<Longrightarrow> j < W + D \<Longrightarrow> g_at s j = G_done"
proof -
  have R: "D = D \<and> (0 < D \<longrightarrow> {} = ({} :: nat set))" by simp
  note c = std_gates.complete [OF assms [unfolded std_gate_task_def] R]
  show "length is \<le> 3 * W + (K + 1) * D" by (rule c(1))
  show "i < W \<Longrightarrow> g_at s i = G_passed \<or> g_at s i = G_done \<Longrightarrow> W \<le> j \<Longrightarrow> j < W + D \<Longrightarrow> g_at s j = G_done"
    by (rule c(2))
  show "\<forall>i<W + D. std_gate_task K i s = None \<Longrightarrow> j < W + D \<Longrightarrow> g_at s j = G_done"
    unfolding std_gate_task_def by (rule c(3))
qed

section \<open>Properties\<close>

text \<open>Everything is at rest before the coroutines run.\<close>

definition gate_ready :: "'q queue_ops \<Rightarrow> ('q \<Rightarrow> handle list) \<Rightarrow> ('q, 'v, unit) world \<Rightarrow> bool" where
  "gate_ready Q ql w \<longleftrightarrow> (\<forall>k. context_running Q ql (ctx_of w k) \<and> queued ql w k = [])"

lemma event_program:
  assumes "gate_ready Q ql w" and "False \<in> set sps" "W < fuel" "W \<le> kQueCap"
    and "p_run (gate_task (event_gate sps cx fuel Q ql) K) is (gate_begin W (new_event 1 False, w)) = Some s"
    and "set is \<subseteq> {..<W + 1}"
  shows "length is \<le> 3 * W + (K + 1)"
    and "i < W \<Longrightarrow> g_at s i = G_passed \<or> g_at s i = G_done \<Longrightarrow> g_at s W = G_done"
    and "\<forall>i<W + 1. gate_task (event_gate sps cx fuel Q ql) K i s = None \<Longrightarrow> j < W + 1 \<Longrightarrow> g_at s j = G_done"
proof -
  have R: "1 \<le> (1 :: nat) \<and> event_rep sps cx fuel Q ql W (1 = (0 :: nat)) [] {} (new_event 1 False, w)"
    using assms(1-4) by (simp add: event_rep_def new_event_def gate_world_def gate_ready_def parked_on_def)
  note c = ev_gate.complete [OF assms(5,6) R]
  show "length is \<le> 3 * W + (K + 1)" using c(1) by simp
  show "i < W \<Longrightarrow> g_at s i = G_passed \<or> g_at s i = G_done \<Longrightarrow> g_at s W = G_done" by (rule c(2)) auto
  show "\<forall>i<W + 1. gate_task (event_gate sps cx fuel Q ql) K i s = None \<Longrightarrow> j < W + 1 \<Longrightarrow> g_at s j = G_done"
    by (rule c(3))
qed

lemma wait_group_program:
  assumes "gate_ready Q ql w" and "False \<in> set sps" "W < fuel" "W \<le> kQueCap" "D < 2 ^ 32"
    and "p_run (gate_task (wg_gate sps cx fuel Q ql) K) is (gate_begin W (wg_add (word_of_nat D) (new_wait_group 0), w)) = Some s"
    and "set is \<subseteq> {..<W + D}"
  shows "length is \<le> 3 * W + (K + 1) * D"
    and "i < W \<Longrightarrow> g_at s i = G_passed \<or> g_at s i = G_done \<Longrightarrow> W \<le> j \<Longrightarrow> j < W + D \<Longrightarrow> g_at s j = G_done"
    and "\<forall>i<W + D. gate_task (wg_gate sps cx fuel Q ql) K i s = None \<Longrightarrow> j < W + D \<Longrightarrow> g_at s j = G_done"
proof -
  have R: "wg_rep sps cx fuel Q ql W D [] {} (wg_add (word_of_nat D) (new_wait_group 0), w)"
    using assms(1-5) by (simp add: wg_rep_def wg_add_def new_wait_group_def atomic_defs gate_world_def gate_ready_def)
  note c = wg_gates.complete [OF assms(6,7) R]
  show "length is \<le> 3 * W + (K + 1) * D" by (rule c(1))
  show "i < W \<Longrightarrow> g_at s i = G_passed \<or> g_at s i = G_done \<Longrightarrow> W \<le> j \<Longrightarrow> j < W + D \<Longrightarrow> g_at s j = G_done"
    by (rule c(2))
  show "\<forall>i<W + D. gate_task (wg_gate sps cx fuel Q ql) K i s = None \<Longrightarrow> j < W + D \<Longrightarrow> g_at s j = G_done"
    by (rule c(3))
qed

text \<open>
  C13. A program of \<open>W\<close> coroutines that wait on a latch of count \<open>D\<close> and \<open>D\<close> that work and count
  it down: whatever the schedule, no waiter gets past the latch before every worker has counted
  down, no run takes more than \<open>3 * W + (K + 1) * D\<close> steps, and when nothing can move every
  coroutine has finished; no assertion fails and nobody is left waiting.
\<close>

theorem latch_program:
  assumes "gate_ready Q ql w" and "False \<in> set sps" "W < fuel" "W \<le> kQueCap" "int D < 2 ^ 63"
    and "p_run (gate_task (latch_gate sps cx fuel Q ql) K) is (gate_begin W (new_latch 1 (word_of_int (int D)), w)) = Some s"
    and "set is \<subseteq> {..<W + D}" and "0 < D"
  shows "length is \<le> 3 * W + (K + 1) * D \<and>
    (\<forall>i<W. g_at s i = G_passed \<or> g_at s i = G_done \<longrightarrow> (\<forall>j. W \<le> j \<and> j < W + D \<longrightarrow> g_at s j = G_done)) \<and>
    ((\<forall>i<W + D. gate_task (latch_gate sps cx fuel Q ql) K i s = None) \<longrightarrow> (\<forall>i<W + D. g_at s i = G_done))"
proof -
  have "unat (word_of_int (int D) :: u64) = D"
    using assms(5) by (simp add: unat_of_nat take_bit_nat_eq_self_iff)
  then have "\<not> (word_of_int (int D) :: u64) \<le> 0" using assms(8) by (metis neq0_conv unat_0 word_le_0_iff)
  then have R: "latch_rep sps cx fuel Q ql W D [] {} (new_latch 1 (word_of_int (int D)), w)"
    using assms(1-5,8)
    by (simp add: latch_rep_def new_latch_def event_rep_def new_event_def gate_world_def gate_ready_def parked_on_def)
  note c = latch_gates.complete [OF assms(6,7) R]
  show ?thesis using c by blast
qed

text \<open>One waiter and two workers: the waiter parks, the second count-down lets it go.\<close>

theorem latch_program_witness:
  "\<exists>s. p_run (gate_task (latch_gate [False] (\<lambda>_. 0) 2 list_queue (\<lambda>q. q)) 1) [0, 1, 1, 2, 2, 0, 0]
      (gate_begin 1 (new_latch 1 2, demo_world)) = Some s \<and> g_at s 2 = G_done"
proof -
  let ?G = "latch_gate [False] (\<lambda>_. 0) 2 list_queue (\<lambda>q. q)"
  let ?x = "(new_latch 1 (word_of_int (int 2)), demo_world)"
  have ready: "gate_ready list_queue (\<lambda>q. q) demo_world"
    using demo_context_running demo_context_queue by (simp add: gate_ready_def demo_world_def)
  have R: "latch_rep [False] (\<lambda>_. 0) 2 list_queue (\<lambda>q. q) 1 2 [] {} ?x"
    using ready by (simp add: latch_rep_def new_latch_def event_rep_def new_event_def gate_world_def
        gate_ready_def parked_on_def kQueCap_def)
  obtain x1 where x1: "gate_wait ?G 0 ?x = Inr (True, x1)" "latch_rep [False] (\<lambda>_. 0) 2 list_queue (\<lambda>q. q) 1 2 [0] {} x1"
    using latch_gates.wait_closed [of "[False]" "\<lambda>_. 0" 2 list_queue "\<lambda>q. q" 1 1 "[]" "{}" ?x 0] R
    by (auto simp: numeral_2_eq_2)
  obtain x2 where x2: "gate_down ?G x1 = Inr x2" "latch_rep [False] (\<lambda>_. 0) 2 list_queue (\<lambda>q. q) 1 1 [0] {} x2"
    using latch_gates.down [of "[False]" "\<lambda>_. 0" 2 list_queue "\<lambda>q. q" 1 0 "[0]" "{}" x1] x1(2)
    by (auto simp: numeral_2_eq_2)
  obtain x3 where x3: "gate_down ?G x2 = Inr x3" "latch_rep [False] (\<lambda>_. 0) 2 list_queue (\<lambda>q. q) 1 0 [] {0} x3"
    using latch_gates.down_last [of "[False]" "\<lambda>_. 0" 2 list_queue "\<lambda>q. q" 1 "[0]" "{}" x2] x2(2) by auto
  have x4: "gate_resumed ?G 0 x3" using latch_gates.resumed [OF x3(2), of 0] by simp
  have "p_run (gate_task ?G 1) [0, 1, 1, 2, 2, 0, 0] (gate_begin 1 ?x) \<noteq> None"
    using x1(1) x2(1) x3(1) x4 by (simp add: gate_begin_def gate_task_def)
  then obtain s where s: "p_run (gate_task ?G 1) [0, 1, 1, 2, 2, 0, 0] (gate_begin 1 ?x) = Some s" by auto
  have "g_at s 0 = G_done" using s x1(1) x2(1) x3(1) x4 by (auto simp: gate_begin_def gate_task_def)
  with latch_program [OF ready _ _ _ _ s] s show ?thesis by (auto simp: kQueCap_def)
qed

end
