(* ===== verification/Gate_Examples.thy ===== *)
theory Gate_Examples
  imports Gate_Programs
begin

text \<open>
  The programs of examples/event.cpp, event_guard.cpp, latch.cpp, latch_guard.cpp and wait_group.cpp
  and of benchtests/lab4a_bench.cpp, lab4b_bench.cpp and lab4c_bench.cpp, as instances of
  Gate_Programs: which object, how many coroutines wait and how many arrivals there are.
\<close>

section \<open>The examples\<close>

text \<open>Sleeping for some seconds is one step. Four tasks wait for one, or one for four.\<close>

definition example_num :: nat where
  "example_num = 5"

definition event_tasks where
  "event_tasks sps cx fuel Q ql = gate_task (event_gate sps cx fuel Q ql) 1"

definition event_main :: "('q, 'v, unit) world \<Rightarrow> (event_base \<times> ('q, 'v, unit) world) gate_sys" where
  "event_main w = gate_begin (example_num - 1) (new_event 1 False, w)"

text \<open>The destructor of the guard sets the event.\<close>

definition event_guard_tasks where
  "event_guard_tasks sps cx fuel Q ql = gate_task (event_gate sps cx fuel Q ql) 1"

definition event_guard_main :: "('q, 'v, unit) world \<Rightarrow> (event_base \<times> ('q, 'v, unit) world) gate_sys" where
  "event_guard_main w = gate_begin (example_num - 1) (new_event 1 False, w)"

definition latch_tasks where
  "latch_tasks sps cx fuel Q ql = gate_task (latch_gate sps cx fuel Q ql) 1"

definition latch_main :: "('q, 'v, unit) world \<Rightarrow> (latch \<times> ('q, 'v, unit) world) gate_sys" where
  "latch_main w = gate_begin 1 (new_latch 1 (word_of_int (int (example_num - 1))), w)"

definition latch_guard_tasks where
  "latch_guard_tasks sps cx fuel Q ql = gate_task (latch_gate sps cx fuel Q ql) 1"

definition latch_guard_main :: "('q, 'v, unit) world \<Rightarrow> (latch \<times> ('q, 'v, unit) world) gate_sys" where
  "latch_guard_main w = gate_begin 1 (new_latch 1 (word_of_int (int (example_num - 1))), w)"

definition wait_group_tasks where
  "wait_group_tasks sps cx fuel Q ql = gate_task (wg_gate sps cx fuel Q ql) 1"

definition wait_group_main :: "('q, 'v, unit) world \<Rightarrow> (wait_group \<times> ('q, 'v, unit) world) gate_sys" where
  "wait_group_main w = gate_begin 1 (wg_add (word_of_nat 3) (new_wait_group 0), w)"

section \<open>The benchmarks\<close>

text \<open>
  \<open>loop_num\<close> is the bound of the loop of \<open>loop_add\<close>, \<open>thread_num\<close> the number of hardware threads.
\<close>

definition event_bench_tasks where
  "event_bench_tasks sps cx fuel Q ql loop_num = gate_task (event_gate sps cx fuel Q ql) loop_num"

definition event_bench :: "nat \<Rightarrow> ('q, 'v, unit) world \<Rightarrow> (event_base \<times> ('q, 'v, unit) world) gate_sys" where
  "event_bench thread_num w = gate_begin (thread_num - 1) (new_event 1 False, w)"

definition latch_bench_tasks where
  "latch_bench_tasks sps cx fuel Q ql loop_num = gate_task (latch_gate sps cx fuel Q ql) loop_num"

definition latch_bench :: "nat \<Rightarrow> ('q, 'v, unit) world \<Rightarrow> (latch \<times> ('q, 'v, unit) world) gate_sys" where
  "latch_bench thread_num w =
     (let countdown_num = thread_num div 2; wait_num = thread_num - countdown_num in
      gate_begin wait_num (new_latch 1 (word_of_int (int countdown_num)), w))"

definition wg_bench_tasks where
  "wg_bench_tasks sps cx fuel Q ql loop_num = gate_task (wg_gate sps cx fuel Q ql) loop_num"

definition waitgroup_bench :: "nat \<Rightarrow> ('q, 'v, unit) world \<Rightarrow> (wait_group \<times> ('q, 'v, unit) world) gate_sys" where
  "waitgroup_bench thread_num w =
     (let done_num = thread_num div 2; wait_num = thread_num - done_num in
      gate_begin wait_num (new_wait_group (word_of_nat done_num), w))"

text \<open>The same with the standard library's objects, on the thread pool and on the scheduler.\<close>

definition future_tp_tasks :: "nat \<Rightarrow> nat \<Rightarrow> nat gate_sys \<Rightarrow> nat gate_sys option" where
  "future_tp_tasks loop_num = gate_task std_gate loop_num"

definition future_tasks :: "nat \<Rightarrow> nat \<Rightarrow> nat gate_sys \<Rightarrow> nat gate_sys option" where
  "future_tasks loop_num = gate_task std_gate loop_num"

definition threadpool_stl_future :: "nat \<Rightarrow> nat gate_sys" where
  "threadpool_stl_future thread_num = gate_begin (thread_num - 1) 1"

definition latch_tp_tasks :: "nat \<Rightarrow> nat \<Rightarrow> nat gate_sys \<Rightarrow> nat gate_sys option" where
  "latch_tp_tasks loop_num = gate_task std_gate loop_num"

definition stl_latch_tasks :: "nat \<Rightarrow> nat \<Rightarrow> nat gate_sys \<Rightarrow> nat gate_sys option" where
  "stl_latch_tasks loop_num = gate_task std_gate loop_num"

definition threadpool_stl_latch :: "nat \<Rightarrow> nat gate_sys" where
  "threadpool_stl_latch thread_num =
     (let countdown_num = thread_num div 2; wait_num = thread_num - countdown_num in
      gate_begin wait_num countdown_num)"

definition done_tp_tasks :: "nat \<Rightarrow> nat \<Rightarrow> nat gate_sys \<Rightarrow> nat gate_sys option" where
  "done_tp_tasks loop_num = gate_task std_gate loop_num"

definition stl_done_tasks :: "nat \<Rightarrow> nat \<Rightarrow> nat gate_sys \<Rightarrow> nat gate_sys option" where
  "stl_done_tasks loop_num = gate_task std_gate loop_num"

definition threadpool_stl_done :: "nat \<Rightarrow> nat gate_sys" where
  "threadpool_stl_done thread_num =
     (let countdown_num = thread_num div 2; wait_num = thread_num - countdown_num in
      gate_begin wait_num countdown_num)"

section \<open>They come to their end\<close>

text \<open>When nothing can move any more, every task has finished.\<close>

lemma event_main_ends:
  assumes "gate_ready Q ql w" and "False \<in> set sps" "4 < fuel"
    and "p_run (event_tasks sps cx fuel Q ql) is (event_main w) = Some s" and "set is \<subseteq> {..<5}"
    and "\<forall>i<5. event_tasks sps cx fuel Q ql i s = None" and "j < 5"
  shows "g_at s j = G_done"
  using event_program(3) [of Q ql w sps 4 fuel cx 1 "is" s j] assms
  by (simp add: event_tasks_def event_main_def example_num_def kQueCap_def)

lemma wait_group_main_ends:
  assumes "gate_ready Q ql w" and "False \<in> set sps" "1 < fuel"
    and "p_run (wait_group_tasks sps cx fuel Q ql) is (wait_group_main w) = Some s" and "set is \<subseteq> {..<4}"
    and "\<forall>i<4. wait_group_tasks sps cx fuel Q ql i s = None" and "j < 4"
  shows "g_at s j = G_done"
  using wait_group_program(3) [of Q ql w sps 1 fuel 3 cx 1 "is" s j] assms
  by (simp add: wait_group_tasks_def wait_group_main_def kQueCap_def)

lemma event_bench_ends:
  assumes "gate_ready Q ql w" and "False \<in> set sps" "thread_num \<le> fuel" and n: "0 < thread_num" "thread_num \<le> kQueCap"
    and run: "p_run (event_bench_tasks sps cx fuel Q ql loop_num) is (event_bench thread_num w) = Some s"
    and sub: "set is \<subseteq> {..<thread_num}"
    and no: "\<forall>i<thread_num. event_bench_tasks sps cx fuel Q ql loop_num i s = None" and j: "j < thread_num"
  shows "g_at s j = G_done"
proof -
  have W: "thread_num - 1 + 1 = thread_num" using n(1) by simp
  have "thread_num - 1 < fuel" "thread_num - 1 \<le> kQueCap" using assms(3) n by auto
  from event_program(3) [OF assms(1,2) this run [unfolded event_bench_tasks_def event_bench_def], unfolded W]
  show ?thesis using sub no j by (simp add: event_bench_tasks_def)
qed

lemma waitgroup_bench_ends:
  assumes "gate_ready Q ql w" and "False \<in> set sps" and "thread_num < fuel" "thread_num \<le> kQueCap"
    and run: "p_run (wg_bench_tasks sps cx fuel Q ql loop_num) is (waitgroup_bench thread_num w) = Some s"
    and sub: "set is \<subseteq> {..<thread_num}"
    and no: "\<forall>i<thread_num. wg_bench_tasks sps cx fuel Q ql loop_num i s = None" and j: "j < thread_num"
  shows "g_at s j = G_done"
proof -
  let ?D = "thread_num div 2" and ?W = "thread_num - thread_num div 2"
  have W: "?W + ?D = thread_num" by simp
  have "wg_add (word_of_nat ?D) (new_wait_group 0) = new_wait_group (word_of_nat ?D)"
    by (simp add: wg_add_def new_wait_group_def atomic_defs)
  then have main: "waitgroup_bench thread_num w = gate_begin ?W (wg_add (word_of_nat ?D) (new_wait_group 0), w)"
    by (simp add: waitgroup_bench_def Let_def)
  have b: "?W < fuel" "?W \<le> kQueCap" "?D < 2 ^ 32" using assms(3,4) by (auto simp: kQueCap_def)
  from wait_group_program(3) [OF assms(1,2) b run [unfolded wg_bench_tasks_def main], unfolded W]
  show ?thesis using sub no j by (simp add: wg_bench_tasks_def)
qed

lemma threadpool_stl_latch_ends:
  assumes "p_run (latch_tp_tasks loop_num) is (threadpool_stl_latch thread_num) = Some s"
    and "set is \<subseteq> {..<thread_num}" and "\<forall>i<thread_num. latch_tp_tasks loop_num i s = None" and "j < thread_num"
  shows "g_at s j = G_done"
  using std_gate_program(3) [of loop_num "is" "thread_num - thread_num div 2" "thread_num div 2" s j] assms
  by (simp add: std_gate_task_def latch_tp_tasks_def threadpool_stl_latch_def Let_def)

end
