(* ===== verification/Event_Value.thy ===== *)
theory Event_Value
  imports Gate_Programs
begin

text \<open>
  The event with a value as a gate (\<open>event<T>\<close> of include/coro/comp/event.hpp), and the program of
  examples/event_value.cpp: coroutines that await the event and read what was set.
\<close>

section \<open>The gate\<close>

text \<open>
  The object is the event with its container and the world; the list records what each coroutine
  got from its \<open>co_await\<close>. \<open>set\<close> stores the value before it opens the event, and nobody reads the
  container of a closed event, so both are one step.
\<close>

record ('q, 'v, 't, 'e) value_obj =
  vo_event :: "('t, 'e) value_event"
  vo_world :: "('q, 'v, unit) world"
  vo_reads :: "(nat \<times> ('e thrown + 't)) list"

definition new_value_event :: "addr \<Rightarrow> ('t, 'e) value_event" where
  "new_value_event this = event_base.extend (new_event this False) (value_event.fields new_container)"

definition value_gate_wait ::
    "bool list \<Rightarrow> (nat \<Rightarrow> nat) \<Rightarrow> nat \<Rightarrow> ('q, 'v, 't, 'e) value_obj \<Rightarrow>
     (bool \<times> ('q, 'v, 't, 'e) value_obj) res" where
  "value_gate_wait sps cx i x =
     bindE (event_gate_wait sps cx i (event_base.truncate (vo_event x), vo_world x)) (\<lambda>(b, ev, w).
       Inr (b, x\<lparr>vo_event := (vo_event x)\<lparr>m_state := m_state ev\<rparr>, vo_world := w\<rparr>))"

definition value_gate_resume :: "nat \<Rightarrow> ('q, 'v, 't, 'e) value_obj \<Rightarrow> ('q, 'v, 't, 'e) value_obj" where
  "value_gate_resume i x =
     (case value_await_resume (adr i) (vo_event x) (vo_world x) of
        (r, w) \<Rightarrow> x\<lparr>vo_world := w, vo_reads := vo_reads x @ [(i, r)]\<rparr>)"

definition value_gate_set ::
    "nat \<Rightarrow> 'q queue_ops \<Rightarrow> 't \<Rightarrow> ('q, 'v, 't, 'e) value_obj \<Rightarrow> ('q, 'v, 't, 'e) value_obj res" where
  "value_gate_set fuel Q v x =
     bindE (set_value fuel Q v (vo_event x) (vo_world x)) (\<lambda>(ev, w). Inr (x\<lparr>vo_event := ev, vo_world := w\<rparr>))"

definition value_gate ::
    "bool list \<Rightarrow> (nat \<Rightarrow> nat) \<Rightarrow> nat \<Rightarrow> 'q queue_ops \<Rightarrow> ('q \<Rightarrow> handle list) \<Rightarrow> 't \<Rightarrow>
     ('q, 'v, 't, 'e) value_obj gate_ops" where
  "value_gate sps cx fuel Q ql v =
     \<lparr>gate_wait = value_gate_wait sps cx, gate_resume = value_gate_resume,
      gate_down = value_gate_set fuel Q v,
      gate_resumed = (\<lambda>i x. hdl i \<in> set (queued ql (vo_world x) (cx i)))\<rparr>"

text \<open>What the event refines to, and that everybody who got past it read the value.\<close>

definition value_rep ::
    "bool list \<Rightarrow> (nat \<Rightarrow> nat) \<Rightarrow> nat \<Rightarrow> 'q queue_ops \<Rightarrow> ('q \<Rightarrow> handle list) \<Rightarrow> 't \<Rightarrow> nat \<Rightarrow>
     bool \<Rightarrow> nat list \<Rightarrow> nat set \<Rightarrow> ('q, 'v, 't, 'e) value_obj \<Rightarrow> bool" where
  "value_rep sps cx fuel Q ql v W opn ps rs x \<longleftrightarrow>
     event_rep sps cx fuel Q ql W opn ps rs (event_base.truncate (vo_event x), vo_world x) \<and>
     (if opn then ev_slot (vo_event x) = \<lparr>m_storage = Stored v, undestroyed = []\<rparr> else
        ev_slot (vo_event x) = new_container \<and> vo_reads x = []) \<and>
     (\<forall>p\<in>set (vo_reads x). snd p = Inr v)"

lemma truncate_upd [simp]:
  "event_base.truncate (ev\<lparr>m_state := m\<rparr>) = (event_base.truncate ev)\<lparr>m_state := m\<rparr>"
  "ev_this (event_base.truncate ev) = ev_this ev" "m_state (event_base.truncate ev) = m_state ev"
  "event_base.truncate (ev\<lparr>ev_slot := c\<rparr>) = event_base.truncate ev"
  by (simp_all add: event_base.truncate_def)

lemma event_rep_this:
  "event_rep sps cx fuel Q ql W opn ps rs (ev, w) \<Longrightarrow> ev_this ev = 1"
  by (simp add: event_rep_def)

lemma event_base_state:
  fixes ev ev1 :: event_base
  assumes "ev_this ev1 = ev_this ev"
  shows "ev\<lparr>m_state := m_state ev1\<rparr> = ev1"
  using assms by (cases ev; cases ev1) simp

lemma value_gate_closed:
  assumes R: "value_rep sps cx fuel Q ql v W False ps rs x" and i: "i < W" "i \<notin> set ps"
  shows "\<exists>y. value_gate_wait sps cx i x = Inr (True, y) \<and> value_rep sps cx fuel Q ql v W False (i # ps) rs y"
proof -
  let ?ev = "event_base.truncate (vo_event x)"
  have E: "event_rep sps cx fuel Q ql W False ps rs (?ev, vo_world x)" using R by (simp add: value_rep_def)
  obtain ev1 w1 where y: "event_gate_wait sps cx i (?ev, vo_world x) = Inr (True, ev1, w1)"
    "event_rep sps cx fuel Q ql W False (i # ps) rs (ev1, w1)"
    using event_gate_closed [OF E i] by auto
  have t: "?ev\<lparr>m_state := m_state ev1\<rparr> = ev1"
    by (rule event_base_state) (use event_rep_this [OF E] event_rep_this [OF y(2)] in simp)
  show ?thesis using y R by (simp add: value_gate_wait_def value_rep_def t)
qed

lemma value_gate_open:
  assumes R: "value_rep sps cx fuel Q ql v W True ps rs x" and i: "i < W"
  shows "\<exists>y. value_gate_wait sps cx i x = Inr (False, y) \<and> value_rep sps cx fuel Q ql v W True ps rs y"
proof -
  let ?ev = "event_base.truncate (vo_event x)"
  have E: "event_rep sps cx fuel Q ql W True ps rs (?ev, vo_world x)" using R by (simp add: value_rep_def)
  obtain ev1 w1 where y: "event_gate_wait sps cx i (?ev, vo_world x) = Inr (False, ev1, w1)"
    "event_rep sps cx fuel Q ql W True ps rs (ev1, w1)"
    using event_gate_open [OF E i] by auto
  have t: "?ev\<lparr>m_state := m_state ev1\<rparr> = ev1"
    by (rule event_base_state) (use event_rep_this [OF E] event_rep_this [OF y(2)] in simp)
  show ?thesis using y R by (simp add: value_gate_wait_def value_rep_def t)
qed

lemma value_gate_sets:
  assumes R: "value_rep sps cx fuel Q ql v W False ps rs x"
  shows "\<exists>y. value_gate_set fuel Q v x = Inr y \<and> value_rep sps cx fuel Q ql v W True [] (rs \<union> set ps) y"
proof -
  let ?ev = "event_base.truncate (vo_event x)"
  have E: "event_rep sps cx fuel Q ql W False ps rs (?ev, vo_world x)" using R by (simp add: value_rep_def)
  obtain ev1 w1 where y: "set_state fuel Q ?ev (vo_world x) = Inr (ev1, w1)"
    "event_rep sps cx fuel Q ql W True [] (rs \<union> set ps) (ev1, w1)"
    using event_gate_set [OF E] by auto
  have t: "?ev\<lparr>m_state := m_state ev1\<rparr> = ev1"
    by (rule event_base_state) (use event_rep_this [OF E] event_rep_this [OF y(2)] in simp)
  have tt: "event_base.truncate ((vo_event x)\<lparr>m_state := m_state ev1, ev_slot := c\<rparr>) = ev1" for c
    using t by simp
  show ?thesis
    using y R tt by (simp add: value_gate_set_def set_value_def value_rep_def Let_def return_value_def new_container_def)
qed

lemma value_gate_resumes:
  assumes R: "value_rep sps cx fuel Q ql v W True ps rs x"
  shows "value_rep sps cx fuel Q ql v W True ps rs (value_gate_resume i x)"
proof -
  have E: "event_rep sps cx fuel Q ql W True ps rs (event_base.truncate (vo_event x), vo_world x)"
    using R by (simp add: value_rep_def)
  show ?thesis
    using event_gate_resume [OF E, of i] R
    by (simp add: value_gate_resume_def value_await_resume_def value_rep_def container_result_def Let_def)
qed

lemma value_gate_resumed:
  assumes "value_rep sps cx fuel Q ql v W opn ps rs x" and "i < W"
  shows "hdl i \<in> set (queued ql (vo_world x) (cx i)) \<longleftrightarrow> i \<in> rs"
  using event_gate_resumed assms by (fastforce simp: value_rep_def)

lemma value_rep_closed: "value_rep sps cx fuel Q ql v W False ps rs x \<Longrightarrow> rs = {}"
  by (simp add: value_rep_def event_rep_def gate_world_def)

interpretation val_gate: gate "value_gate sps cx fuel Q ql v" W
    "\<lambda>n ps rs x. n \<le> 1 \<and> value_rep sps cx fuel Q ql v W (n = 0) ps rs x" for sps cx fuel Q ql v W
proof unfold_locales
  fix n ps rs i and x :: "('a, 'c, 'b, 'd) value_obj"
  show "\<exists>y. gate_wait (value_gate sps cx fuel Q ql v) i x = Inr (True, y) \<and>
      Suc n \<le> 1 \<and> value_rep sps cx fuel Q ql v W (Suc n = 0) (i # ps) rs y"
    if "Suc n \<le> 1 \<and> value_rep sps cx fuel Q ql v W (Suc n = 0) ps rs x" "i < W" "i \<notin> set ps"
    using that value_gate_closed [of sps cx fuel Q ql v W ps rs x i] by (simp add: value_gate_def)
  show "\<exists>y. gate_wait (value_gate sps cx fuel Q ql v) i x = Inr (False, y) \<and>
      0 \<le> (1 :: nat) \<and> value_rep sps cx fuel Q ql v W (0 = (0 :: nat)) ps rs y"
    if "0 \<le> (1 :: nat) \<and> value_rep sps cx fuel Q ql v W (0 = (0 :: nat)) ps rs x" "i < W"
    using that value_gate_open [of sps cx fuel Q ql v W ps rs x i] by (simp add: value_gate_def)
  show "\<exists>y. gate_down (value_gate sps cx fuel Q ql v) x = Inr y \<and>
      Suc n \<le> 1 \<and> value_rep sps cx fuel Q ql v W (Suc n = 0) ps rs y"
    if "Suc (Suc n) \<le> 1 \<and> value_rep sps cx fuel Q ql v W (Suc (Suc n) = 0) ps rs x"
    using that by simp
  show "\<exists>y. gate_down (value_gate sps cx fuel Q ql v) x = Inr y \<and>
      0 \<le> (1 :: nat) \<and> value_rep sps cx fuel Q ql v W (0 = (0 :: nat)) [] (rs \<union> set ps) y"
    if "Suc 0 \<le> 1 \<and> value_rep sps cx fuel Q ql v W (Suc 0 = 0) ps rs x"
    using that value_gate_sets [of sps cx fuel Q ql v W ps rs x] by (simp add: value_gate_def)
  show "0 \<le> (1 :: nat) \<and> value_rep sps cx fuel Q ql v W (0 = (0 :: nat)) ps rs (gate_resume (value_gate sps cx fuel Q ql v) i x)"
    if "0 \<le> (1 :: nat) \<and> value_rep sps cx fuel Q ql v W (0 = (0 :: nat)) ps rs x" "i < W"
    using that value_gate_resumes by (simp add: value_gate_def)
  show "gate_resumed (value_gate sps cx fuel Q ql v) i x"
    if "n \<le> 1 \<and> value_rep sps cx fuel Q ql v W (n = 0) ps rs x" "i < W" "i \<in> rs"
    using that value_gate_resumed [of sps cx fuel Q ql v W "n = 0" ps rs x i] by (simp add: value_gate_def)
  show "\<not> gate_resumed (value_gate sps cx fuel Q ql v) i x"
    if "Suc n \<le> 1 \<and> value_rep sps cx fuel Q ql v W (Suc n = 0) ps rs x" "i < W"
    using that value_gate_resumed [of sps cx fuel Q ql v W False ps rs x i]
      value_rep_closed [of sps cx fuel Q ql v W ps rs x] by (simp add: value_gate_def)
qed

section \<open>Who has read\<close>

text \<open>Every coroutine that is past the event has an entry among the reads.\<close>

definition all_read :: "nat \<Rightarrow> ('q, 'v, 't, 'e) value_obj gate_sys \<Rightarrow> bool" where
  "all_read W s \<longleftrightarrow>
     (\<forall>i<W. (\<forall>k. g_at s i \<noteq> G_work k) \<and>
        (g_at s i \<in> {G_passed, G_done} \<longrightarrow> i \<in> fst ` set (vo_reads (g_obj s))))"

lemma value_reads_kept:
  "value_gate_wait sps cx i x = Inr (b, y) \<Longrightarrow> vo_reads y = vo_reads x"
  "value_gate_set fuel Q v x = Inr y \<Longrightarrow> vo_reads y = vo_reads x"
  "fst ` set (vo_reads (value_gate_resume i x)) = insert i (fst ` set (vo_reads x))"
  by (auto simp: value_gate_wait_def value_gate_set_def value_gate_resume_def bindE_Inr_iff split: prod.splits)

lemma all_read_step:
  assumes A: "all_read W s" and t: "gate_task (value_gate sps cx fuel Q ql v) K i s = Some s'"
  shows "all_read W s'"
proof (cases "g_at s i")
  case G_start
  then consider y where "value_gate_wait sps cx i (g_obj s) = Inr (True, y)"
      "s' = \<lparr>g_obj = y, g_at = (g_at s)(i := G_parked)\<rparr>"
    | y where "value_gate_wait sps cx i (g_obj s) = Inr (False, y)"
      "s' = \<lparr>g_obj = value_gate_resume i y, g_at = (g_at s)(i := G_passed)\<rparr>"
    using t by (auto simp: gate_task_def value_gate_def split: sum.splits prod.splits bool.splits)
  then show ?thesis
  proof cases
    case (1 y)
    then show ?thesis using A value_reads_kept(1) [OF 1(1)] by (simp add: all_read_def)
  next
    case (2 y)
    then show ?thesis using A value_reads_kept(1) [OF 2(1)] value_reads_kept(3) [of i y]
      by (simp add: all_read_def)
  qed
next
  case G_parked
  then have "s' = \<lparr>g_obj = value_gate_resume i (g_obj s), g_at = (g_at s)(i := G_passed)\<rparr>"
    using t by (auto simp: gate_task_def value_gate_def split: if_splits)
  then show ?thesis using A value_reads_kept(3) [of i "g_obj s"] by (simp add: all_read_def)
next
  case G_passed
  then have "s' = s\<lparr>g_at := (g_at s)(i := G_done)\<rparr>" using t by (simp add: gate_task_def)
  then show ?thesis using A G_passed by (simp add: all_read_def)
next
  case (G_work k)
  then have W: "W \<le> i" using A by (auto simp: all_read_def not_less [symmetric])
  have "vo_reads (g_obj s') = vo_reads (g_obj s) \<and> (\<exists>p. g_at s' = (g_at s)(i := p))"
    using t G_work value_reads_kept(2)
    by (auto simp: gate_task_def value_gate_def split: sum.splits if_splits)
  then show ?thesis using A W by (auto simp: all_read_def)
next
  case G_done
  then show ?thesis using t by (simp add: gate_task_def)
qed

lemma all_read_run:
  "p_run (gate_task (value_gate sps cx fuel Q ql v) K) is s = Some s' \<Longrightarrow> all_read W s \<Longrightarrow> all_read W s'"
proof (induction "is" arbitrary: s)
  case (Cons i "is")
  then show ?case by (auto split: option.splits intro: all_read_step)
qed simp

section \<open>The program\<close>

definition value_begin :: "nat \<Rightarrow> ('q, 'v, unit) world \<Rightarrow> ('q, 'v, 't, 'e) value_obj gate_sys" where
  "value_begin W w = gate_begin W \<lparr>vo_event = new_value_event 1, vo_world = w, vo_reads = []\<rparr>"

lemma value_begin_rep:
  assumes "gate_ready Q ql w" and "False \<in> set sps" "W < fuel" "W \<le> kQueCap"
  shows "1 \<le> (1 :: nat) \<and> value_rep sps cx fuel Q ql v W (1 = (0 :: nat)) [] {}
    \<lparr>vo_event = new_value_event 1, vo_world = w, vo_reads = []\<rparr>"
  using assms
  by (simp add: value_rep_def event_rep_def new_value_event_def new_event_def gate_world_def
      gate_ready_def parked_on_def event_base.defs value_event.defs)

lemma value_begin_read: "all_read W (value_begin W w)"
  by (simp add: all_read_def value_begin_def gate_begin_def)



text \<open>
  examples/event_value.cpp: four coroutines wait, the fifth sleeps and sets the event to 4, the
  argument of its task.
\<close>

definition event_value_tasks where
  "event_value_tasks sps cx fuel Q ql = gate_task (value_gate sps cx fuel Q ql (4 :: int)) 1"

definition event_value_main :: "('q, 'v, unit) world \<Rightarrow> ('q, 'v, int, 'e) value_obj gate_sys" where
  "event_value_main w = value_begin 4 w"

end
