(* ===== verification/Stubs.thy ===== *)
theory Stubs
  imports Task Programs
begin

text \<open>
  The parts of the library that are still the skeleton the laboratory hands out: the channel
  (include/coro/comp/channel.hpp), \<open>when_all\<close> (comp/when_all.hpp) with the parallel functions built
  on it (parallel/parallel.hpp), and the allocator (allocator/memory.hpp); and the programs that use
  them: examples/channel.cpp, buffer_channel.cpp, when_all.cpp, when_all_value.cpp,
  parallel_calc.cpp, stack_call.cpp and the coroutines of benchtests/lab5c_bench.cpp.
\<close>

section \<open>Programs over a channel\<close>

text \<open>
  The operations of a channel with state \<open>'c\<close>. \<open>send\<close> and \<open>recv\<close> are awaited; each is one step.
\<close>

record ('c, 'a) chan_ops =
  op_send :: "'a \<Rightarrow> 'c \<Rightarrow> bool \<times> 'c"
  op_recv :: "'c \<Rightarrow> 'a option \<times> 'c"
  op_close :: "'c \<Rightarrow> 'c"

datatype chan_point = Sending nat | Receiving | Ended

record ('c, 'a) chan_sys =
  ch_obj :: 'c
  ch_number :: int
  ch_at :: "nat \<Rightarrow> chan_point"
  ch_got :: "(nat \<times> 'a) list"

text \<open>
  \<open>producer\<close> sends \<open>item i k\<close> for \<open>k < n\<close>; \<open>last_of\<close> updates the counter of the producers and
  says whether to close the channel. \<open>consumer\<close> logs what it receives until it receives nothing.
\<close>

definition chan_task ::
    "('c, 'a) chan_ops \<Rightarrow> nat \<Rightarrow> (nat \<Rightarrow> nat \<Rightarrow> 'a) \<Rightarrow> (int \<Rightarrow> int \<times> bool) \<Rightarrow> nat \<Rightarrow>
     ('c, 'a) chan_sys \<Rightarrow> ('c, 'a) chan_sys option" where
  "chan_task C n item last_of i s =
     (case ch_at s i of
        Sending k \<Rightarrow>
          if k < n then
            (case op_send C (item i k) (ch_obj s) of (_, c) \<Rightarrow>
               Some (s\<lparr>ch_obj := c, ch_at := (ch_at s)(i := Sending (Suc k))\<rparr>))
          else
            (case last_of (ch_number s) of (m, close) \<Rightarrow>
               Some (s\<lparr>ch_obj := (if close then op_close C (ch_obj s) else ch_obj s), ch_number := m,
                      ch_at := (ch_at s)(i := Ended)\<rparr>))
      | Receiving \<Rightarrow>
          (case op_recv C (ch_obj s) of
             (Some d, c) \<Rightarrow> Some (s\<lparr>ch_obj := c, ch_got := ch_got s @ [(i, d)]\<rparr>)
           | (None, c) \<Rightarrow> Some (s\<lparr>ch_obj := c, ch_at := (ch_at s)(i := Ended)\<rparr>))
      | Ended \<Rightarrow> None)"

text \<open>The first \<open>P\<close> coroutines produce, the others consume.\<close>

definition chan_begin :: "nat \<Rightarrow> int \<Rightarrow> 'c \<Rightarrow> ('c, 'a) chan_sys" where
  "chan_begin P m c =
     \<lparr>ch_obj = c, ch_number = m, ch_at = (\<lambda>i. if i < P then Sending 0 else Receiving), ch_got = []\<rparr>"

definition example_channel :: "('c, nat) chan_ops \<Rightarrow> nat \<Rightarrow> ('c, nat) chan_sys \<Rightarrow> ('c, nat) chan_sys option" where
  "example_channel C = chan_task C 10 (\<lambda>i k. k) (\<lambda>m. (m, True))"

definition buffer_channel :: "('c, nat) chan_ops \<Rightarrow> nat \<Rightarrow> ('c, nat) chan_sys \<Rightarrow> ('c, nat) chan_sys option" where
  "buffer_channel C = chan_task C 4 (\<lambda>i k. i * 10 + k) (\<lambda>m. (m - 1, m = 1))"

definition buffer_channel_main :: "'c \<Rightarrow> ('c, nat) chan_sys" where
  "buffer_channel_main c = chan_begin 2 2 c"

definition channel_bench ::
    "('c, 'a) chan_ops \<Rightarrow> 'a \<Rightarrow> nat \<Rightarrow> nat \<Rightarrow> ('c, 'a) chan_sys \<Rightarrow> ('c, 'a) chan_sys option" where
  "channel_bench C v total_num = chan_task C total_num (\<lambda>i k. v) (\<lambda>m. (m, True))"

section \<open>The channel of the library\<close>

text \<open>It has no state: \<open>send\<close> returns false, \<open>recv\<close> an empty optional, \<open>close\<close> does nothing.\<close>

definition ch_send :: "'a \<Rightarrow> unit \<Rightarrow> bool \<times> unit" where
  "ch_send v c = (False, c)"

definition ch_recv :: "unit \<Rightarrow> 'a option \<times> unit" where
  "ch_recv c = (None, c)"

definition ch_close :: "unit \<Rightarrow> unit" where
  "ch_close c = c"

definition channel_ops :: "(unit, 'a) chan_ops" where
  "channel_ops = \<lparr>op_send = ch_send, op_recv = ch_recv, op_close = ch_close\<rparr>"

fun chan_rem :: "nat \<Rightarrow> chan_point \<Rightarrow> nat" where
  "chan_rem n (Sending k) = Suc (n - k)"
| "chan_rem n Receiving = 1"
| "chan_rem n Ended = 0"

lemma chan_task_stub:
  assumes "chan_task channel_ops n item last_of i s = Some s'"
  shows "ch_got s' = ch_got s \<and> (\<exists>p. ch_at s' = (ch_at s)(i := p) \<and> chan_rem n p < chan_rem n (ch_at s i))"
  using assms
  by (cases "ch_at s i")
    (fastforce simp: chan_task_def channel_ops_def ch_send_def ch_recv_def split: if_splits prod.splits)+

interpretation stub_channel: ranked_program N "chan_task channel_ops n item last_of"
    "\<lambda>s. ch_got s = []" "\<lambda>s. \<Sum>i<N. chan_rem n (ch_at s i)" for N n item last_of
proof unfold_locales
  fix s s' :: "(unit, 'a) chan_sys" and i
  assume g: "ch_got s = []" and i: "i < N" and s': "chan_task channel_ops n item last_of i s = Some s'"
  note t = chan_task_stub [OF s']
  show "ch_got s' = []" using t g by simp
  obtain p where "ch_at s' = (ch_at s)(i := p)" "chan_rem n p < chan_rem n (ch_at s i)" using t by blast
  with sum_move [OF i, of "chan_rem n" "ch_at s" p]
  show "(\<Sum>j<N. chan_rem n (ch_at s' j)) < (\<Sum>j<N. chan_rem n (ch_at s j))" by simp
qed

lemma chan_task_None: "chan_task channel_ops n item last_of i s = None \<longleftrightarrow> ch_at s i = Ended"
  by (cases "ch_at s i") (auto simp: chan_task_def channel_ops_def ch_recv_def split: prod.splits)

section \<open>when_all\<close>

text \<open>
  The overload for a pack takes its tasks by value, so they are destroyed when it returns; the one
  for a range only refers to it. Both return an awaiter derived from \<open>std::suspend_always\<close>: it
  keeps no handle and resumes nobody.
\<close>

fun when_all_pack :: "handle list \<Rightarrow> 'v memory \<Rightarrow> 'v memory res" where
  "when_all_pack [] mem = Inr mem"
| "when_all_pack (t # ts) mem = bindE (task_dtor t mem) (when_all_pack ts)"

definition when_all_range :: "handle list \<Rightarrow> 'v memory \<Rightarrow> 'v memory res" where
  "when_all_range ts mem = Inr mem"

definition when_all_awaiter :: "'v instr" where
  "when_all_awaiter = Suspend"

text \<open>
  \<open>func\<close> of when_all.cpp and when_all_value.cpp, resumed for the first time: it calls \<open>sub_func\<close>
  for each of \<open>ts\<close>, passes the tasks on and awaits. \<open>r\<close> is what a sub task returns.
\<close>

definition sub_func :: "'v \<Rightarrow> 'v frame" where
  "sub_func r = new_frame [Co_return r]"

fun call_all :: "(handle \<times> 'v) list \<Rightarrow> 'v memory \<Rightarrow> 'v memory" where
  "call_all [] mem = mem"
| "call_all ((t, r) # ts) mem = call_all ts (mem(t \<mapsto> sub_func r))"

definition when_all_func :: "'v \<Rightarrow> 'v frame" where
  "when_all_func v = new_frame [when_all_awaiter, Co_return v]"

definition when_all_func_resume ::
    "nat \<Rightarrow> handle \<Rightarrow> (handle \<times> 'v) list \<Rightarrow> 'v memory \<Rightarrow> 'v memory res" where
  "when_all_func_resume fuel h ts mem = bindE (when_all_pack (map fst ts) (call_all ts mem)) (run fuel h)"

section \<open>The parallel functions\<close>

text \<open>
  If the coroutine were resumed, \<open>await_resume\<close> would give an empty vector to \<open>reduce\<close>.
\<close>

definition parallel_func_void :: "'v frame" where
  "parallel_func_void = new_frame [when_all_awaiter]"

definition make_parallel_reduce_func :: "('a \<Rightarrow> 'b) \<Rightarrow> 'a \<Rightarrow> 'b" where
  "make_parallel_reduce_func f = f"

definition parallel_func :: "(int list \<Rightarrow> 'v) \<Rightarrow> 'v frame" where
  "parallel_func reduce = new_frame [when_all_awaiter, Co_return (reduce [])]"

text \<open>\<open>parallel_calc.cpp\<close>: the squares of 1 to 5 in \<open>vec\<close>, and the coroutine that awaits their sum.\<close>

definition square :: "int \<Rightarrow> int frame" where
  "square i = new_frame [Co_return (i * i)]"

definition squares_reduce :: "int list \<Rightarrow> int" where
  "squares_reduce = make_parallel_reduce_func sum_list"

definition parallel_compute :: "handle \<Rightarrow> int frame" where
  "parallel_compute pf = new_frame [Co_await_task True pf]"

fun squares :: "handle \<Rightarrow> nat \<Rightarrow> int memory \<Rightarrow> int memory" where
  "squares base 0 mem = mem"
| "squares base (Suc n) mem = (squares base n mem)(base + n \<mapsto> square (int n + 1))"

definition parallel_compute_resume :: "nat \<Rightarrow> handle \<Rightarrow> handle \<Rightarrow> handle \<Rightarrow> int memory \<Rightarrow> int memory res" where
  "parallel_compute_resume fuel h pf base mem =
     run fuel h ((squares base 5 mem)(pf \<mapsto> parallel_func squares_reduce))"

section \<open>A call through a task\<close>

text \<open>\<open>stack_call.cpp\<close>: \<open>func\<close> awaits the task of \<open>add\<close>.\<close>

definition add_call :: "int \<Rightarrow> int \<Rightarrow> int frame" where
  "add_call x y = new_frame [Co_return (x + y)]"

definition stack_func :: "handle \<Rightarrow> int frame" where
  "stack_func c = new_frame [Co_await_task True c]"

text \<open>The call gives control to \<open>add\<close>, which gives it back with its value stored.\<close>

lemma stack_call_result:
  assumes "0 < h" "0 < c" "h \<noteq> c" and "mem h = Some (stack_func c)" "mem c = Some (add_call x y)"
  shows "\<exists>m0 m1. step h mem = Inr (c, m0) \<and> step c m0 = Inr (h, m1) \<and> await_resume c m1 = Inr (Inr (x + y))"
  using assms
  by (simp add: task_defs stack_func_def add_call_def new_frame_def container_defs Let_def)

section \<open>The allocator\<close>

text \<open>
  Coroutine frames come from the allocator of the scheduler when the build enables it; \<open>ginfo\<close> has
  none before the scheduler is initialised. \<open>malloc\<close> and \<open>free\<close> work on a heap of any kind.
\<close>

datatype memory_allocator = Std_allocator | No_allocator

definition allocator_init :: "memory_allocator \<Rightarrow> memory_allocator" where
  "allocator_init a = a"

fun allocate :: "(nat \<Rightarrow> 'm \<Rightarrow> nat \<times> 'm) \<Rightarrow> memory_allocator \<Rightarrow> nat \<Rightarrow> 'm \<Rightarrow> nat \<times> 'm" where
  "allocate malloc Std_allocator n m = malloc n m"
| "allocate malloc No_allocator n m = (nullptr, m)"

fun release :: "(nat \<Rightarrow> 'm \<Rightarrow> 'm) \<Rightarrow> memory_allocator \<Rightarrow> nat \<Rightarrow> 'm \<Rightarrow> 'm" where
  "release free Std_allocator p m = free p m"
| "release free No_allocator p m = m"

definition promise_new ::
    "(nat \<Rightarrow> 'm \<Rightarrow> nat \<times> 'm) \<Rightarrow> memory_allocator option \<Rightarrow> nat \<Rightarrow> 'm \<Rightarrow> (nat \<times> 'm) res" where
  "promise_new malloc mem_alloc n m =
     (case mem_alloc of None \<Rightarrow> Inl Dangling | Some a \<Rightarrow> Inr (allocate malloc a n m))"

definition promise_delete :: "(nat \<Rightarrow> 'm \<Rightarrow> 'm) \<Rightarrow> memory_allocator option \<Rightarrow> nat \<Rightarrow> 'm \<Rightarrow> 'm res" where
  "promise_delete free mem_alloc p m =
     (case mem_alloc of None \<Rightarrow> Inl Dangling | Some a \<Rightarrow> Inr (release free a p m))"

section \<open>Properties\<close>

lemma call_all_other: "h \<notin> fst ` set ts \<Longrightarrow> call_all ts mem h = mem h"
  by (induction ts mem rule: call_all.induct) auto

lemma call_all_in: "t \<in> fst ` set ts \<Longrightarrow> call_all ts mem t \<noteq> None"
proof (induction ts mem rule: call_all.induct)
  case (2 t' r ts mem)
  show ?case
  proof (cases "t \<in> fst ` set ts")
    case True
    with "2.IH" have "call_all ts (mem(t' \<mapsto> sub_func r)) t \<noteq> None" by blast
    then show ?thesis unfolding call_all.simps .
  next
    case False
    with 2 call_all_other [OF False] show ?thesis by auto
  qed
qed simp

lemma when_all_pack_destroys:
  assumes "distinct ts" and "0 \<notin> set ts" and "\<forall>t \<in> set ts. mem t \<noteq> None"
  shows "when_all_pack ts mem = Inr (mem |` (- set ts))"
  using assms
proof (induction ts arbitrary: mem)
  case Nil
  then show ?case by (simp add: restrict_map_def)
next
  case (Cons t ts)
  have "task_dtor t mem = Inr (mem(t := None))"
    using Cons.prems by (auto simp: task_dtor_def destroy_def deref_def)
  moreover have "when_all_pack ts (mem(t := None)) = Inr ((mem(t := None)) |` (- set ts))"
    using Cons.prems by (intro Cons.IH) auto
  moreover have "(mem(t := None)) |` (- set ts) = mem |` (- set (t # ts))"
    by (auto simp: restrict_map_def)
  ultimately show ?case by simp
qed

text \<open>
  \<open>when_all\<close> of a pack destroys the tasks before any of them ran, and leaves its caller suspended
  with nobody to resume it.
\<close>

lemma when_all_func_hangs:
  assumes "distinct (map fst ts)" "0 \<notin> fst ` set ts" "h \<notin> fst ` set ts" "0 < h"
    and "mem h = Some (when_all_func v)"
  shows "when_all_func_resume (n + 2) h ts mem =
    Inr ((call_all ts mem |` (- (fst ` set ts)))(h \<mapsto> (when_all_func v)\<lparr>body := [Co_return v]\<rparr>))"
proof -
  have "when_all_pack (map fst ts) (call_all ts mem) = Inr (call_all ts mem |` (- (fst ` set ts)))"
    using when_all_pack_destroys [of "map fst ts" "call_all ts mem"] assms(1,2) call_all_in [of _ ts mem] by simp
  moreover have "(call_all ts mem |` (- (fst ` set ts))) h = Some (when_all_func v)"
    using assms(3,5) call_all_other [OF assms(3), of mem] by (simp add: restrict_map_def)
  ultimately show ?thesis using assms(4)
    by (simp add: when_all_func_resume_def step_def when_all_func_def new_frame_def when_all_awaiter_def numeral_2_eq_2)
qed

text \<open>
  when_all_value.cpp: sub tasks that return their argument, and \<open>func(i)\<close>, which would log the
  values of three of them. It does not get there.
\<close>

definition value_sub_func :: "int \<Rightarrow> int frame" where
  "value_sub_func i = sub_func i"

definition value_func_resume ::
    "nat \<Rightarrow> handle \<Rightarrow> handle \<Rightarrow> handle \<Rightarrow> handle \<Rightarrow> int \<Rightarrow> int memory \<Rightarrow> int memory res" where
  "value_func_resume fuel h t1 t2 t3 i mem =
     when_all_func_resume fuel h [(t1, i + 1), (t2, i + 2), (t3, i + 3)] mem"

lemma value_func_hangs:
  assumes "distinct [0, h, t1, t2, t3]" and "mem h = Some (when_all_func v)"
  shows "\<exists>mem'. value_func_resume (n + 2) h t1 t2 t3 i mem = Inr mem' \<and>
    mem' h = Some ((when_all_func v)\<lparr>body := [Co_return v]\<rparr>) \<and> mem' t1 = None \<and> mem' t2 = None \<and> mem' t3 = None"
  using when_all_func_hangs [of "[(t1, i + 1), (t2, i + 2), (t3, i + 3)]" h mem v n] assms
  by (simp add: value_func_resume_def)

text \<open>
  The channel delivers nothing: whatever the order in which \<open>P\<close> producers of \<open>n\<close> values and \<open>R\<close>
  consumers run, no consumer ever logs a value, no run is longer than \<open>P * (n + 1) + R\<close> steps, and
  when nothing can move every producer has sent everything and every consumer has given up.
\<close>

lemma channel_delivers_nothing:
  assumes "p_run (chan_task channel_ops n item last_of) is (chan_begin P m ()) = Some s"
    and "set is \<subseteq> {..<P + R}"
  shows "ch_got s = [] \<and> length is \<le> P * (n + 1) + R \<and>
    ((\<forall>i<P + R. chan_task channel_ops n item last_of i s = None) \<longrightarrow> (\<forall>i<P + R. ch_at s i = Ended))"
proof -
  have "(\<Sum>i<P + R. chan_rem n (ch_at (chan_begin P m () :: (unit, 'a) chan_sys) i)) = P * (n + 1) + R"
    by (induction R) (simp_all add: chan_begin_def)
  moreover have "ch_got s = [] \<and>
      length is + (\<Sum>i<P + R. chan_rem n (ch_at s i)) \<le>
        (\<Sum>i<P + R. chan_rem n (ch_at (chan_begin P m () :: (unit, 'a) chan_sys) i))"
    using stub_channel.run [OF assms(1,2)] by (simp add: chan_begin_def)
  ultimately show ?thesis by (auto simp: chan_task_None)
qed

text \<open>The example with a buffer: both producers send, the first consumer looks and gives up.\<close>

lemma channel_delivers_nothing_witness:
  "\<exists>s. p_run (buffer_channel channel_ops) ([0, 1, 0, 1, 2] @ replicate 3 0) (buffer_channel_main ()) = Some s \<and>
     ch_number s = 1 \<and> ch_got s = []"
proof -
  obtain s where s: "p_run (buffer_channel channel_ops) ([0, 1, 0, 1, 2] @ replicate 3 0) (buffer_channel_main ()) = Some s"
    "ch_number s = 1"
    by (simp add: buffer_channel_def buffer_channel_main_def chan_begin_def chan_task_def channel_ops_def
        ch_send_def ch_recv_def ch_close_def eval_nat_numeral)
  from channel_delivers_nothing [OF s(1) [unfolded buffer_channel_def buffer_channel_main_def], of 2] s show ?thesis
    by auto
qed

text \<open>
  The example of the parallel functions never answers: run by whoever resumes it, the coroutine
  comes to a stop inside \<open>parallel_func\<close>, which is suspended in \<open>when_all\<close> and known to nobody; none
  of the five tasks has been started, and neither coroutine is finished.
\<close>

lemma parallel_never_answers:
  assumes "distinct [0, h, pf, base, base + 1, base + 2, base + 3, base + 4]" and "mem h = Some (parallel_compute pf)"
  shows "\<exists>mem'. parallel_compute_resume (n + 3) h pf base mem = Inr mem' \<and>
    mem' h = Some ((parallel_compute pf)\<lparr>body := [], awaiting := Some (True, pf)\<rparr>) \<and>
    mem' pf = Some ((parallel_func squares_reduce)\<lparr>body := [Co_return 0], m_continuation := h\<rparr>) \<and>
    (\<forall>i<5. mem' (base + i) = Some (square (int i + 1)))"
proof -
  have sq: "squares base n mem (base + i) = Some (square (int i + 1))" if "i < n" for i n
    using that by (induction n) (auto simp: less_Suc_eq)
  have other: "squares base n mem k = mem k" if "\<forall>i<n. k \<noteq> base + i" for n k
    using that by (induction n) auto
  let ?m0 = "(squares base 5 mem)(pf \<mapsto> parallel_func squares_reduce)"
  let ?m1 = "?m0(h \<mapsto> (parallel_compute pf)\<lparr>body := [], awaiting := Some (True, pf)\<rparr>,
      pf \<mapsto> continuation h (parallel_func squares_reduce))"
  let ?m2 = "?m1(pf \<mapsto> (parallel_func squares_reduce)\<lparr>body := [Co_return 0], m_continuation := h\<rparr>)"
  have small: "i = 0 \<or> i = 1 \<or> i = 2 \<or> i = 3 \<or> i = 4" if "i < 5" for i :: nat using that by auto
  have ne: "h \<noteq> 0" "pf \<noteq> 0" "h \<noteq> pf" "\<forall>i<5. h \<noteq> base + i" "\<forall>i<5. pf \<noteq> base + i"
    using assms(1) small by (auto dest!: small)
  have h: "?m0 h = Some (parallel_compute pf)" using other [OF ne(4)] assms(2) ne(3) by simp
  have "step h ?m0 = Inr (pf, ?m1)" using h ne
    by (simp add: step_def parallel_compute_def parallel_func_def new_frame_def await_ready_def await_suspend_def Let_def)
  moreover have "step pf ?m1 = Inr (0, ?m2)" using ne
    by (simp add: step_def parallel_func_def new_frame_def when_all_awaiter_def squares_reduce_def
        make_parallel_reduce_func_def continuation_def)
  ultimately have "parallel_compute_resume (n + 3) h pf base mem = Inr ?m2"
    using ne by (simp add: parallel_compute_resume_def eval_nat_numeral)
  moreover have "?m2 (base + i) = Some (square (int i + 1))" if "i < 5" for i
    using sq [OF that] ne(4,5) that by auto
  ultimately show ?thesis using ne(3) by (intro exI [of _ ?m2]) simp
qed

text \<open>The coroutines at 1 and 2, the squares from 3 on.\<close>

lemma parallel_never_answers_witness:
  "\<exists>mem'. parallel_compute_resume 3 1 2 3 [1 \<mapsto> parallel_compute 2] = Inr mem' \<and> mem' 7 = Some (square 5)"
proof -
  from parallel_never_answers [of 1 2 3 "[1 \<mapsto> parallel_compute 2]" 0] obtain mem' where
    "parallel_compute_resume 3 1 2 3 [1 \<mapsto> parallel_compute 2] = Inr mem'"
    "\<forall>i<5. mem' (3 + i) = Some (square (int i + 1))"
    by auto
  then show ?thesis by (auto dest: spec [of _ 4])
qed

end
